(* ===== verification/Prelude.thy ===== *)
theory Prelude
  imports Main "HOL-Library.Word" "HOL-Library.Monad_Syntax"
begin

text \<open>
  What every component of the development shares: the C types of an LP64 Linux target, the
  memory of one allocated object as a list of cells, and the facts about both that carry the
  component proofs.

  A computation that has no defined outcome, because it reads or writes outside its object
  or because its loop never stops, is the value \<open>None\<close> of the option monad; every theorem
  that an operation equals \<open>Some r\<close> therefore also says that it is memory safe and returns.
\<close>

named_theorems mem_simps \<open>reads and writes of a memory block that stay inside it\<close>
named_theorems size_simps \<open>size_t arithmetic that does not wrap around\<close>

type_synonym byte = "8 word"
type_synonym size_t = "64 word"

abbreviation NL :: byte where
  "NL \<equiv> 10"

section \<open>The memory of one object\<close>

definition mem_load :: "'a list \<Rightarrow> nat \<Rightarrow> nat \<Rightarrow> 'a list option" where
  "mem_load d i n = (if i + n \<le> length d then Some (take n (drop i d)) else None)"

definition mem_store :: "'a list \<Rightarrow> nat \<Rightarrow> 'a list \<Rightarrow> 'a list option" where
  "mem_store d i bs =
     (if i + length bs \<le> length d then Some (take i d @ bs @ drop (i + length bs) d) else None)"

definition mem_move :: "'a list \<Rightarrow> nat \<Rightarrow> nat \<Rightarrow> nat \<Rightarrow> 'a list option" where
  "mem_move d dst src n = do { bs \<leftarrow> mem_load d src n; mem_store d dst bs }"

fun find_byte :: "'a \<Rightarrow> 'a list \<Rightarrow> nat option" where
  "find_byte c [] = None"
| "find_byte c (x # xs) = (if x = c then Some 0 else map_option Suc (find_byte c xs))"

definition memchr :: "'a list \<Rightarrow> nat \<Rightarrow> 'a \<Rightarrow> nat \<Rightarrow> nat option option" where
  "memchr d p c n = do { bs \<leftarrow> mem_load d p n; Some (map_option ((+) p) (find_byte c bs)) }"

lemma mem_load_in [mem_simps]: "i + n \<le> length d \<Longrightarrow> mem_load d i n = Some (take n (drop i d))"
  by (simp add: mem_load_def)

lemma mem_load_out: "length d < i + n \<Longrightarrow> mem_load d i n = None"
  by (simp add: mem_load_def)

lemma mem_load_zero [simp]: "i \<le> length d \<Longrightarrow> mem_load d i 0 = Some []"
  by (simp add: mem_load_def)

lemma mem_load_SomeD: "mem_load d i n = Some bs \<Longrightarrow> i + n \<le> length d \<and> bs = take n (drop i d)"
  by (simp add: mem_load_def split: if_splits)

lemma mem_store_in [mem_simps]:
  "i + length bs \<le> length d \<Longrightarrow>
     mem_store d i bs = Some (take i d @ bs @ drop (i + length bs) d)"
  by (simp add: mem_store_def)

lemma mem_store_length: "mem_store d i bs = Some d' \<Longrightarrow> length d' = length d"
  by (auto simp: mem_store_def split: if_splits)

lemma mem_move_in [mem_simps]:
  "src + n \<le> length d \<Longrightarrow> dst + n \<le> length d \<Longrightarrow>
     mem_move d dst src n = Some (take dst d @ take n (drop src d) @ drop (dst + n) d)"
  by (simp add: mem_move_def mem_load_def mem_store_def)

lemma find_byte_None: "find_byte c xs = None \<longleftrightarrow> c \<notin> set xs"
  by (induction xs) auto

lemma find_byte_Some:
  "find_byte c xs = Some i \<longleftrightarrow> i < length xs \<and> xs ! i = c \<and> c \<notin> set (take i xs)"
proof (induction xs arbitrary: i)
  case Nil
  then show ?case by simp
next
  case (Cons x xs)
  then show ?case by (cases i) auto
qed

lemma find_byte_takeWhile:
  "find_byte c xs = Some i \<Longrightarrow> take i xs = takeWhile (\<lambda>x. x \<noteq> c) xs \<and> i < length xs"
proof (induction xs arbitrary: i)
  case Nil
  then show ?case by simp
next
  case (Cons x xs)
  then show ?case by (auto split: if_splits)
qed

lemma takeWhile_found_at:
  assumes "c \<notin> set (take k xs)" and "find_byte c (drop k xs) = Some i" and "k \<le> length xs"
  shows "length (takeWhile (\<lambda>x. x \<noteq> c) xs) = k + i"
proof -
  have "takeWhile (\<lambda>x. x \<noteq> c) (take k xs @ drop k xs) =
      take k xs @ takeWhile (\<lambda>x. x \<noteq> c) (drop k xs)"
    using assms(1) by (intro takeWhile_append2) auto
  moreover have "take i (drop k xs) = takeWhile (\<lambda>x. x \<noteq> c) (drop k xs)" "i < length (drop k xs)"
    using find_byte_takeWhile [OF assms(2)] by auto
  ultimately show ?thesis
    using assms(3) by (metis append_take_drop_id length_append length_take min.absorb2 less_imp_le)
qed

lemma takeWhile_not_in: "c \<notin> set xs \<Longrightarrow> takeWhile (\<lambda>x. x \<noteq> c) xs = xs"
  by (induction xs) auto

lemma take_drop_add: "take (a + b) xs = take a xs @ take b (drop a xs)"
  by (simp add: take_add)

section \<open>Machine words\<close>

lemma unat_add_fits [size_simps]:
  fixes a b :: "'a::len word"
  assumes "unat a + unat b < 2 ^ LENGTH('a)"
  shows "unat (a + b) = unat a + unat b"
  using assms by (simp add: unat_word_ariths)

lemma unat_sub_fits [size_simps]:
  fixes a b :: "'a::len word"
  assumes "unat b \<le> unat a"
  shows "unat (a - b) = unat a - unat b"
  using assms by (simp add: unat_sub word_le_nat_alt)

lemma unat_less_size: "unat (a :: size_t) < 18446744073709551616"
  using unsigned_less [of a] by simp

lemma unat_add_size [size_simps]:
  fixes a b :: size_t
  assumes "unat a + unat b < 18446744073709551616"
  shows "unat (a + b) = unat a + unat b"
  using assms by (simp add: unat_add_fits)

lemma unat_trailing [size_simps]:
  fixes c a b :: size_t
  assumes "unat a + unat b \<le> unat c"
  shows "unat (c - (a + b)) = unat c - (unat a + unat b)"
proof -
  have "unat (a + b) = unat a + unat b"
    using assms unat_less_size [of c] by (simp add: unat_add_size)
  then show ?thesis
    using assms by (simp add: unat_sub_fits)
qed

lemma unat_of_nat_size [size_simps]:
  "n < 18446744073709551616 \<Longrightarrow> unat (of_nat n :: size_t) = n"
  by (simp add: unat_of_nat take_bit_nat_eq_self)

lemma word_eq_unatI: "unat a = unat b \<Longrightarrow> a = b"
  by (simp add: word_unat_eq_iff)

lemmas size_le = word_le_nat_alt word_less_nat_alt

end
