(* ===== verification/Posix.thy ===== *)
theory Posix
  imports Prelude
begin

text \<open>
  The operating system as the programs see it: the heap of \<open>malloc\<close> and \<open>free\<close>, one input
  descriptor, one output descriptor. The kernel's freedom (an allocation that fails, a short
  read or write, an error) is a schedule of choices kept in the state and used up call by
  call; when a schedule runs out the calls succeed in full. Every finite run of a program is
  a run under some schedule, and no theorem fixes one unless it says so.
\<close>

type_synonym errno = int

datatype read_choice = Short nat | ReadFails errno

datatype write_choice = Accept nat | WriteFails errno

record os =
  mallocs :: "bool list"          \<comment> \<open>whether each coming allocation succeeds\<close>
  junk    :: "nat \<Rightarrow> byte"        \<comment> \<open>what fresh memory holds\<close>
  live    :: int                  \<comment> \<open>objects allocated and not freed\<close>
  pending :: "byte list"          \<comment> \<open>input from the file offset to the end of file\<close>
  reads   :: "read_choice list"
  sink    :: "byte list"          \<comment> \<open>what the output descriptor has received\<close>
  writes  :: "write_choice list"

section \<open>The heap\<close>

definition alloc_object :: "os \<Rightarrow> bool \<times> os" where
  "alloc_object s =
     (case mallocs s of
        [] \<Rightarrow> (True, s\<lparr>live := live s + 1\<rparr>)
      | c # cs \<Rightarrow>
          (if c then (True, s\<lparr>mallocs := cs, live := live s + 1\<rparr>)
           else (False, s\<lparr>mallocs := cs\<rparr>)))"

definition malloc :: "size_t \<Rightarrow> os \<Rightarrow> byte list option \<times> os" where
  "malloc n s =
     (case alloc_object s of
        (True, s') \<Rightarrow> (Some (map (junk s) [0..<unat n]), s')
      | (False, s') \<Rightarrow> (None, s'))"

definition c_free :: "'a option \<Rightarrow> os \<Rightarrow> os" where
  "c_free p s = (case p of None \<Rightarrow> s | Some _ \<Rightarrow> s\<lparr>live := live s - 1\<rparr>)"

section \<open>Input and output\<close>

definition deliver :: "nat \<Rightarrow> nat \<Rightarrow> os \<Rightarrow> (errno + byte list) \<times> os" where
  "deliver limit k s =
     (let n = min limit (min k (length (pending s)))
      in (Inr (take n (pending s)), s\<lparr>pending := drop n (pending s)\<rparr>))"

definition sys_read :: "nat \<Rightarrow> os \<Rightarrow> (errno + byte list) \<times> os" where
  "sys_read limit s =
     (case reads s of
        [] \<Rightarrow> deliver limit (length (pending s)) s
      | Short k # cs \<Rightarrow> deliver limit (max 1 k) (s\<lparr>reads := cs\<rparr>)
      | ReadFails e # cs \<Rightarrow> (Inl e, s\<lparr>reads := cs\<rparr>))"

definition sys_write :: "byte list \<Rightarrow> os \<Rightarrow> (errno + nat) \<times> os" where
  "sys_write bs s =
     (case writes s of
        [] \<Rightarrow> (Inr (length bs), s\<lparr>sink := sink s @ bs\<rparr>)
      | Accept k # cs \<Rightarrow>
          (let n = min k (length bs)
           in (Inr n, s\<lparr>sink := sink s @ take n bs, writes := cs\<rparr>))
      | WriteFails e # cs \<Rightarrow> (Inl e, s\<lparr>writes := cs\<rparr>))"

text \<open>No read of the schedule fails; no allocation of the schedule fails.\<close>

fun delivers :: "read_choice \<Rightarrow> bool" where
  "delivers (Short k) = True"
| "delivers (ReadFails e) = False"

definition reads_ok :: "os \<Rightarrow> bool" where
  "reads_ok s \<longleftrightarrow> list_all delivers (reads s)"

definition mallocs_ok :: "os \<Rightarrow> bool" where
  "mallocs_ok s \<longleftrightarrow> list_all (\<lambda>c. c) (mallocs s)"

section \<open>What a source of bytes promises\<close>

locale byte_source =
  fixes read :: "nat \<Rightarrow> 's \<Rightarrow> ('e + byte list) \<times> 's"
    and content :: "'s \<Rightarrow> byte list"
  assumes read_content: "read n s = (Inr bs, s') \<Longrightarrow> content s = bs @ content s'"
    and read_bound: "read n s = (Inr bs, s') \<Longrightarrow> length bs \<le> n"
    and read_eof: "read n s = (Inr [], s') \<Longrightarrow> n = 0 \<or> content s = []"
    and read_error: "read n s = (Inl e, s') \<Longrightarrow> content s' = content s"
begin

lemma read_progress:
  "read n s = (Inr bs, s') \<Longrightarrow> bs \<noteq> [] \<Longrightarrow> length (content s') < length (content s)"
  using read_content [of n s bs s'] by simp

lemma read_zero_iff:
  "read n s = (Inr bs, s') \<Longrightarrow> 0 < n \<Longrightarrow> bs = [] \<longleftrightarrow> content s = []"
  using read_content [of n s bs s'] read_eof [of n s s'] by auto

lemma read_eof_content:
  "read n s = (Inr [], s') \<Longrightarrow> content s' = content s"
  using read_content [of n s "[]" s'] by simp

end

locale byte_sink =
  fixes put :: "byte list \<Rightarrow> 's \<Rightarrow> ('e + nat) \<times> 's"
    and written :: "'s \<Rightarrow> byte list"
  assumes write_content: "put bs s = (Inr n, s') \<Longrightarrow> written s' = written s @ take n bs"
    and write_bound: "put bs s = (Inr n, s') \<Longrightarrow> n \<le> length bs"
    and write_error: "put bs s = (Inl e, s') \<Longrightarrow> written s' = written s"
begin

lemma write_all:
  "put bs s = (Inr n, s') \<Longrightarrow> length bs \<le> n \<Longrightarrow> written s' = written s @ bs"
  by (simp add: write_content)

lemma write_prefix:
  "put bs s = (r, s') \<Longrightarrow> \<exists>k \<le> length bs. written s' = written s @ take k bs"
proof (cases r)
  case (Inl e)
  assume "put bs s = (r, s')"
  with Inl have "written s' = written s @ take 0 bs"
    using write_error by simp
  then show ?thesis by blast
next
  case (Inr n)
  assume "put bs s = (r, s')"
  with Inr show ?thesis
    using write_content write_bound by blast
qed

end

lemma deliver_cases:
  "deliver limit k s = (r, s') \<Longrightarrow>
     \<exists>n. n \<le> limit \<and> n \<le> length (pending s) \<and> r = Inr (take n (pending s)) \<and>
         s' = s\<lparr>pending := drop n (pending s)\<rparr> \<and>
         (n = 0 \<longrightarrow> limit = 0 \<or> k = 0 \<or> pending s = [])"
  by (rule exI [of _ "min limit (min k (length (pending s)))"])
    (auto simp: deliver_def Let_def min_def)

lemma sys_read_cases:
  assumes "sys_read limit s = (r, s')"
  shows "(\<exists>e cs. r = Inl e \<and> reads s = ReadFails e # cs \<and> s' = s\<lparr>reads := cs\<rparr>) \<or>
    (\<exists>n. r = Inr (take n (pending s)) \<and> n \<le> limit \<and> n \<le> length (pending s) \<and>
        s' = s\<lparr>pending := drop n (pending s), reads := tl (reads s)\<rparr> \<and>
        (n = 0 \<longrightarrow> limit = 0 \<or> pending s = []))"
proof (cases "\<exists>e cs. reads s = ReadFails e # cs")
  case True
  with assms show ?thesis by (auto simp: sys_read_def)
next
  case False
  define k where "k = (case reads s of Short j # _ \<Rightarrow> max 1 j | _ \<Rightarrow> length (pending s))"
  have same: "s\<lparr>reads := []\<rparr> = s" if "reads s = []"
    using that by (cases s) simp
  with False assms have "deliver limit k (s\<lparr>reads := tl (reads s)\<rparr>) = (r, s')"
    by (auto simp: sys_read_def k_def same split: list.splits read_choice.splits)
  from deliver_cases [OF this] obtain n where n:
    "n \<le> limit" "n \<le> length (pending s)" "r = Inr (take n (pending s))"
    "s' = s\<lparr>pending := drop n (pending s), reads := tl (reads s)\<rparr>"
    "n = 0 \<longrightarrow> limit = 0 \<or> k = 0 \<or> pending s = []"
    by auto
  moreover have "k = 0 \<longrightarrow> pending s = []"
    by (auto simp: k_def split: list.splits read_choice.splits)
  ultimately show ?thesis by blast
qed

interpretation inp: byte_source sys_read pending
proof
  fix n s bs s'
  assume "sys_read n s = (Inr bs, s')"
  from sys_read_cases [OF this]
  show "pending s = bs @ pending s'" and "length bs \<le> n"
    by auto
next
  fix n s s'
  assume "sys_read n s = (Inr [], s')"
  from sys_read_cases [OF this] show "n = 0 \<or> pending s = []"
    by auto
next
  fix n s e s'
  assume "sys_read n s = (Inl e, s')"
  from sys_read_cases [OF this] show "pending s' = pending s"
    by auto
qed

interpretation outp: byte_sink sys_write sink
  by unfold_locales
    (auto simp: sys_write_def Let_def split: list.splits write_choice.splits)

text \<open>What each call leaves alone.\<close>

lemma sys_read_frame:
  "sys_read n s = (r, s') \<Longrightarrow>
     live s' = live s \<and> mallocs s' = mallocs s \<and> junk s' = junk s \<and> sink s' = sink s \<and>
     writes s' = writes s"
  by (drule sys_read_cases) auto

lemma sys_read_reads_ok:
  assumes "reads_ok s" and "sys_read n s = (r, s')"
  shows "reads_ok s' \<and> (\<exists>bs. r = Inr bs)"
  using sys_read_cases [OF assms(2)] assms(1)
  by (cases "reads s") (auto simp: reads_ok_def)

lemma sys_read_pending_le:
  "sys_read n s = (r, s') \<Longrightarrow> length (pending s') \<le> length (pending s)"
  by (drule sys_read_cases) auto

lemma sys_write_frame:
  "sys_write bs s = (r, s') \<Longrightarrow>
     live s' = live s \<and> mallocs s' = mallocs s \<and> pending s' = pending s \<and> reads s' = reads s"
  by (auto simp: sys_write_def Let_def split: list.splits write_choice.splits)

lemma alloc_object_frame:
  "alloc_object s = (b, s') \<Longrightarrow>
     pending s' = pending s \<and> reads s' = reads s \<and> sink s' = sink s \<and> writes s' = writes s \<and>
     live s' = (if b then live s + 1 else live s)"
  by (auto simp: alloc_object_def split: list.splits if_splits)

lemma alloc_object_ok:
  "mallocs_ok s \<Longrightarrow> alloc_object s = (b, s') \<Longrightarrow> b \<and> mallocs_ok s'"
  by (auto simp: alloc_object_def mallocs_ok_def split: list.splits if_splits)

lemma malloc_Some:
  assumes "malloc n s = (Some d, s')"
  shows "length d = unat n \<and> live s' = live s + 1"
  using assms by (auto simp: malloc_def split: prod.splits bool.splits dest: alloc_object_frame)

lemma malloc_None: "malloc n s = (None, s') \<Longrightarrow> live s' = live s"
  by (auto simp: malloc_def split: prod.splits bool.splits dest: alloc_object_frame)

lemma malloc_frame:
  "malloc n s = (r, s') \<Longrightarrow>
     pending s' = pending s \<and> reads s' = reads s \<and> sink s' = sink s \<and> writes s' = writes s"
  by (auto simp: malloc_def split: prod.splits bool.splits dest: alloc_object_frame)

lemma malloc_ok:
  "mallocs_ok s \<Longrightarrow> malloc n s = (r, s') \<Longrightarrow> mallocs_ok s' \<and> r \<noteq> None"
  by (auto simp: malloc_def split: prod.splits bool.splits dest: alloc_object_ok)

lemma c_free_frame [simp]:
  "pending (c_free p s) = pending s" "reads (c_free p s) = reads s"
  "sink (c_free p s) = sink s" "writes (c_free p s) = writes s"
  "mallocs_ok (c_free p s) = mallocs_ok s"
  by (simp_all add: c_free_def mallocs_ok_def split: option.splits)

lemma c_free_live [simp]:
  "live (c_free p s) = (if p = None then live s else live s - 1)"
  by (simp add: c_free_def split: option.splits)

lemma ok_frame [simp]:
  "reads_ok (c_free p s) = reads_ok s"
  "reads_ok (s\<lparr>live := l\<rparr>) = reads_ok s" "mallocs_ok (s\<lparr>live := l\<rparr>) = mallocs_ok s"
  by (simp_all add: reads_ok_def mallocs_ok_def)

lemma sys_read_mallocs_ok:
  "mallocs_ok s \<Longrightarrow> sys_read n s = (r, s') \<Longrightarrow> mallocs_ok s'"
  using sys_read_frame [of n s r s'] by (simp add: mallocs_ok_def)

lemma malloc_reads_ok: "reads_ok s \<Longrightarrow> malloc n s = (r, s') \<Longrightarrow> reads_ok s'"
  using malloc_frame [of n s r s'] by (simp add: reads_ok_def)

text \<open>A system in which nothing fails, for the examples.\<close>

definition example_os :: os where
  "example_os = \<lparr>mallocs = [], junk = (\<lambda>_. 0), live = 0, pending = [], reads = [],
                 sink = [], writes = []\<rparr>"

end
