(* ===== verification/ReadBuffer.thy ===== *)
theory ReadBuffer
  imports Posix
begin

text \<open>
  The growable read buffer of \<open>commons/src/readbuffer/src/readbuffer.c\<close>: one heap block with
  a window of unread bytes \<open>[offset, offset + length)\<close>. A \<open>ReadBuffer *\<close> is an
  \<open>option\<close>, \<open>None\<close> being NULL; a \<open>char *\<close> into the block is an offset into it, or
  \<open>None\<close> for NULL. The abstract value of a buffer is its window (\<open>rb_content\<close>).
\<close>

section \<open>The model\<close>

datatype ReadBufferErrorCode =
    READBUFFER_ERROR_NONE
  | READBUFFER_ERROR_INVALID_ARGUMENT
  | READBUFFER_ERROR_ALLOCATION_FAILED
  | READBUFFER_ERROR_OVERFLOW
  | READBUFFER_ERROR_OUT_OF_RANGE

record ReadBufferResult =
  ok :: bool
  error_code :: ReadBufferErrorCode
  error_message :: string

record ReadBuffer =
  rb_data :: "byte list option"
  rb_capacity :: size_t
  rb_length :: size_t
  rb_offset :: size_t

record RbString =
  cursor :: "nat option"
  size :: size_t

definition SIZE_MAX :: size_t where
  "SIZE_MAX = - 1"

definition READBUFFER_SUCCESS :: ReadBufferResult where
  "READBUFFER_SUCCESS = \<lparr>ok = True, error_code = READBUFFER_ERROR_NONE, error_message = []\<rparr>"

definition READBUFFER_FAILURE :: "ReadBufferErrorCode \<Rightarrow> string \<Rightarrow> ReadBufferResult" where
  "READBUFFER_FAILURE code message =
     \<lparr>ok = False, error_code = code, error_message = message\<rparr>"

text \<open>The loop of \<open>next_power_of_two\<close>: \<open>Some None\<close> is its return 0, \<open>None\<close> a loop that
  never ends (as it would from capacity 0).\<close>

partial_function (option) pow2_loop :: "size_t \<Rightarrow> size_t \<Rightarrow> size_t option option" where
  "pow2_loop value capacity =
     (if capacity < value
      then if capacity > SIZE_MAX div 2 then Some None else pow2_loop value (capacity * 2)
      else Some (Some capacity))"

definition next_power_of_two :: "size_t \<Rightarrow> size_t option option" where
  "next_power_of_two value = (if value = 0 then Some (Some 0) else pow2_loop value 1)"

definition readbuffer__init :: "size_t \<Rightarrow> os \<Rightarrow> ReadBuffer option \<times> os" where
  "readbuffer__init init_capacity s =
     (case alloc_object s of
        (False, s1) \<Rightarrow> (None, s1)
      | (True, s1) \<Rightarrow>
          if init_capacity \<noteq> 0
          then case malloc init_capacity s1 of
                 (None, s2) \<Rightarrow> (None, c_free (Some ()) s2)
               | (Some d, s2) \<Rightarrow>
                   (Some \<lparr>rb_data = Some d, rb_capacity = init_capacity,
                           rb_length = 0, rb_offset = 0\<rparr>, s2)
          else (Some \<lparr>rb_data = None, rb_capacity = init_capacity,
                       rb_length = 0, rb_offset = 0\<rparr>, s1))"

fun readbuffer__destroy :: "ReadBuffer option \<Rightarrow> os \<Rightarrow> os" where
  "readbuffer__destroy None s = s"
| "readbuffer__destroy (Some rb) s = c_free (Some rb) (c_free (rb_data rb) s)"

text \<open>The bytes behind a data pointer; NULL points at none.\<close>

definition rb_block :: "ReadBuffer \<Rightarrow> byte list" where
  "rb_block rb = (case rb_data rb of None \<Rightarrow> [] | Some d \<Rightarrow> d)"

fun readbuffer__assure ::
    "ReadBuffer option \<Rightarrow> size_t \<Rightarrow> os \<Rightarrow> (ReadBufferResult \<times> ReadBuffer option \<times> os) option" where
  "readbuffer__assure None requested_space s =
     Some (READBUFFER_FAILURE READBUFFER_ERROR_INVALID_ARGUMENT ''read buffer is NULL'', None, s)"
| "readbuffer__assure (Some rb) requested_space s =
     (let trailing_space = rb_capacity rb - (rb_offset rb + rb_length rb);
          available_space = rb_capacity rb - rb_length rb;
          overflow = Some (READBUFFER_FAILURE READBUFFER_ERROR_OVERFLOW
                             ''requested capacity overflows'', Some rb, s)
      in
      if requested_space \<le> trailing_space then Some (READBUFFER_SUCCESS, Some rb, s)
      else if requested_space \<le> available_space then
        do {
          d \<leftarrow> mem_move (rb_block rb) 0 (unat (rb_offset rb)) (unat (rb_length rb));
          Some (READBUFFER_SUCCESS,
                Some (rb\<lparr>rb_data := map_option (\<lambda>_. d) (rb_data rb), rb_offset := 0\<rparr>), s)
        }
      else if requested_space > SIZE_MAX - rb_length rb then overflow
      else
        do {
          np \<leftarrow> next_power_of_two (rb_length rb + requested_space);
          case np of
            None \<Rightarrow> overflow
          | Some new_capacity \<Rightarrow>
              (case malloc new_capacity s of
                 (None, s1) \<Rightarrow>
                   Some (READBUFFER_FAILURE READBUFFER_ERROR_ALLOCATION_FAILED
                           ''allocation failed'', Some rb, s1)
               | (Some new_data, s1) \<Rightarrow>
                   do {
                     d \<leftarrow> (if rb_length rb \<noteq> 0
                          then do {
                            bs \<leftarrow> mem_load (rb_block rb) (unat (rb_offset rb)) (unat (rb_length rb));
                            mem_store new_data 0 bs
                          }
                          else Some new_data);
                     Some (READBUFFER_SUCCESS,
                           Some (rb\<lparr>rb_data := Some d, rb_capacity := new_capacity,
                                    rb_offset := 0\<rparr>),
                           c_free (rb_data rb) s1)
                   })
        })"

fun readbuffer__get_read_view :: "ReadBuffer option \<Rightarrow> RbString" where
  "readbuffer__get_read_view (Some rb) =
     \<lparr>cursor = (case rb_data rb of None \<Rightarrow> None | Some _ \<Rightarrow> Some (unat (rb_offset rb))),
      size = rb_length rb\<rparr>"
| "readbuffer__get_read_view None = \<lparr>cursor = None, size = 0\<rparr>"

fun readbuffer__get_write_cursor :: "ReadBuffer option \<Rightarrow> nat option" where
  "readbuffer__get_write_cursor None = None"
| "readbuffer__get_write_cursor (Some rb) =
     (if rb_data rb = None then None
      else Some (unat (rb_offset rb) + unat (rb_length rb)))"

fun readbuffer__get_write_cursor_limit :: "ReadBuffer option \<Rightarrow> size_t" where
  "readbuffer__get_write_cursor_limit None = 0"
| "readbuffer__get_write_cursor_limit (Some rb) =
     rb_capacity rb - (rb_offset rb + rb_length rb)"

fun readbuffer__commit_write ::
    "ReadBuffer option \<Rightarrow> size_t \<Rightarrow> ReadBufferResult \<times> ReadBuffer option" where
  "readbuffer__commit_write None bytes_written =
     (READBUFFER_FAILURE READBUFFER_ERROR_INVALID_ARGUMENT ''read buffer is NULL'', None)"
| "readbuffer__commit_write (Some rb) bytes_written =
     (if bytes_written > readbuffer__get_write_cursor_limit (Some rb)
      then (READBUFFER_FAILURE READBUFFER_ERROR_OUT_OF_RANGE ''write exceeds assured space'',
            Some rb)
      else (READBUFFER_SUCCESS, Some (rb\<lparr>rb_length := rb_length rb + bytes_written\<rparr>)))"

fun readbuffer__consume ::
    "ReadBuffer option \<Rightarrow> size_t \<Rightarrow> ReadBufferResult \<times> ReadBuffer option" where
  "readbuffer__consume None bytes_consumed =
     (READBUFFER_FAILURE READBUFFER_ERROR_INVALID_ARGUMENT ''read buffer is NULL'', None)"
| "readbuffer__consume (Some rb) bytes_consumed =
     (if bytes_consumed > rb_length rb
      then (READBUFFER_FAILURE READBUFFER_ERROR_OUT_OF_RANGE
              ''consume exceeds readable bytes'', Some rb)
      else
        (let rb1 = rb\<lparr>rb_offset := rb_offset rb + bytes_consumed,
                      rb_length := rb_length rb - bytes_consumed\<rparr>
         in (READBUFFER_SUCCESS,
             Some (if rb_length rb1 = 0 then rb1\<lparr>rb_offset := 0\<rparr> else rb1))))"

fun readbuffer__capacity :: "ReadBuffer option \<Rightarrow> size_t" where
  "readbuffer__capacity None = 0"
| "readbuffer__capacity (Some rb) = rb_capacity rb"

text \<open>
  A write through the write cursor, by \<open>read(2)\<close> or by the caller: it reaches memory only
  inside the block.
\<close>

fun rb_write_through :: "ReadBuffer option \<Rightarrow> nat option \<Rightarrow> byte list \<Rightarrow> ReadBuffer option option"
  where
  "rb_write_through (Some rb) (Some p) bs =
     do {
       d \<leftarrow> mem_store (rb_block rb) p bs;
       Some (Some (rb\<lparr>rb_data := Some d\<rparr>))
     }"
| "rb_write_through b p bs = (if bs = [] then Some b else None)"

section \<open>Invariant and abstract value\<close>

definition rb_inv :: "ReadBuffer \<Rightarrow> bool" where
  "rb_inv rb \<longleftrightarrow>
     length (rb_block rb) = unat (rb_capacity rb) \<and>
     (rb_data rb = None \<longleftrightarrow> rb_capacity rb = 0) \<and>
     unat (rb_offset rb) + unat (rb_length rb) \<le> unat (rb_capacity rb)"

definition rb_content :: "ReadBuffer \<Rightarrow> byte list" where
  "rb_content rb = take (unat (rb_length rb)) (drop (unat (rb_offset rb)) (rb_block rb))"

fun rb_ptr_inv :: "ReadBuffer option \<Rightarrow> bool" where
  "rb_ptr_inv None = False"
| "rb_ptr_inv (Some rb) = rb_inv rb"

fun rb_view :: "ReadBuffer option \<Rightarrow> byte list" where
  "rb_view None = []"
| "rb_view (Some rb) = rb_content rb"

definition rb_room :: "ReadBuffer option \<Rightarrow> nat" where
  "rb_room b = unat (readbuffer__get_write_cursor_limit b)"

definition rb_store :: "ReadBuffer option \<Rightarrow> byte list \<Rightarrow> ReadBuffer option option" where
  "rb_store b bs = rb_write_through b (readbuffer__get_write_cursor b) bs"

text \<open>The heap objects a buffer owns: the struct and, once allocated, its block.\<close>

fun rb_owned :: "ReadBuffer option \<Rightarrow> int" where
  "rb_owned None = 0"
| "rb_owned (Some rb) = (if rb_data rb = None then 1 else 2)"

text \<open>
  A session with one buffer, in any order the API allows: created, reserved, written through
  the cursor within the limit, committed, consumed.
\<close>

inductive rb_session :: "os \<Rightarrow> ReadBuffer option \<Rightarrow> os \<Rightarrow> bool" for s0 :: os where
  rb_create: "readbuffer__init c s0 = (Some rb, s) \<Longrightarrow> rb_session s0 (Some rb) s"
| rb_reserve: "rb_session s0 b s \<Longrightarrow> readbuffer__assure b n s = Some (r, b', s') \<Longrightarrow>
    rb_session s0 b' s'"
| rb_write: "rb_session s0 b s \<Longrightarrow> length bs \<le> unat (readbuffer__get_write_cursor_limit b) \<Longrightarrow>
    rb_store b bs = Some b' \<Longrightarrow> rb_session s0 b' s"
| rb_commit: "rb_session s0 b s \<Longrightarrow> readbuffer__commit_write b n = (r, b') \<Longrightarrow> rb_session s0 b' s"
| rb_consume: "rb_session s0 b s \<Longrightarrow> readbuffer__consume b n = (r, b') \<Longrightarrow> rb_session s0 b' s"

section \<open>The power-of-two loop\<close>

lemma unat_pow2: "k < 64 \<Longrightarrow> unat ((2 :: size_t) ^ k) = 2 ^ k"
proof -
  assume "k < 64"
  then have "(2::nat) ^ k < 2 ^ 64" by (intro power_strict_increasing) auto
  then have "unat (of_nat (2 ^ k) :: size_t) = 2 ^ k" by (intro unat_of_nat_size) simp
  then show ?thesis by simp
qed

lemma half_SIZE_MAX: "unat (SIZE_MAX div 2) = 2 ^ 63 - 1"
  by (simp add: SIZE_MAX_def unat_div)

lemma unat_SIZE_MAX: "unat SIZE_MAX = 18446744073709551615"
  by (simp add: SIZE_MAX_def unsigned_minus_1_eq_mask mask_eq_exp_minus_1)

lemma unat_SIZE_MAX_minus: "unat (SIZE_MAX - x) = 18446744073709551615 - unat x"
  using unat_less_size [of x] by (simp add: unat_sub_fits unat_SIZE_MAX)

lemma pow2_loop_stop: "\<not> c < v \<Longrightarrow> pow2_loop v c = Some (Some c)"
  by (simp add: pow2_loop.simps)

lemma pow2_loop_fail: "c < v \<Longrightarrow> SIZE_MAX div 2 < c \<Longrightarrow> pow2_loop v c = Some None"
  by (simp add: pow2_loop.simps)

lemma pow2_loop_next:
  "c < v \<Longrightarrow> \<not> SIZE_MAX div 2 < c \<Longrightarrow> pow2_loop v c = pow2_loop v (c * 2)"
  by (subst pow2_loop.simps) simp

lemma pow2_not_over_half: "k \<le> 62 \<Longrightarrow> \<not> SIZE_MAX div 2 < (2 :: size_t) ^ k"
proof -
  assume "k \<le> 62"
  then have "(2::nat) ^ k \<le> 2 ^ 62"
    by (intro power_increasing) auto
  with \<open>k \<le> 62\<close> show ?thesis
    by (simp add: word_less_nat_alt half_SIZE_MAX unat_pow2)
qed

lemma pow2_63_over_half: "SIZE_MAX div 2 < (2 :: size_t) ^ 63"
  by (simp add: word_less_nat_alt half_SIZE_MAX unat_pow2)

lemma pow2_loop_finds:
  assumes "k \<le> j" and "j \<le> 63" and "unat v \<le> 2 ^ j" and "k < j \<longrightarrow> 2 ^ (j - 1) < unat v"
  shows "pow2_loop v (2 ^ k) = Some (Some (2 ^ j))"
  using assms(1)
proof (induction rule: inc_induct)
  case base
  have "\<not> (2 :: size_t) ^ j < v"
    using assms(2,3) by (simp add: word_less_nat_alt unat_pow2)
  then show ?case by (rule pow2_loop_stop)
next
  case (step n)
  have "(2::nat) ^ n \<le> 2 ^ (j - 1)"
    using step.hyps by (intro power_increasing) auto
  also have "\<dots> < unat v"
    using step.hyps assms(4) by linarith
  finally have "(2 :: size_t) ^ n < v"
    using step.hyps assms(2) by (simp add: word_less_nat_alt unat_pow2)
  moreover have "\<not> SIZE_MAX div 2 < (2 :: size_t) ^ n"
    using step.hyps assms(2) by (intro pow2_not_over_half) linarith
  ultimately show ?case
    using step.IH by (simp add: pow2_loop_next mult.commute)
qed

lemma pow2_loop_overflows:
  assumes "2 ^ 63 < unat v" and "k \<le> 63"
  shows "pow2_loop v (2 ^ k) = Some None"
  using assms(2)
proof (induction rule: inc_induct)
  case base
  have "(2 :: size_t) ^ 63 < v"
    using assms(1) by (simp add: word_less_nat_alt unat_pow2)
  then show ?case using pow2_63_over_half by (rule pow2_loop_fail)
next
  case (step n)
  have "(2::nat) ^ n \<le> 2 ^ 63"
    using step.hyps by (intro power_increasing) auto
  then have "(2 :: size_t) ^ n < v"
    using step.hyps assms(1) by (simp add: word_less_nat_alt unat_pow2)
  moreover have "\<not> SIZE_MAX div 2 < (2 :: size_t) ^ n"
    using step.hyps by (intro pow2_not_over_half) linarith
  ultimately show ?case
    using step.IH by (simp add: pow2_loop_next mult.commute)
qed

lemma next_power_of_two_fits:
  assumes "v \<noteq> 0" and "unat v \<le> 2 ^ 63"
  shows "\<exists>j \<le> 63. next_power_of_two v = Some (Some (2 ^ j)) \<and> j = (LEAST n. unat v \<le> 2 ^ n)"
proof -
  define j where "j = (LEAST n. unat v \<le> 2 ^ n)"
  have "unat v \<le> 2 ^ j"
    unfolding j_def using assms(2) by (rule LeastI)
  moreover have "j \<le> 63"
    unfolding j_def using assms(2) by (rule Least_le)
  moreover have "0 < j \<longrightarrow> 2 ^ (j - 1) < unat v"
    using not_less_Least [of "j - 1" "\<lambda>n. unat v \<le> 2 ^ n"] by (auto simp: j_def not_le)
  ultimately have "pow2_loop v (2 ^ 0) = Some (Some (2 ^ j))"
    by (intro pow2_loop_finds) auto
  with \<open>j \<le> 63\<close> assms(1) show ?thesis
    unfolding j_def by (auto simp: next_power_of_two_def)
qed

lemma next_power_of_two_too_big:
  assumes "2 ^ 63 < unat v"
  shows "next_power_of_two v = Some None"
proof -
  have "pow2_loop v (2 ^ 0) = Some None"
    using assms by (intro pow2_loop_overflows) auto
  with assms show ?thesis by (auto simp: next_power_of_two_def)
qed

text \<open>
  C34. \<open>next_power_of_two\<close> always returns: 0 for 0, the least power of two that is at least
  the value when there is one below \<open>SIZE_MAX\<close>, and failure otherwise.
\<close>

theorem next_power_of_two_correct:
  "next_power_of_two v =
     Some (if v = 0 then Some 0
           else if unat v \<le> 2 ^ 63 then Some (2 ^ (LEAST n. unat v \<le> 2 ^ n))
           else None)"
  using next_power_of_two_fits [of v] next_power_of_two_too_big [of v]
  by (cases "v = 0") (auto simp: next_power_of_two_def not_le)

lemma pow2_least_ge:
  assumes "unat (v :: size_t) \<le> 2 ^ 63" and "j = (LEAST n. unat v \<le> 2 ^ n)"
  shows "unat v \<le> 2 ^ j"
  unfolding assms(2) using assms(1) by (rule LeastI)

section \<open>Every operation keeps the invariant\<close>

lemma rb_content_length: "rb_inv rb \<Longrightarrow> length (rb_content rb) = unat (rb_length rb)"
  by (auto simp: rb_inv_def rb_content_def)

lemma rb_room_Some:
  "rb_inv rb \<Longrightarrow>
     rb_room (Some rb) = unat (rb_capacity rb) - (unat (rb_offset rb) + unat (rb_length rb))"
  by (simp add: rb_room_def rb_inv_def size_simps)

lemma rb_available:
  "rb_inv rb \<Longrightarrow> unat (rb_capacity rb - rb_length rb) = unat (rb_capacity rb) - unat (rb_length rb)"
  by (simp add: rb_inv_def size_simps)

lemma rb_block_update [simp]:
  "rb_block (rb\<lparr>rb_data := Some d\<rparr>) = d"
  "rb_block (rb\<lparr>rb_length := l\<rparr>) = rb_block rb"
  "rb_block (rb\<lparr>rb_offset := p\<rparr>) = rb_block rb"
  "rb_block (rb\<lparr>rb_capacity := c\<rparr>) = rb_block rb"
  by (simp_all add: rb_block_def)

lemma rb_content_front:
  "rb_data rb = Some (c @ t) \<Longrightarrow> rb_offset rb = 0 \<Longrightarrow> unat (rb_length rb) = length c \<Longrightarrow>
     rb_content rb = c"
  by (simp add: rb_content_def rb_block_def)

text \<open>The compacting branch of \<open>readbuffer__assure\<close>.\<close>

lemma assure_compact:
  assumes inv: "rb_inv rb"
    and trail: "\<not> n \<le> rb_capacity rb - (rb_offset rb + rb_length rb)"
    and avail: "n \<le> rb_capacity rb - rb_length rb"
  shows "\<exists>rb'. readbuffer__assure (Some rb) n s = Some (READBUFFER_SUCCESS, Some rb', s) \<and>
    rb_inv rb' \<and> rb_content rb' = rb_content rb \<and> unat n \<le> rb_room (Some rb') \<and>
    rb_owned (Some rb') = rb_owned (Some rb) \<and> rb_length rb' = rb_length rb \<and> rb_offset rb' = 0"
proof -
  define d where
    "d = rb_content rb @ drop (unat (rb_length rb)) (rb_block rb)"
  have move: "mem_move (rb_block rb) 0 (unat (rb_offset rb)) (unat (rb_length rb)) = Some d"
    using inv by (simp add: rb_inv_def mem_simps d_def rb_content_def)
  have len: "length (rb_content rb) = unat (rb_length rb)"
    using inv by (rule rb_content_length)
  have "rb_capacity rb \<noteq> 0"
    using trail avail inv by (auto simp: rb_inv_def unat_eq_zero)
  then obtain d0 where data: "rb_data rb = Some d0"
    using inv by (auto simp: rb_inv_def)
  define rb' where "rb' = rb\<lparr>rb_data := Some d, rb_offset := 0\<rparr>"
  have "length d = unat (rb_capacity rb)"
    using inv len by (simp add: d_def rb_inv_def)
  then have inv': "rb_inv rb'"
    using inv data by (auto simp: rb'_def rb_inv_def rb_block_def)
  moreover have "rb_content rb' = rb_content rb"
    using len by (intro rb_content_front) (auto simp: rb'_def d_def)
  moreover have "unat n \<le> rb_room (Some rb')"
    using avail rb_room_Some [OF inv'] rb_available [OF inv]
    by (simp add: rb'_def word_le_nat_alt)
  moreover have "rb_owned (Some rb') = rb_owned (Some rb)" "rb_length rb' = rb_length rb"
    "rb_offset rb' = 0"
    by (simp_all add: rb'_def data)
  moreover have "readbuffer__assure (Some rb) n s = Some (READBUFFER_SUCCESS, Some rb', s)"
    using trail avail by (simp add: Let_def move rb'_def data)
  ultimately show ?thesis by blast
qed

text \<open>The growing branch.\<close>

lemma assure_grow:
  assumes inv: "rb_inv rb"
    and avail: "\<not> n \<le> rb_capacity rb - rb_length rb"
    and trail: "\<not> n \<le> rb_capacity rb - (rb_offset rb + rb_length rb)"
    and fits: "unat (rb_length rb) + unat n \<le> 2 ^ 63"
    and mem: "malloc (2 ^ j) s = (Some new, s1)"
    and j: "j = (LEAST i. unat (rb_length rb) + unat n \<le> 2 ^ i)"
  shows "\<exists>rb'. readbuffer__assure (Some rb) n s =
      Some (READBUFFER_SUCCESS, Some rb', c_free (rb_data rb) s1) \<and>
    rb_inv rb' \<and> rb_content rb' = rb_content rb \<and> unat n \<le> rb_room (Some rb') \<and>
    rb_capacity rb' = 2 ^ j \<and> rb_owned (Some rb') = 2 \<and> rb_length rb' = rb_length rb \<and>
    rb_offset rb' = 0"
proof -
  let ?need = "rb_length rb + n"
  have need: "unat ?need = unat (rb_length rb) + unat n"
    using fits by (simp add: size_simps)
  have "n \<noteq> 0" using avail by auto
  then have pos: "?need \<noteq> 0"
    using need by (metis add_is_0 unat_eq_zero)
  obtain j63: "j \<le> 63" and np: "next_power_of_two ?need = Some (Some (2 ^ j))"
    using next_power_of_two_fits [OF pos] need fits j by auto
  have enough: "unat (rb_length rb) + unat n \<le> 2 ^ j"
    using pow2_least_ge [of ?need j] need fits j by simp
  have newlen: "length new = 2 ^ j"
    using malloc_Some [OF mem] j63 by (simp add: unat_pow2)
  have clen: "length (rb_content rb) = unat (rb_length rb)"
    using inv by (rule rb_content_length)
  define d where "d = rb_content rb @ drop (unat (rb_length rb)) new"
  define rb' where "rb' = rb\<lparr>rb_data := Some d, rb_capacity := 2 ^ j, rb_offset := 0\<rparr>"
  have load: "mem_load (rb_block rb) (unat (rb_offset rb)) (unat (rb_length rb)) = Some (rb_content rb)"
    using inv by (simp add: rb_inv_def mem_simps rb_content_def)
  have store: "mem_store new 0 (rb_content rb) = Some d"
    using enough newlen clen by (simp add: mem_simps d_def)
  have empty: "d = new" if "rb_length rb = 0"
    using that clen by (simp add: d_def)
  have "\<not> SIZE_MAX - rb_length rb < n"
    using fits by (simp add: word_less_nat_alt unat_SIZE_MAX_minus)
  then have "readbuffer__assure (Some rb) n s =
      Some (READBUFFER_SUCCESS, Some rb', c_free (rb_data rb) s1)"
    using avail trail by (simp add: Let_def np mem load store empty rb'_def)
  moreover have inv': "rb_inv rb'"
    using enough newlen clen j63
    by (auto simp: rb'_def rb_inv_def d_def rb_block_def unat_pow2)
  moreover have "rb_content rb' = rb_content rb"
    using clen by (intro rb_content_front) (auto simp: rb'_def d_def)
  moreover have "unat n \<le> rb_room (Some rb')"
    using enough j63 rb_room_Some [OF inv'] by (simp add: rb'_def unat_pow2)
  moreover have "rb_capacity rb' = 2 ^ j \<and> rb_owned (Some rb') = 2 \<and>
      rb_length rb' = rb_length rb \<and> rb_offset rb' = 0"
    by (simp add: rb'_def)
  ultimately show ?thesis by blast
qed

text \<open>The failing branches: the request overflows, or memory runs out.\<close>

lemma assure_overflow:
  assumes "\<not> n \<le> rb_capacity rb - rb_length rb"
    and "\<not> n \<le> rb_capacity rb - (rb_offset rb + rb_length rb)"
    and "2 ^ 63 < unat (rb_length rb) + unat n"
  shows "readbuffer__assure (Some rb) n s =
    Some (READBUFFER_FAILURE READBUFFER_ERROR_OVERFLOW ''requested capacity overflows'',
          Some rb, s)"
proof (cases "SIZE_MAX - rb_length rb < n")
  case True
  with assms(1,2) show ?thesis by (simp add: Let_def)
next
  case False
  have "unat (rb_length rb) \<le> unat SIZE_MAX"
    using unat_less_size [of "rb_length rb"] by (simp add: unat_SIZE_MAX)
  with False have "unat (rb_length rb) + unat n \<le> unat SIZE_MAX"
    by (simp add: word_less_nat_alt unat_SIZE_MAX_minus unat_SIZE_MAX not_less)
  then have "unat (rb_length rb + n) = unat (rb_length rb) + unat n"
    by (simp add: unat_SIZE_MAX size_simps)
  then have "next_power_of_two (rb_length rb + n) = Some None"
    using assms(3) by (intro next_power_of_two_too_big) simp
  with False assms(1,2) show ?thesis by (simp add: Let_def)
qed

lemma assure_no_memory:
  assumes avail: "\<not> n \<le> rb_capacity rb - rb_length rb"
    and trail: "\<not> n \<le> rb_capacity rb - (rb_offset rb + rb_length rb)"
    and fits: "unat (rb_length rb) + unat n \<le> 2 ^ 63"
    and mem: "malloc (2 ^ j) s = (None, s1)"
    and j: "j = (LEAST i. unat (rb_length rb) + unat n \<le> 2 ^ i)"
  shows "readbuffer__assure (Some rb) n s =
    Some (READBUFFER_FAILURE READBUFFER_ERROR_ALLOCATION_FAILED ''allocation failed'', Some rb, s1)"
proof -
  let ?need = "rb_length rb + n"
  have need: "unat ?need = unat (rb_length rb) + unat n"
    using fits by (simp add: size_simps)
  have "n \<noteq> 0" using avail by auto
  then have pos: "?need \<noteq> 0"
    using need by (metis add_is_0 unat_eq_zero)
  have np: "next_power_of_two ?need = Some (Some (2 ^ j))"
    using next_power_of_two_fits [OF pos] need fits j by auto
  have "\<not> SIZE_MAX - rb_length rb < n"
    using fits by (simp add: word_less_nat_alt unat_SIZE_MAX_minus)
  then show ?thesis
    using avail trail by (simp add: Let_def np mem)
qed

lemma assure_room:
  "n \<le> rb_capacity rb - (rb_offset rb + rb_length rb) \<Longrightarrow>
     readbuffer__assure (Some rb) n s = Some (READBUFFER_SUCCESS, Some rb, s)"
  by (simp add: Let_def)

declare readbuffer__assure.simps(2) [simp del]

text \<open>All branches together: which one is taken, and what it does.\<close>

definition assure_post ::
    "size_t \<Rightarrow> ReadBuffer \<Rightarrow> os \<Rightarrow> (ReadBufferResult \<times> ReadBuffer option \<times> os) option \<Rightarrow> bool" where
  "assure_post n rb s m \<longleftrightarrow>
     (\<exists>r rb' s'. m = Some (r, Some rb', s') \<and>
        rb_inv rb' \<and> rb_content rb' = rb_content rb \<and>
        live s' - rb_owned (Some rb') = live s - rb_owned (Some rb) \<and>
        (ok r \<longrightarrow> unat n \<le> rb_room (Some rb')) \<and>
        (\<not> ok r \<longrightarrow> rb' = rb) \<and>
        rb_length rb' = rb_length rb \<and> unat (rb_offset rb') \<le> unat (rb_offset rb) \<and>
        (mallocs_ok s \<longrightarrow> mallocs_ok s' \<and> (unat (rb_length rb) + unat n \<le> 2 ^ 63 \<longrightarrow> ok r)) \<and>
        pending s' = pending s \<and> reads s' = reads s \<and> sink s' = sink s \<and> writes s' = writes s)"

lemma assure_compact_post:
  assumes "rb_inv rb" and "\<not> n \<le> rb_capacity rb - (rb_offset rb + rb_length rb)"
    and "n \<le> rb_capacity rb - rb_length rb"
  shows "assure_post n rb s (readbuffer__assure (Some rb) n s)"
proof -
  from assure_compact [OF assms, of s] obtain rb' where c:
    "readbuffer__assure (Some rb) n s = Some (READBUFFER_SUCCESS, Some rb', s)"
    "rb_inv rb'" "rb_content rb' = rb_content rb" "unat n \<le> rb_room (Some rb')"
    "rb_owned (Some rb') = rb_owned (Some rb)" "rb_length rb' = rb_length rb" "rb_offset rb' = 0"
    by blast
  show ?thesis
    unfolding assure_post_def c(1) using c(2-)
    by (simp add: READBUFFER_SUCCESS_def del: rb_owned.simps)
qed

lemma assure_grow_post:
  assumes inv: "rb_inv rb" and big: "\<not> n \<le> rb_capacity rb - rb_length rb"
    "\<not> n \<le> rb_capacity rb - (rb_offset rb + rb_length rb)" "unat (rb_length rb) + unat n \<le> 2 ^ 63"
  shows "assure_post n rb s (readbuffer__assure (Some rb) n s)"
proof -
  define j where "j = (LEAST i. unat (rb_length rb) + unat n \<le> 2 ^ i)"
  obtain m s1 where mem: "malloc (2 ^ j) s = (m, s1)" by fastforce
  show ?thesis
  proof (cases m)
    case None
    with mem have none: "malloc (2 ^ j) s = (None, s1)" by simp
    show ?thesis
      unfolding assure_post_def assure_no_memory [OF big none j_def]
      using inv malloc_frame [OF mem] malloc_None [OF none] malloc_ok [OF _ none]
      by (auto simp: READBUFFER_FAILURE_def)
  next
    case (Some new)
    with mem have some: "malloc (2 ^ j) s = (Some new, s1)" by simp
    from assure_grow [OF inv big some j_def] obtain rb' where g:
      "readbuffer__assure (Some rb) n s =
         Some (READBUFFER_SUCCESS, Some rb', c_free (rb_data rb) s1)"
      "rb_inv rb'" "rb_content rb' = rb_content rb" "unat n \<le> rb_room (Some rb')"
      "rb_owned (Some rb') = 2" "rb_length rb' = rb_length rb" "rb_offset rb' = 0"
      by blast
    show ?thesis
      unfolding assure_post_def g(1)
      using g(2-) malloc_frame [OF mem] malloc_Some [OF some] malloc_ok [OF _ some]
      by (simp add: READBUFFER_SUCCESS_def)
  qed
qed

lemma assure_outcome:
  assumes inv: "rb_inv rb"
  shows "\<exists>r rb' s'. readbuffer__assure (Some rb) n s = Some (r, Some rb', s') \<and>
    rb_inv rb' \<and> rb_content rb' = rb_content rb \<and>
    live s' - rb_owned (Some rb') = live s - rb_owned (Some rb) \<and>
    (ok r \<longrightarrow> unat n \<le> rb_room (Some rb')) \<and>
    (\<not> ok r \<longrightarrow> rb' = rb) \<and>
    rb_length rb' = rb_length rb \<and> unat (rb_offset rb') \<le> unat (rb_offset rb) \<and>
    (mallocs_ok s \<longrightarrow> mallocs_ok s' \<and> (unat (rb_length rb) + unat n \<le> 2 ^ 63 \<longrightarrow> ok r)) \<and>
    pending s' = pending s \<and> reads s' = reads s \<and> sink s' = sink s \<and> writes s' = writes s"
proof -
  consider
    (room) "n \<le> rb_capacity rb - (rb_offset rb + rb_length rb)"
  | (compact) "\<not> n \<le> rb_capacity rb - (rb_offset rb + rb_length rb)"
      "n \<le> rb_capacity rb - rb_length rb"
  | (overflow) "\<not> n \<le> rb_capacity rb - (rb_offset rb + rb_length rb)"
      "\<not> n \<le> rb_capacity rb - rb_length rb" "2 ^ 63 < unat (rb_length rb) + unat n"
  | (grow) "\<not> n \<le> rb_capacity rb - (rb_offset rb + rb_length rb)"
      "\<not> n \<le> rb_capacity rb - rb_length rb" "unat (rb_length rb) + unat n \<le> 2 ^ 63"
    by linarith
  then have "assure_post n rb s (readbuffer__assure (Some rb) n s)"
  proof cases
    case room
    show ?thesis
      unfolding assure_room [OF room] assure_post_def using inv room
      by (simp add: READBUFFER_SUCCESS_def rb_room_def word_le_nat_alt)
  next
    case compact
    then show ?thesis by (rule assure_compact_post [OF inv])
  next
    case overflow
    then show ?thesis
      using inv assure_overflow [OF overflow(2,1,3), of s]
      by (simp add: assure_post_def READBUFFER_FAILURE_def)
  next
    case grow
    then show ?thesis by (intro assure_grow_post [OF inv])
  qed
  then show ?thesis unfolding assure_post_def .
qed

lemma store_outcome:
  assumes inv: "rb_inv rb" and room: "length bs \<le> rb_room (Some rb)"
  shows "\<exists>rb'. rb_store (Some rb) bs = Some (Some rb') \<and> rb_inv rb' \<and>
    rb_content rb' = rb_content rb \<and> rb_room (Some rb') = rb_room (Some rb) \<and>
    rb_length rb' = rb_length rb \<and> rb_owned (Some rb') = rb_owned (Some rb) \<and>
    take (length bs) (drop (unat (rb_offset rb) + unat (rb_length rb)) (rb_block rb')) = bs \<and>
    rb_offset rb' = rb_offset rb \<and> rb_capacity rb' = rb_capacity rb"
proof (cases "rb_data rb")
  case None
  with inv room have "bs = []"
    by (auto simp: rb_inv_def rb_room_def unat_eq_zero)
  with None inv show ?thesis by (simp add: rb_store_def)
next
  case (Some d)
  let ?w = "unat (rb_offset rb) + unat (rb_length rb)"
  define d' where "d' = take ?w d @ bs @ drop (?w + length bs) d"
  define rb' where "rb' = rb\<lparr>rb_data := Some d'\<rparr>"
  have block: "rb_block rb = d" using Some by (simp add: rb_block_def)
  with inv have len: "length d = unat (rb_capacity rb)" by (simp add: rb_inv_def)
  have fit: "?w + length bs \<le> length d"
    using inv room rb_room_Some [OF inv] len by (auto simp: rb_inv_def)
  then have "rb_store (Some rb) bs = Some (Some rb')"
    using Some by (simp add: rb_store_def block mem_simps d'_def rb'_def)
  moreover have "rb_inv rb'"
    using inv fit len Some by (simp add: rb'_def rb_inv_def d'_def)
  moreover have "rb_content rb' = rb_content rb"
    using fit unfolding rb'_def rb_content_def by (simp add: block d'_def drop_take)
  moreover have "take (length bs) (drop ?w d') = bs"
    using fit by (simp add: d'_def)
  ultimately show ?thesis
    using Some by (simp add: rb'_def rb_room_def)
qed

lemma commit_outcome:
  assumes inv: "rb_inv rb"
  shows "\<exists>r rb'. readbuffer__commit_write (Some rb) n = (r, Some rb') \<and> rb_inv rb' \<and>
    (ok r \<longleftrightarrow> unat n \<le> rb_room (Some rb)) \<and> (\<not> ok r \<longrightarrow> rb' = rb) \<and>
    rb_owned (Some rb') = rb_owned (Some rb) \<and>
    rb_offset rb' = rb_offset rb \<and> rb_capacity rb' = rb_capacity rb \<and>
    (ok r \<longrightarrow> rb_content rb' = rb_content rb @
        take (unat n) (drop (unat (rb_offset rb) + unat (rb_length rb)) (rb_block rb)))"
proof (cases "unat n \<le> rb_room (Some rb)")
  case True
  then have fit: "unat (rb_offset rb) + unat (rb_length rb) + unat n \<le> unat (rb_capacity rb)"
    using inv rb_room_Some [OF inv] by (auto simp: rb_inv_def)
  then have sum: "unat (rb_length rb + n) = unat (rb_length rb) + unat n"
    using unat_less_size [of "rb_capacity rb"] by (simp add: size_simps)
  define rb' where "rb' = rb\<lparr>rb_length := rb_length rb + n\<rparr>"
  have inv': "rb_inv rb'"
    using inv fit by (simp add: rb'_def rb_inv_def sum)
  have app: "rb_content rb' = rb_content rb @
      take (unat n) (drop (unat (rb_offset rb) + unat (rb_length rb)) (rb_block rb))"
    unfolding rb'_def rb_content_def by (simp add: sum take_add)
      (simp add: add.commute)
  have "\<not> readbuffer__get_write_cursor_limit (Some rb) < n"
    using True by (simp add: rb_room_def word_less_nat_alt)
  then show ?thesis
    using inv' app True
    by (simp add: READBUFFER_SUCCESS_def rb'_def del: readbuffer__get_write_cursor_limit.simps)
next
  case False
  then have "readbuffer__get_write_cursor_limit (Some rb) < n"
    by (simp add: rb_room_def word_less_nat_alt)
  with False inv show ?thesis
    by (simp add: READBUFFER_FAILURE_def del: readbuffer__get_write_cursor_limit.simps)
qed

lemma consume_outcome:
  assumes inv: "rb_inv rb"
  shows "\<exists>r rb'. readbuffer__consume (Some rb) n = (r, Some rb') \<and> rb_inv rb' \<and>
    (ok r \<longleftrightarrow> unat n \<le> length (rb_content rb)) \<and> (\<not> ok r \<longrightarrow> rb' = rb) \<and>
    rb_owned (Some rb') = rb_owned (Some rb) \<and> rb_block rb' = rb_block rb \<and>
    rb_capacity rb' = rb_capacity rb \<and>
    unat (rb_offset rb') + unat (rb_length rb') \<le> unat (rb_offset rb) + unat (rb_length rb) \<and>
    (ok r \<longrightarrow> rb_content rb' = drop (unat n) (rb_content rb))"
proof (cases "unat n \<le> unat (rb_length rb)")
  case True
  have len: "unat (rb_length rb - n) = unat (rb_length rb) - unat n"
    using True by (simp add: size_simps)
  have off: "unat (n + rb_offset rb) = unat (rb_offset rb) + unat n"
    using inv True unat_less_size [of "rb_capacity rb"] by (simp add: rb_inv_def size_simps)
  have cond: "\<not> rb_length rb < n"
    using True by (simp add: word_less_nat_alt)
  show ?thesis
  proof (cases "rb_length rb - n = 0")
    case zero: True
    then have "unat (rb_length rb) = unat n"
      using len True by simp
    with zero cond inv show ?thesis
      by (simp add: READBUFFER_SUCCESS_def Let_def rb_content_length)
        (auto simp: rb_inv_def rb_content_def)
  next
    case False
    then have "rb_length rb \<noteq> n" by simp
    with cond inv True show ?thesis
      by (simp add: READBUFFER_SUCCESS_def Let_def rb_content_length)
        (auto simp: rb_inv_def rb_content_def len off drop_take add.commute)
  qed
next
  case False
  then have "rb_length rb < n" by (simp add: word_less_nat_alt)
  with False inv show ?thesis
    by (simp add: READBUFFER_FAILURE_def rb_content_length)
qed

section \<open>What a read buffer promises its client\<close>

text \<open>
  The contract a client of the buffer relies on: reserve, write through the cursor, commit,
  view, consume. \<open>view\<close> is the abstract value, \<open>room\<close> what may be written without another
  reservation, \<open>owned\<close> the heap objects held.
\<close>

locale read_buffer =
  fixes inv :: "'b \<Rightarrow> bool"
    and view :: "'b \<Rightarrow> byte list"
    and room :: "'b \<Rightarrow> nat"
    and assure :: "'b \<Rightarrow> size_t \<Rightarrow> 'h \<Rightarrow> ('r \<times> 'b \<times> 'h) option"
    and store :: "'b \<Rightarrow> byte list \<Rightarrow> 'b option"
    and commit :: "'b \<Rightarrow> size_t \<Rightarrow> 'r \<times> 'b"
    and consume :: "'b \<Rightarrow> size_t \<Rightarrow> 'r \<times> 'b"
    and good :: "'r \<Rightarrow> bool"
  assumes assure_returns: "inv b \<Longrightarrow> \<exists>r b' h'. assure b n h = Some (r, b', h')"
    and assure_keeps: "inv b \<Longrightarrow> assure b n h = Some (r, b', h') \<Longrightarrow> inv b' \<and> view b' = view b"
    and assure_makes_room:
      "inv b \<Longrightarrow> assure b n h = Some (r, b', h') \<Longrightarrow> good r \<Longrightarrow> unat n \<le> room b'"
    and room_bound: "inv b \<Longrightarrow> room b < 2 ^ 64"
    and store_commit:
      "inv b \<Longrightarrow> length bs \<le> room b \<Longrightarrow>
         \<exists>b1 r b2. store b bs = Some b1 \<and> commit b1 (of_nat (length bs)) = (r, b2) \<and>
           good r \<and> inv b2 \<and> view b2 = view b @ bs"
    and consume_front:
      "inv b \<Longrightarrow> unat n \<le> length (view b) \<Longrightarrow>
         \<exists>r b'. consume b n = (r, b') \<and> good r \<and> inv b' \<and> view b' = drop (unat n) (view b)"
    and consume_refuses:
      "inv b \<Longrightarrow> length (view b) < unat n \<Longrightarrow> \<exists>r. consume b n = (r, b) \<and> \<not> good r"
begin

text \<open>A reservation followed by a write of at most that many bytes appends them.\<close>

lemma fill_appends:
  assumes "inv b" and "assure b n h = Some (r, b', h')" and "good r" and "length bs \<le> unat n"
  shows "\<exists>b1 r' b2. store b' bs = Some b1 \<and> commit b1 (of_nat (length bs)) = (r', b2) \<and>
    good r' \<and> inv b2 \<and> view b2 = view b @ bs"
proof -
  have "inv b'" and "view b' = view b"
    using assure_keeps [OF assms(1,2)] by simp_all
  moreover have "length bs \<le> room b'"
    using assure_makes_room [OF assms(1,2,3)] assms(4) by simp
  ultimately show ?thesis
    using store_commit [of b' bs] by simp
qed

text \<open>Appending and then consuming what was there before leaves the appended bytes.\<close>

lemma append_then_consume:
  assumes "inv b" and "length bs \<le> room b" and "length (view b) < 2 ^ 64"
  shows "\<exists>b1 r b2 r' b3. store b bs = Some b1 \<and> commit b1 (of_nat (length bs)) = (r, b2) \<and>
    consume b2 (of_nat (length (view b))) = (r', b3) \<and> good r \<and> good r' \<and> inv b3 \<and> view b3 = bs"
proof -
  obtain b1 r b2 where s: "store b bs = Some b1" "commit b1 (of_nat (length bs)) = (r, b2)"
    "good r" "inv b2" "view b2 = view b @ bs"
    using store_commit [OF assms(1,2)] by blast
  have n: "unat (of_nat (length (view b)) :: size_t) = length (view b)"
    using assms(3) by (intro unat_of_nat_size) simp
  then obtain r' b3 where "consume b2 (of_nat (length (view b))) = (r', b3)" "good r'" "inv b3"
    "view b3 = bs"
    using consume_front [OF s(4), of "of_nat (length (view b))"] s(5) by auto
  with s show ?thesis by blast
qed

text \<open>Consuming a prefix in two steps is consuming it in one.\<close>

lemma consume_twice:
  assumes "inv b" and "unat m + unat n \<le> length (view b)"
  shows "\<exists>r b1 r' b2. consume b m = (r, b1) \<and> consume b1 n = (r', b2) \<and> good r \<and> good r' \<and>
    view b2 = drop (unat m + unat n) (view b)"
proof -
  obtain r b1 where s: "consume b m = (r, b1)" "good r" "inv b1" "view b1 = drop (unat m) (view b)"
    using consume_front [OF assms(1), of m] assms(2) by auto
  have "unat n \<le> length (view b1)"
    using s(4) assms(2) by (simp add: le_diff_conv2)
  then obtain r' b2 where "consume b1 n = (r', b2)" "good r'" "view b2 = drop (unat n) (view b1)"
    using consume_front [OF s(3), of n] by blast
  with s show ?thesis by (auto simp: add.commute)
qed

end

lemma rb_ptr_inv_iff: "rb_ptr_inv b \<longleftrightarrow> (\<exists>rb. b = Some rb \<and> rb_inv rb)"
  by (cases b) auto

lemma store_commit_outcome:
  assumes "rb_inv rb" and "length bs \<le> rb_room (Some rb)"
  shows "\<exists>b1 r rb2. rb_store (Some rb) bs = Some b1 \<and>
    readbuffer__commit_write b1 (of_nat (length bs)) = (r, Some rb2) \<and> ok r \<and> rb_inv rb2 \<and>
    rb_content rb2 = rb_content rb @ bs \<and> rb_owned (Some rb2) = rb_owned (Some rb) \<and>
    rb_offset rb2 = rb_offset rb \<and> rb_capacity rb2 = rb_capacity rb"
proof -
  obtain rb1 where st: "rb_store (Some rb) bs = Some (Some rb1)" "rb_inv rb1"
    "rb_content rb1 = rb_content rb" "rb_room (Some rb1) = rb_room (Some rb)"
    "rb_length rb1 = rb_length rb" "rb_owned (Some rb1) = rb_owned (Some rb)"
    "take (length bs) (drop (unat (rb_offset rb) + unat (rb_length rb)) (rb_block rb1)) = bs"
    "rb_offset rb1 = rb_offset rb" "rb_capacity rb1 = rb_capacity rb"
    using store_outcome [OF assms] by blast
  have n: "unat (of_nat (length bs) :: size_t) = length bs"
    using assms(2) unat_less_size [of "readbuffer__get_write_cursor_limit (Some rb)"]
    by (intro unat_of_nat_size) (simp add: rb_room_def)
  obtain r rb2 where cm: "readbuffer__commit_write (Some rb1) (of_nat (length bs)) = (r, Some rb2)"
    "rb_inv rb2" "ok r \<longleftrightarrow> length bs \<le> rb_room (Some rb1)"
    "rb_owned (Some rb2) = rb_owned (Some rb1)"
    "rb_offset rb2 = rb_offset rb1" "rb_capacity rb2 = rb_capacity rb1"
    "ok r \<longrightarrow> rb_content rb2 = rb_content rb1 @ take (length bs)
       (drop (unat (rb_offset rb1) + unat (rb_length rb1)) (rb_block rb1))"
    using commit_outcome [OF st(2), of "of_nat (length bs)"] n by auto
  show ?thesis
    using st cm assms(2) by (metis (no_types))
qed

interpretation rb: read_buffer rb_ptr_inv rb_view rb_room readbuffer__assure rb_store
  readbuffer__commit_write readbuffer__consume ok
proof (unfold_locales, goal_cases)
  case (1 b n h)
  then show ?case using assure_outcome [of _ n h] by (fastforce simp: rb_ptr_inv_iff)
next
  case (2 b n h r b' h')
  then show ?case using assure_outcome [of _ n h] by (fastforce simp: rb_ptr_inv_iff)
next
  case (3 b n h r b' h')
  then show ?case using assure_outcome [of _ n h] by (fastforce simp: rb_ptr_inv_iff)
next
  case (4 b)
  then show ?case using unat_less_size by (simp add: rb_room_def)
next
  case (5 b bs)
  then obtain rb where "b = Some rb" "rb_inv rb" by (auto simp: rb_ptr_inv_iff)
  with 5 show ?case using store_commit_outcome [of rb bs] by fastforce
next
  case (6 b n)
  then obtain rb where "b = Some rb" "rb_inv rb" by (auto simp: rb_ptr_inv_iff)
  with 6 show ?case using consume_outcome [of rb n] by fastforce
next
  case (7 b n)
  then obtain rb where "b = Some rb" "rb_inv rb" by (auto simp: rb_ptr_inv_iff)
  with 7 show ?case using consume_outcome [of rb n] by fastforce
qed

section \<open>Creation, destruction and the heap\<close>

lemma init_outcome:
  assumes "readbuffer__init c s = (b, s')"
  shows "live s' = live s + rb_owned b \<and>
    (b = None \<or> (\<exists>rb. b = Some rb \<and> rb_inv rb \<and> rb_content rb = [] \<and> rb_capacity rb = c)) \<and>
    (mallocs_ok s \<longrightarrow> mallocs_ok s' \<and> b \<noteq> None) \<and>
    pending s' = pending s \<and> reads s' = reads s \<and> sink s' = sink s \<and> writes s' = writes s"
proof -
  obtain a s1 where a: "alloc_object s = (a, s1)" by fastforce
  obtain m s2 where m: "malloc c s1 = (m, s2)" by fastforce
  have len: "m = Some d \<Longrightarrow> length d = unat c" for d
    using malloc_Some [of c s1 d s2] m by simp
  show ?thesis
    using assms a m len alloc_object_frame [OF a] malloc_frame [OF m] malloc_None malloc_Some
      alloc_object_ok [OF _ a] malloc_ok [OF _ m]
    by (cases a; cases m; cases "c = 0")
      (auto simp: readbuffer__init_def rb_inv_def rb_block_def rb_content_def mallocs_ok_def
        c_free_def)
qed

lemma destroy_live: "live (readbuffer__destroy b s) = live s - rb_owned b"
  by (cases b) auto

lemma session_inv:
  "rb_session s0 b s \<Longrightarrow> rb_ptr_inv b \<and> live s - rb_owned b = live s0"
proof (induction rule: rb_session.induct)
  case (rb_create c rb s)
  then show ?case using init_outcome [OF rb_create] by auto
next
  case (rb_reserve b s n r b' s')
  then show ?case using assure_outcome [of _ n s] by (fastforce simp: rb_ptr_inv_iff)
next
  case (rb_write b s bs b')
  then show ?case using store_outcome [of _ bs] by (fastforce simp: rb_ptr_inv_iff rb_room_def)
next
  case (rb_commit b s n r b')
  then show ?case using commit_outcome [of _ n] by (fastforce simp: rb_ptr_inv_iff)
next
  case (rb_consume b s n r b')
  then show ?case using consume_outcome [of _ n] by (fastforce simp: rb_ptr_inv_iff)
qed

lemma assure_error_code:
  assumes inv: "rb_inv rb" and run: "readbuffer__assure (Some rb) n s = Some (r, b', s')"
  shows "r = (if unat (rb_length rb) + unat n \<le> unat (rb_capacity rb) then READBUFFER_SUCCESS
       else if 2 ^ 63 < unat (rb_length rb) + unat n then
         READBUFFER_FAILURE READBUFFER_ERROR_OVERFLOW ''requested capacity overflows''
       else if fst (malloc (2 ^ (LEAST i. unat (rb_length rb) + unat n \<le> 2 ^ i)) s) = None
       then READBUFFER_FAILURE READBUFFER_ERROR_ALLOCATION_FAILED ''allocation failed''
       else READBUFFER_SUCCESS)"
proof -
  define j where "j = (LEAST i. unat (rb_length rb) + unat n \<le> 2 ^ i)"
  obtain m s1 where mem: "malloc (2 ^ j) s = (m, s1)" by fastforce
  have fits: "n \<le> rb_capacity rb - rb_length rb \<longleftrightarrow>
      unat (rb_length rb) + unat n \<le> unat (rb_capacity rb)"
    using inv rb_available [OF inv] by (auto simp: word_le_nat_alt rb_inv_def)
  have trail: "n \<le> rb_capacity rb - (rb_offset rb + rb_length rb) \<Longrightarrow>
      unat (rb_length rb) + unat n \<le> unat (rb_capacity rb)"
    using inv by (auto simp: word_le_nat_alt rb_inv_def unat_trailing)
  consider
    (room) "n \<le> rb_capacity rb - (rb_offset rb + rb_length rb)"
  | (compact) "\<not> n \<le> rb_capacity rb - (rb_offset rb + rb_length rb)"
      "n \<le> rb_capacity rb - rb_length rb"
  | (overflow) "\<not> n \<le> rb_capacity rb - (rb_offset rb + rb_length rb)"
      "\<not> n \<le> rb_capacity rb - rb_length rb" "2 ^ 63 < unat (rb_length rb) + unat n"
  | (grow) "\<not> n \<le> rb_capacity rb - (rb_offset rb + rb_length rb)"
      "\<not> n \<le> rb_capacity rb - rb_length rb" "unat (rb_length rb) + unat n \<le> 2 ^ 63"
    by linarith
  then show ?thesis
  proof cases
    case room
    then show ?thesis using run trail assure_room [OF room, of s] by simp
  next
    case compact
    then show ?thesis using run fits assure_compact [OF inv compact, of s] by auto
  next
    case overflow
    then show ?thesis using run fits assure_overflow [OF overflow(2,1,3), of s] by simp
  next
    case grow
    show ?thesis
    proof (cases m)
      case None
      with mem grow run fits show ?thesis
        using assure_no_memory [OF grow(2,1,3) _ j_def, of s s1] by (simp add: j_def)
    next
      case (Some new)
      with mem grow run fits show ?thesis
        using assure_grow [OF inv grow(2,1,3) _ j_def, of s new s1] by (auto simp: j_def)
    qed
  qed
qed

section \<open>Properties\<close>

text \<open>
  C35. \<open>readbuffer__assure\<close> on a valid buffer always returns without touching memory outside
  its blocks, keeps the invariant and the unread bytes in their order, gives at least the
  requested contiguous space when it reports success, and changes nothing when it fails. The
  heap objects it allocates are those that the buffer owns afterwards and did not before: a
  block that is replaced is freed.
\<close>

theorem readbuffer_assure_correct:
  assumes "rb_inv rb"
  shows "\<exists>r rb' s'. readbuffer__assure (Some rb) n s = Some (r, Some rb', s') \<and>
    rb_inv rb' \<and> rb_content rb' = rb_content rb \<and>
    (ok r \<longrightarrow> unat n \<le> unat (readbuffer__get_write_cursor_limit (Some rb'))) \<and>
    (\<not> ok r \<longrightarrow> rb' = rb) \<and>
    live s' - rb_owned (Some rb') = live s - rb_owned (Some rb)"
  using assure_outcome [OF assms, of n s] unfolding rb_room_def by blast

definition example_rb :: ReadBuffer where
  "example_rb = \<lparr>rb_data = Some [1, 2, 3, 4], rb_capacity = 4, rb_length = 2, rb_offset = 1\<rparr>"

lemma example_rb_inv: "rb_inv example_rb"
  by (simp add: example_rb_def rb_inv_def rb_block_def)

theorem readbuffer_assure_correct_witness:
  "\<exists>r rb' s'. readbuffer__assure (Some example_rb) 2 example_os = Some (r, Some rb', s') \<and>
    rb_content rb' = [2, 3]"
  using readbuffer_assure_correct [OF example_rb_inv, of 2 example_os]
  by (auto simp: example_rb_def rb_content_def rb_block_def)

text \<open>
  The outcome of \<open>readbuffer__assure\<close> on every branch: success when the request fits the
  free space of the block, before or after compaction; overflow exactly when no power of two
  below \<open>SIZE_MAX\<close> holds the unread bytes and the request; otherwise the answer of \<open>malloc\<close>
  decides, asked for the least such power of two.
\<close>

theorem readbuffer_assure_errors:
  assumes "rb_inv rb" and "readbuffer__assure (Some rb) n s = Some (r, b', s')"
  shows "(ok r \<longleftrightarrow> error_code r = READBUFFER_ERROR_NONE) \<and>
    error_code r =
      (if unat (rb_length rb) + unat n \<le> unat (rb_capacity rb) then READBUFFER_ERROR_NONE
       else if 2 ^ 63 < unat (rb_length rb) + unat n then READBUFFER_ERROR_OVERFLOW
       else if fst (malloc (2 ^ (LEAST i. unat (rb_length rb) + unat n \<le> 2 ^ i)) s) = None
       then READBUFFER_ERROR_ALLOCATION_FAILED
       else READBUFFER_ERROR_NONE)"
  using assure_error_code [OF assms]
  by (simp add: READBUFFER_SUCCESS_def READBUFFER_FAILURE_def split: if_splits)

theorem readbuffer_assure_errors_witness:
  "readbuffer__assure (Some example_rb) 18446744073709551615 example_os =
     Some (READBUFFER_FAILURE READBUFFER_ERROR_OVERFLOW ''requested capacity overflows'',
           Some example_rb, example_os) \<and>
   error_code (READBUFFER_FAILURE READBUFFER_ERROR_OVERFLOW ''requested capacity overflows'') =
     READBUFFER_ERROR_OVERFLOW"
proof -
  have big: "2 ^ 63 < unat (rb_length example_rb) + unat (18446744073709551615 :: size_t)"
    by (simp add: example_rb_def)
  have run: "readbuffer__assure (Some example_rb) 18446744073709551615 example_os =
     Some (READBUFFER_FAILURE READBUFFER_ERROR_OVERFLOW ''requested capacity overflows'',
           Some example_rb, example_os)"
    using big by (intro assure_overflow) (simp_all add: example_rb_def word_le_nat_alt)
  show ?thesis
    using run readbuffer_assure_errors [OF example_rb_inv run] big
    by (simp add: example_rb_def)
qed

text \<open>
  C9. Reserve, write through the cursor, commit: on a valid buffer, when the reservation
  succeeds and at most the reserved number of bytes is written, all three succeed and exactly
  those bytes are appended to the unread bytes.
\<close>

theorem readbuffer_append_correct:
  assumes "rb_inv rb"
    and "readbuffer__assure (Some rb) n s = Some (r, b', s')" and "ok r"
    and "length bs \<le> unat n"
  shows "\<exists>b1 r' rb2.
    rb_write_through b' (readbuffer__get_write_cursor b') bs = Some b1 \<and>
    readbuffer__commit_write b1 (of_nat (length bs)) = (r', Some rb2) \<and> ok r' \<and>
    rb_inv rb2 \<and> rb_content rb2 = rb_content rb @ bs"
  using rb.fill_appends [of "Some rb" n s r b' s' bs] assms
  by (auto simp: rb_store_def rb_ptr_inv_iff)

theorem readbuffer_append_correct_witness:
  "\<exists>b1 r' rb2. rb_write_through (Some example_rb) (Some 3) [9] = Some b1 \<and>
    readbuffer__commit_write b1 1 = (r', Some rb2) \<and> ok r' \<and> rb_content rb2 = [2, 3, 9]"
proof -
  have run: "readbuffer__assure (Some example_rb) 1 example_os =
      Some (READBUFFER_SUCCESS, Some example_rb, example_os)"
    by (rule assure_room) (simp add: example_rb_def)
  have w: "readbuffer__get_write_cursor (Some example_rb) = Some 3"
    and c: "rb_content example_rb = [2, 3]"
    by (simp_all add: example_rb_def rb_content_def rb_block_def)
  show ?thesis
    using readbuffer_append_correct [OF example_rb_inv run, of "[9]"] w c
    by (auto simp: READBUFFER_SUCCESS_def)
qed

text \<open>
  \<open>readbuffer__commit_write\<close> and \<open>readbuffer__consume\<close> refuse a count beyond the space or
  beyond the unread bytes, leaving the buffer as it was; otherwise they widen the window by
  the bytes behind it, and drop exactly that many bytes from its front. Both keep the
  invariant.
\<close>

theorem readbuffer_commit_consume_correct:
  assumes "rb_inv rb"
  shows "(\<exists>r rb'. readbuffer__commit_write (Some rb) n = (r, Some rb') \<and> rb_inv rb' \<and>
      (if unat n \<le> unat (readbuffer__get_write_cursor_limit (Some rb))
       then ok r \<and> rb_content rb' = rb_content rb @
         take (unat n) (drop (unat (rb_offset rb) + unat (rb_length rb)) (rb_block rb))
       else error_code r = READBUFFER_ERROR_OUT_OF_RANGE \<and> rb' = rb)) \<and>
    (\<exists>r rb'. readbuffer__consume (Some rb) n = (r, Some rb') \<and> rb_inv rb' \<and>
      (if unat n \<le> unat (rb_length rb)
       then ok r \<and> rb_content rb' = drop (unat n) (rb_content rb)
       else error_code r = READBUFFER_ERROR_OUT_OF_RANGE \<and> rb' = rb))"
  using commit_outcome [OF assms, of n] consume_outcome [OF assms, of n] assms
  by (auto simp: rb_room_def rb_content_length word_less_nat_alt READBUFFER_FAILURE_def not_le
      simp del: readbuffer__get_write_cursor_limit.simps split: if_splits)

theorem readbuffer_commit_consume_correct_witness:
  "\<exists>r rb'. readbuffer__consume (Some example_rb) 1 = (r, Some rb') \<and> ok r \<and> rb_content rb' = [3]"
  using readbuffer_commit_consume_correct [OF example_rb_inv, of 1]
  by (auto simp: example_rb_def rb_content_def rb_block_def)

lemma read_view_readable:
  assumes "rb_inv rb"
  shows "case cursor (readbuffer__get_read_view (Some rb)) of
      None \<Rightarrow> size (readbuffer__get_read_view (Some rb)) = 0 \<and> rb_content rb = []
    | Some p \<Rightarrow>
        mem_load (rb_block rb) p (unat (size (readbuffer__get_read_view (Some rb)))) = Some (rb_content rb)"
proof (cases "rb_data rb")
  case None
  then have "rb_capacity rb = 0" using assms by (simp add: rb_inv_def)
  then have "unat (rb_length rb) = 0" using assms by (simp add: rb_inv_def)
  then have "rb_length rb = 0" by (simp add: unat_eq_zero)
  then show ?thesis using None by (simp add: rb_content_def)
next
  case (Some d)
  then show ?thesis using assms by (simp add: rb_inv_def rb_content_def mem_load_def)
qed

text \<open>
  C24. In every session with a buffer, whatever the kernel's allocator answers and in whatever
  order the operations come, the buffer stays valid and every next call is defined:
  \<open>readbuffer__assure\<close> returns for any request, a write of at most
  \<open>readbuffer__get_write_cursor_limit\<close> bytes through the cursor stays inside the block, and the
  read view is readable, its bytes being the unread ones (committing and consuming touch no
  memory). The buffer owns exactly the heap objects the session has allocated and not freed:
  destroying it gives back every one, with no leak and no double free.
\<close>

theorem readbuffer_session_safe:
  assumes "rb_session s0 b s"
  shows "\<exists>rb. b = Some rb \<and> rb_inv rb \<and>
    (\<forall>n. \<exists>r b' s'. readbuffer__assure b n s = Some (r, b', s')) \<and>
    (\<forall>bs. length bs \<le> unat (readbuffer__get_write_cursor_limit b) \<longrightarrow>
       (\<exists>rb'. rb_write_through b (readbuffer__get_write_cursor b) bs = Some (Some rb'))) \<and>
    (case cursor (readbuffer__get_read_view b) of
       None \<Rightarrow> size (readbuffer__get_read_view b) = 0 \<and> rb_content rb = []
     | Some p \<Rightarrow> mem_load (rb_block rb) p (unat (size (readbuffer__get_read_view b))) = Some (rb_content rb)) \<and>
    live (readbuffer__destroy b s) = live s0"
proof -
  obtain rb where rb: "b = Some rb" "rb_inv rb"
    using session_inv [OF assms] by (auto simp: rb_ptr_inv_iff)
  have "\<exists>r b' s'. readbuffer__assure b n s = Some (r, b', s')" for n
    using assure_outcome [OF rb(2), of n s] rb(1) by blast
  moreover have "\<exists>rb'. rb_write_through b (readbuffer__get_write_cursor b) bs = Some (Some rb')"
    if "length bs \<le> unat (readbuffer__get_write_cursor_limit b)" for bs
    using store_outcome [OF rb(2), of bs] that unfolding rb(1) rb_room_def rb_store_def by blast
  moreover have "live (readbuffer__destroy b s) = live s0"
    using session_inv [OF assms] destroy_live [of b s] by simp
  ultimately show ?thesis
    using rb(2) read_view_readable [OF rb(2)] unfolding rb(1) by blast
qed

theorem readbuffer_session_safe_witness:
  "(\<exists>r b' s'. readbuffer__assure (fst (readbuffer__init 4 example_os)) 9
      (snd (readbuffer__init 4 example_os)) = Some (r, b', s')) \<and>
   live (readbuffer__destroy (fst (readbuffer__init 4 example_os))
      (snd (readbuffer__init 4 example_os))) = 0"
proof -
  define rb where "rb = \<lparr>rb_data = Some [0, 0, 0, 0], rb_capacity = 4, rb_length = 0, rb_offset = 0\<rparr>"
  have run: "readbuffer__init 4 example_os = (Some rb, example_os\<lparr>live := 2\<rparr>)"
    by (simp add: readbuffer__init_def example_os_def alloc_object_def malloc_def rb_def upt_rec)
  note safe = readbuffer_session_safe [OF rb_create [OF run]]
  have "\<exists>r b' s'. readbuffer__assure (Some rb) 9 (example_os\<lparr>live := 2\<rparr>) = Some (r, b', s')"
    using safe by blast
  moreover have "live (readbuffer__destroy (Some rb) (example_os\<lparr>live := 2\<rparr>)) = live example_os"
    using safe by blast
  moreover have "live example_os = 0" by (simp add: example_os_def)
  ultimately show ?thesis unfolding run fst_conv snd_conv by (simp only: simp_thms)
qed

end
