(* ===== verification/LineStream.thy ===== *)
theory LineStream
  imports ReadBuffer
begin

text \<open>
  The line reader of \<open>commons/src/linestream/src/linestream.c\<close> and \<open>commons/include/linestream.h\<close>
  over a read buffer and \<open>read(2)\<close>. A \<open>LineStream *\<close> is an \<open>option\<close>, \<open>None\<close> being NULL; the
  tagged unions \<open>ResultString\<close> and \<open>ResultLineStream\<close> are datatypes. What a stream has still to
  deliver is its buffered bytes followed by the unread input (\<open>ls_content\<close>).
\<close>

section \<open>The model\<close>

datatype LSErrorCode =
    LS_ERR_NONE
  | LS_ERR_INIT_FAILED
  | LS_ERR_ALLOC_FAILED
  | LS_ERR_READ_FAILED
  | LS_ERR_EOF
  | LS_ERR_NULL_ARG

text \<open>
  What a \<open>const char *\<close> message points to: a literal, the string of \<open>strerror\<close>, or an array
  in the automatic storage of a function that has returned, which nobody may read.
\<close>

datatype message_ptr = Literal string | Strerror errno | DeadLocal string

record LSError =
  ls_message :: message_ptr
  ls_code :: LSErrorCode

record LSString =
  ls_cursor :: "nat option"
  ls_size :: size_t

record LineStream =
  ls_fd :: int
  read_buffer :: "ReadBuffer option"

datatype ResultString = StrErr LSError | StrOk LSString

datatype ResultLineStream = StreamErr LSError | StreamOk LineStream

definition READ_BUFFERING_SIZE :: size_t where
  "READ_BUFFERING_SIZE = 4 * (1024 * 1024)"

definition LINESTREAM_FAILURE :: "LSErrorCode \<Rightarrow> message_ptr \<Rightarrow> ResultLineStream" where
  "LINESTREAM_FAILURE c m = StreamErr \<lparr>ls_message = m, ls_code = c\<rparr>"

definition RESULTSTRING_FAILURE :: "LSErrorCode \<Rightarrow> message_ptr \<Rightarrow> ResultString" where
  "RESULTSTRING_FAILURE c m = StrErr \<lparr>ls_message = m, ls_code = c\<rparr>"

definition RESULTSTRING_OK :: "nat option \<Rightarrow> size_t \<Rightarrow> ResultString" where
  "RESULTSTRING_OK p n = StrOk \<lparr>ls_cursor = p, ls_size = n\<rparr>"

definition linestream__create :: "int \<Rightarrow> size_t \<Rightarrow> os \<Rightarrow> ResultLineStream \<times> os" where
  "linestream__create fd page_size s =
     (case alloc_object s of
        (False, s1) \<Rightarrow>
          (LINESTREAM_FAILURE LS_ERR_INIT_FAILED (Literal ''linestream__create: malloc failed''), s1)
      | (True, s1) \<Rightarrow>
          (case readbuffer__init page_size s1 of
             (None, s2) \<Rightarrow>
               (LINESTREAM_FAILURE LS_ERR_INIT_FAILED
                  (Literal ''linestream__create: readbuffer__init failed''),
                c_free (Some ()) s2)
           | (Some rb, s2) \<Rightarrow> (StreamOk \<lparr>ls_fd = fd, read_buffer = Some rb\<rparr>, s2)))"

text \<open>\<open>memchr\<close> through a pointer into the buffer's block.\<close>

fun rb_memchr :: "ReadBuffer option \<Rightarrow> nat option \<Rightarrow> nat \<Rightarrow> byte \<Rightarrow> nat \<Rightarrow> nat option option" where
  "rb_memchr (Some rb) (Some p) i c n = memchr (rb_block rb) (p + i) c n"
| "rb_memchr b p i c n = None"

text \<open>Step 1 of the loop of \<open>linestream__next\<close>: the length of the line that ends in the view.\<close>

definition ls_scan :: "LineStream \<Rightarrow> size_t \<Rightarrow> size_t option option" where
  "ls_scan ls scanned =
     (let rbview = readbuffer__get_read_view (read_buffer ls) in
      if size rbview > scanned then
        do {
          nl \<leftarrow> rb_memchr (read_buffer ls) (cursor rbview) (unat scanned) NL
                 (unat (size rbview - scanned));
          Some (map_option (\<lambda>p. of_nat (p - the (cursor rbview))) nl)
        }
      else Some None)"

text \<open>Steps 2 and 3: reserve space, read into it, commit.\<close>

datatype fill_outcome = FillFailed LSError | FillEof | FillMore

definition ls_fill :: "LineStream \<Rightarrow> os \<Rightarrow> (fill_outcome \<times> LineStream \<times> os) option" where
  "ls_fill ls s =
     do {
       (ar, b1, s1) \<leftarrow> readbuffer__assure (read_buffer ls) READ_BUFFERING_SIZE s;
       let ls1 = ls\<lparr>read_buffer := b1\<rparr> in
       if \<not> ok ar then
         Some (FillFailed \<lparr>ls_message = DeadLocal (error_message ar),
                           ls_code = LS_ERR_ALLOC_FAILED\<rparr>, ls1, s1)
       else
         let wc = readbuffer__get_write_cursor b1;
             limit = readbuffer__get_write_cursor_limit b1
         in
         (case sys_read (unat limit) s1 of
            (Inl e, s2) \<Rightarrow>
              Some (FillFailed \<lparr>ls_message = Strerror e, ls_code = LS_ERR_READ_FAILED\<rparr>, ls1, s2)
          | (Inr bs, s2) \<Rightarrow>
              if bs = [] then Some (FillEof, ls1, s2)
              else
                do {
                  b2 \<leftarrow> rb_write_through b1 wc bs;
                  let (cr, b3) = readbuffer__commit_write b2 (of_nat (length bs)) in
                  if \<not> ok cr then
                    Some (FillFailed \<lparr>ls_message = DeadLocal (error_message cr),
                                      ls_code = LS_ERR_ALLOC_FAILED\<rparr>,
                          ls\<lparr>read_buffer := b3\<rparr>, s2)
                  else Some (FillMore, ls\<lparr>read_buffer := b3\<rparr>, s2)
                })
     }"

text \<open>A line of the given length is taken from the front, with its newline or, at the end of
  file, without one.\<close>

definition ls_take :: "LineStream \<Rightarrow> size_t \<Rightarrow> size_t \<Rightarrow> os \<Rightarrow> ResultString \<times> LineStream \<times> os" where
  "ls_take ls line_len consumed s =
     (let line_start = cursor (readbuffer__get_read_view (read_buffer ls));
          b = snd (readbuffer__consume (read_buffer ls) consumed)
      in (RESULTSTRING_OK line_start line_len, ls\<lparr>read_buffer := b\<rparr>, s))"

definition ls_at_eof :: "LineStream \<Rightarrow> os \<Rightarrow> ResultString \<times> LineStream \<times> os" where
  "ls_at_eof ls s =
     (let rbview = readbuffer__get_read_view (read_buffer ls) in
      if size rbview > 0 then ls_take ls (size rbview) (size rbview) s
      else (RESULTSTRING_FAILURE LS_ERR_EOF (Literal ''linestream__next: end of file''), ls, s))"

lemma assure_pending:
  "readbuffer__assure b n s = Some (r, b', s') \<Longrightarrow> pending s' = pending s"
  by (cases b)
    (auto simp: readbuffer__assure.simps Let_def dest: malloc_frame
      split: if_splits option.splits prod.splits bind_splits)

lemma ls_fill_progress:
  assumes "ls_fill ls s = Some (FillMore, ls1, s1)"
  shows "length (pending s1) < length (pending s)"
proof -
  obtain r b sa n bs where
    "readbuffer__assure (read_buffer ls) READ_BUFFERING_SIZE s = Some (r, b, sa)"
    "sys_read n sa = (Inr bs, s1)" "bs \<noteq> []"
    using assms
    by (auto simp: ls_fill_def Let_def split: if_splits prod.splits sum.splits bind_splits)
  then show ?thesis
    using assure_pending inp.read_progress by metis
qed

function linestream__next_loop ::
    "LineStream \<Rightarrow> size_t \<Rightarrow> os \<Rightarrow> (ResultString \<times> LineStream \<times> os) option" where
  "linestream__next_loop ls scanned s =
     do {
       nl \<leftarrow> ls_scan ls scanned;
       (case nl of
          Some line_len \<Rightarrow> Some (ls_take ls line_len (line_len + 1) s)
        | None \<Rightarrow>
            let rbsize = size (readbuffer__get_read_view (read_buffer ls));
                scanned' = (if rbsize > scanned then rbsize else scanned)
            in
            (case ls_fill ls s of
               None \<Rightarrow> None
             | Some (FillFailed e, ls1, s1) \<Rightarrow> Some (StrErr e, ls1, s1)
             | Some (FillEof, ls1, s1) \<Rightarrow> Some (ls_at_eof ls1 s1)
             | Some (FillMore, ls1, s1) \<Rightarrow> linestream__next_loop ls1 scanned' s1))
     }"
  by pat_completeness auto
termination
  by (relation "measure (\<lambda>(ls, scanned, s). length (pending s))") (auto intro: ls_fill_progress)

declare linestream__next_loop.simps [simp del]

fun linestream__next ::
    "LineStream option \<Rightarrow> os \<Rightarrow> (ResultString \<times> LineStream option \<times> os) option" where
  "linestream__next None s =
     Some (RESULTSTRING_FAILURE LS_ERR_NULL_ARG (Literal ''linestream__next: NULL LineStream''),
           None, s)"
| "linestream__next (Some ls) s =
     do {
       (r, ls1, s1) \<leftarrow> linestream__next_loop ls 0 s;
       Some (r, Some ls1, s1)
     }"

fun linestream__destroy :: "LineStream option \<Rightarrow> os \<Rightarrow> os" where
  "linestream__destroy None s = s"
| "linestream__destroy (Some ls) s = c_free (Some ls) (readbuffer__destroy (read_buffer ls) s)"

text \<open>The bytes a returned view shows, while the stream is not touched again.\<close>

definition ls_bytes :: "LineStream \<Rightarrow> LSString \<Rightarrow> byte list option" where
  "ls_bytes ls str =
     (case (read_buffer ls, ls_cursor str) of
        (Some rb, Some p) \<Rightarrow> mem_load (rb_block rb) p (unat (ls_size str))
      | _ \<Rightarrow> None)"

text \<open>
  The loop every user of the library runs, \<open>while ((rs = linestream__next(ls)).is_ok)\<close>: the
  lines it sees and the error that ends it.
\<close>

partial_function (option) linestream_lines ::
    "LineStream option \<Rightarrow> os \<Rightarrow> (byte list list \<times> LSError \<times> LineStream option \<times> os) option" where
  "linestream_lines p s =
     do {
       (r, p1, s1) \<leftarrow> linestream__next p s;
       (case r of
          StrErr e \<Rightarrow> Some ([], e, p1, s1)
        | StrOk str \<Rightarrow>
            do {
              ls1 \<leftarrow> p1;
              line \<leftarrow> ls_bytes ls1 str;
              (rest, e, p2, s2) \<leftarrow> linestream_lines p1 s1;
              Some (line # rest, e, p2, s2)
            })
     }"

section \<open>Specification\<close>

definition ls_inv :: "LineStream \<Rightarrow> bool" where
  "ls_inv ls \<longleftrightarrow> rb_ptr_inv (read_buffer ls)"

definition ls_content :: "LineStream \<Rightarrow> os \<Rightarrow> byte list" where
  "ls_content ls s = rb_view (read_buffer ls) @ pending s"

definition ls_owned :: "LineStream \<Rightarrow> int" where
  "ls_owned ls = 1 + rb_owned (read_buffer ls)"

text \<open>The kernel has memory and input errors do not happen, and the input is small enough that
  a buffer for it and one more read has a power-of-two size.\<close>

definition ls_no_faults :: "LineStream \<Rightarrow> os \<Rightarrow> bool" where
  "ls_no_faults ls s \<longleftrightarrow>
     mallocs_ok s \<and> reads_ok s \<and>
     length (ls_content ls s) + unat READ_BUFFERING_SIZE \<le> 2 ^ 63"

text \<open>
  All input fits in a total of \<open>T\<close> bytes: the window of the buffer and what is still to come
  end at \<open>T\<close> at most, and a buffer that holds bytes has at least the reserved size.
\<close>

definition ls_small :: "nat \<Rightarrow> LineStream \<Rightarrow> os \<Rightarrow> bool" where
  "ls_small T ls s \<longleftrightarrow>
     (\<exists>rb. read_buffer ls = Some rb \<and>
        unat (rb_offset rb) + unat (rb_length rb) + length (pending s) \<le> T \<and>
        (unat READ_BUFFERING_SIZE \<le> unat (rb_capacity rb) \<or> rb_length rb = 0))"

text \<open>The bytes of the block from the start of a view on are at least twice its size.\<close>

definition ls_has_slack :: "LineStream \<Rightarrow> LSString \<Rightarrow> bool" where
  "ls_has_slack ls str \<longleftrightarrow>
     (\<exists>rb p. read_buffer ls = Some rb \<and> ls_cursor str = Some p \<and>
        p + 2 * unat (ls_size str) \<le> length (rb_block rb))"

text \<open>What one call does to the bytes still to be delivered.\<close>

definition ls_next_post :: "byte list \<Rightarrow> ResultString \<Rightarrow> LineStream \<Rightarrow> os \<Rightarrow> bool" where
  "ls_next_post c r ls' s' \<longleftrightarrow>
     (case r of
        StrErr e \<Rightarrow> ls_content ls' s' = c \<and> (ls_code e = LS_ERR_EOF \<longrightarrow> c = []) \<and>
          ls_code e \<in> {LS_ERR_EOF, LS_ERR_ALLOC_FAILED, LS_ERR_READ_FAILED}
      | StrOk str \<Rightarrow> c \<noteq> [] \<and> ls_bytes ls' str = Some (takeWhile (\<lambda>b. b \<noteq> NL) c) \<and>
          ls_content ls' s' = drop (length (takeWhile (\<lambda>b. b \<noteq> NL) c) + 1) c)"

function lines_of :: "byte list \<Rightarrow> byte list list" where
  "lines_of bs =
     (if bs = [] then []
      else (let line = takeWhile (\<lambda>b. b \<noteq> NL) bs in line # lines_of (drop (length line + 1) bs)))"
  by pat_completeness auto
termination
  by (relation "measure length") auto

declare lines_of.simps [simp del]

section \<open>One call of linestream__next\<close>

lemma ls_inv_iff: "ls_inv ls \<longleftrightarrow> (\<exists>rb. read_buffer ls = Some rb \<and> rb_inv rb)"
  by (simp add: ls_inv_def rb_ptr_inv_iff)

lemma nonempty_has_data:
  "rb_inv rb \<Longrightarrow> rb_content rb \<noteq> [] \<Longrightarrow> \<exists>d. rb_data rb = Some d"
  by (cases "rb_data rb") (auto simp: rb_content_def rb_block_def)

text \<open>The search of \<open>memchr\<close> through the pointer is one in the bytes of the view not yet seen.\<close>

lemma ls_scan_view:
  assumes rb: "read_buffer ls = Some rb" "rb_inv rb" and more_bytes: "rb_length rb > scanned"
  shows "ls_scan ls scanned = Some (map_option (\<lambda>i. of_nat (unat scanned + i))
    (find_byte NL (drop (unat scanned) (rb_content rb))))"
proof -
  let ?off = "unat (rb_offset rb)" and ?n = "unat (rb_length rb) - unat scanned"
  have lt: "unat scanned < unat (rb_length rb)" using more_bytes by (simp add: word_less_nat_alt)
  then have "rb_content rb \<noteq> []" using rb_content_length [OF rb(2)] by auto
  then obtain d where d: "rb_data rb = Some d"
    using nonempty_has_data rb(2) by blast
  have rest: "unat (rb_length rb - scanned) = ?n" using lt by (simp add: size_simps)
  have in_block: "?off + unat (rb_length rb) \<le> length (rb_block rb)"
    using rb(2) by (simp add: rb_inv_def)
  have "drop (unat scanned) (rb_content rb) = take ?n (drop (?off + unat scanned) (rb_block rb))"
    by (simp add: rb_content_def drop_take add.commute)
  moreover have "memchr (rb_block rb) (?off + unat scanned) NL ?n =
      Some (map_option ((+) (?off + unat scanned))
        (find_byte NL (take ?n (drop (?off + unat scanned) (rb_block rb)))))"
    using in_block lt by (simp add: memchr_def mem_simps)
  ultimately show ?thesis
    using more_bytes rb d rest
    by (cases "find_byte NL (drop (unat scanned) (rb_content rb))") (simp_all add: ls_scan_def add.assoc)
qed

lemma ls_scan_outcome:
  assumes inv: "ls_inv ls"
    and view: "view = rb_view (read_buffer ls)"
    and sc: "unat scanned \<le> length view" "NL \<notin> set (take (unat scanned) view)"
  shows "(NL \<in> set view \<and> (\<exists>n. ls_scan ls scanned = Some (Some n) \<and>
            unat n = length (takeWhile (\<lambda>b. b \<noteq> NL) view))) \<or>
         (NL \<notin> set view \<and> ls_scan ls scanned = Some None)"
proof -
  obtain rb where rb: "read_buffer ls = Some rb" "rb_inv rb"
    using inv by (auto simp: ls_inv_iff)
  have v: "view = rb_content rb" and len: "length view = unat (rb_length rb)"
    using view rb rb_content_length by simp_all
  show ?thesis
  proof (cases "rb_length rb > scanned")
    case False
    then have "unat (rb_length rb) \<le> unat scanned" by (simp add: word_less_nat_alt)
    with sc len have "NL \<notin> set view" by simp
    with False rb show ?thesis by (simp add: ls_scan_def)
  next
    case True
    note scan = ls_scan_view [OF rb True, folded v]
    show ?thesis
    proof (cases "find_byte NL (drop (unat scanned) view)")
      case None
      then have "NL \<notin> set (take (unat scanned) view @ drop (unat scanned) view)"
        using sc(2) unfolding set_append by (simp add: find_byte_None)
      then have "NL \<notin> set view" unfolding append_take_drop_id .
      with None scan show ?thesis by simp
    next
      case (Some i)
      then have mem: "NL \<in> set view"
        by (metis find_byte_None in_set_dropD option.distinct(1))
      have i: "i < length view - unat scanned"
        using find_byte_takeWhile [OF Some] by simp
      have "unat (of_nat (unat scanned + i) :: size_t) = unat scanned + i"
        using i len unat_less_size [of "rb_length rb"] by (intro unat_of_nat_size) simp
      with mem Some scan takeWhile_found_at [OF sc(2) Some sc(1)] show ?thesis by simp
    qed
  qed
qed

lemma ls_take_outcome:
  assumes inv: "ls_inv ls" and view: "view = rb_view (read_buffer ls)" "view \<noteq> []"
    and n: "unat n \<le> length view" and c: "unat c \<le> length view"
  shows "\<exists>str ls'. ls_take ls n c s = (StrOk str, ls', s) \<and> ls_inv ls' \<and>
    rb_view (read_buffer ls') = drop (unat c) view \<and> ls_bytes ls' str = Some (take (unat n) view) \<and>
    ls_owned ls' = ls_owned ls \<and> ls_size str = n"
proof -
  obtain rb where rb: "read_buffer ls = Some rb" "rb_inv rb"
    using inv by (auto simp: ls_inv_iff)
  have v: "view = rb_content rb" and len: "length view = unat (rb_length rb)"
    using view rb rb_content_length by simp_all
  obtain d where d: "rb_data rb = Some d"
    using nonempty_has_data rb(2) view(2) v by blast
  obtain r rb' where co: "readbuffer__consume (Some rb) c = (r, Some rb')" "rb_inv rb'"
    "rb_content rb' = drop (unat c) view" "rb_block rb' = rb_block rb"
    "rb_owned (Some rb') = rb_owned (Some rb)"
    using consume_outcome [OF rb(2), of c] c v by auto
  have "unat (rb_offset rb) + unat n \<le> length (rb_block rb)"
    using rb(2) n len by (simp add: rb_inv_def)
  then have "mem_load (rb_block rb) (unat (rb_offset rb)) (unat n) = Some (take (unat n) view)"
    using n len by (simp add: mem_simps v rb_content_def min_def)
  with rb co d show ?thesis
    by (simp add: ls_take_def RESULTSTRING_OK_def ls_inv_def ls_bytes_def ls_owned_def)
qed

lemma unat_READ_BUFFERING_SIZE: "unat READ_BUFFERING_SIZE = 4194304"
  by (simp add: READ_BUFFERING_SIZE_def)

text \<open>The ways \<open>ls_fill\<close> can go once the answer of \<open>readbuffer__assure\<close> is known.\<close>

lemma ls_fill_cases:
  assumes rb: "read_buffer ls = Some rb" "rb_inv rb1"
    and as: "readbuffer__assure (Some rb) READ_BUFFERING_SIZE s = Some (r, Some rb1, sa)"
  obtains (refused) m where "\<not> ok r"
      "ls_fill ls s = Some (FillFailed \<lparr>ls_message = m, ls_code = LS_ERR_ALLOC_FAILED\<rparr>, ls\<lparr>read_buffer := Some rb1\<rparr>, sa)"
  | (failed) m e s1 where "ok r" "sys_read (rb_room (Some rb1)) sa = (Inl e, s1)"
      "ls_fill ls s = Some (FillFailed \<lparr>ls_message = m, ls_code = LS_ERR_READ_FAILED\<rparr>, ls\<lparr>read_buffer := Some rb1\<rparr>, s1)"
  | (ended) s1 where "ok r" "sys_read (rb_room (Some rb1)) sa = (Inr [], s1)"
      "ls_fill ls s = Some (FillEof, ls\<lparr>read_buffer := Some rb1\<rparr>, s1)"
  | (filled) bs s1 rb2 where "ok r" "bs \<noteq> []" "sys_read (rb_room (Some rb1)) sa = (Inr bs, s1)"
      "ls_fill ls s = Some (FillMore, ls\<lparr>read_buffer := Some rb2\<rparr>, s1)" "rb_inv rb2"
      "rb_content rb2 = rb_content rb1 @ bs" "rb_owned (Some rb2) = rb_owned (Some rb1)"
      "rb_offset rb2 = rb_offset rb1" "rb_capacity rb2 = rb_capacity rb1"
  supply rb_owned.simps [simp del] readbuffer__get_write_cursor_limit.simps [simp del]
    readbuffer__get_write_cursor.simps [simp del]
proof -
  obtain q s1 where rd: "sys_read (rb_room (Some rb1)) sa = (q, s1)" by fastforce
  note unfolded = ls_fill_def rb(1) as rd [unfolded rb_room_def]
  show ?thesis
  proof (cases "\<exists>bs. ok r \<and> q = Inr bs \<and> bs \<noteq> []")
    case False
    then consider "\<not> ok r" | e where "ok r" "q = Inl e" | "ok r" "q = Inr []" by (cases q) auto
    then show ?thesis using rd by cases (auto simp: unfolded intro: refused failed ended)
  next
    case True
    then obtain bs where bs: "ok r" "q = Inr bs" "bs \<noteq> []" by blast
    then have "length bs \<le> rb_room (Some rb1)" using rd inp.read_bound by blast
    then obtain b1 cr rb2 where st: "rb_store (Some rb1) bs = Some b1"
      "readbuffer__commit_write b1 (of_nat (length bs)) = (cr, Some rb2)" "ok cr" "rb_inv rb2"
      "rb_content rb2 = rb_content rb1 @ bs" "rb_owned (Some rb2) = rb_owned (Some rb1)"
      "rb_offset rb2 = rb_offset rb1" "rb_capacity rb2 = rb_capacity rb1"
      using store_commit_outcome [OF rb(2)] by blast
    then show ?thesis
      using filled [OF bs(1,3) rd [unfolded bs(2)]] bs by (simp add: unfolded st(1) [unfolded rb_store_def])
  qed
qed

lemma ls_fill_outcome:
  assumes inv: "ls_inv ls"
  shows "\<exists>o' ls1 s1. ls_fill ls s = Some (o', ls1, s1) \<and> ls_inv ls1 \<and>
    ls_content ls1 s1 = ls_content ls s \<and>
    live s1 - ls_owned ls1 = live s - ls_owned ls \<and> sink s1 = sink s \<and> writes s1 = writes s \<and>
    (mallocs_ok s \<longrightarrow> mallocs_ok s1) \<and> (reads_ok s \<longrightarrow> reads_ok s1) \<and>
    (case o' of
       FillFailed e \<Rightarrow> ls_code e \<in> {LS_ERR_ALLOC_FAILED, LS_ERR_READ_FAILED} \<and> \<not> ls_no_faults ls s
     | FillEof \<Rightarrow> pending s1 = [] \<and> pending s = []
     | FillMore \<Rightarrow> \<exists>bs. rb_view (read_buffer ls1) = rb_view (read_buffer ls) @ bs)"
  supply rb_owned.simps [simp del]
proof -
  obtain rb where rb: "read_buffer ls = Some rb" "rb_inv rb"
    using inv by (auto simp: ls_inv_iff)
  obtain r rb1 sa where as: "readbuffer__assure (Some rb) READ_BUFFERING_SIZE s = Some (r, Some rb1, sa)"
    "rb_inv rb1" "rb_content rb1 = rb_content rb"
    "live sa - rb_owned (Some rb1) = live s - rb_owned (Some rb)"
    "ok r \<longrightarrow> unat READ_BUFFERING_SIZE \<le> rb_room (Some rb1)"
    "mallocs_ok s \<longrightarrow> mallocs_ok sa \<and>
       (unat (rb_length rb) + unat READ_BUFFERING_SIZE \<le> 2 ^ 63 \<longrightarrow> ok r)"
    "pending sa = pending s" "reads sa = reads s" "sink sa = sink s" "writes sa = writes s"
    using assure_outcome [OF rb(2), of READ_BUFFERING_SIZE s] by blast
  have ra: "reads_ok sa = reads_ok s" by (simp add: reads_ok_def as(8))
  note simps = ls_inv_iff ls_content_def ls_owned_def rb(1)
  have fr: "live s1 = live sa \<and> sink s1 = sink s \<and> writes s1 = writes s \<and>
      (mallocs_ok s \<longrightarrow> mallocs_ok s1) \<and> (reads_ok s \<longrightarrow> reads_ok s1 \<and> (\<exists>bs. q = Inr bs))"
    if rd: "sys_read n sa = (q, s1)" for q n s1
    using sys_read_frame [OF rd] sys_read_mallocs_ok [OF _ rd] sys_read_reads_ok [OF _ rd] as(6,9,10) ra by auto
  from rb(1) as(2,1) show ?thesis
  proof (cases rule: ls_fill_cases)
    case refused
    then show ?thesis
      using as ra rb_content_length [OF rb(2)] by (auto simp: simps ls_no_faults_def)
  next
    case (failed m e s1)
    moreover have "pending s1 = pending s" using inp.read_error failed(2) as(7) by fastforce
    ultimately show ?thesis using as fr [OF failed(2)] by (auto simp: simps ls_no_faults_def)
  next
    case (ended s1)
    have "0 < rb_room (Some rb1)" using ended(1) as(5) unat_READ_BUFFERING_SIZE by simp
    then have "pending s1 = []" "pending s = []"
      using inp.read_eof [OF ended(2)] inp.read_content [OF ended(2)] as(7) by simp_all
    then show ?thesis using as fr [OF ended(2)] ended by (simp add: simps)
  next
    case (filled bs s1 rb2)
    have "pending s = bs @ pending s1" using inp.read_content [OF filled(3)] as(7) by simp
    then show ?thesis using as fr [OF filled(3)] filled by (auto simp: simps)
  qed
qed

lemma takeWhile_length_less: "c \<in> set xs \<Longrightarrow> length (takeWhile (\<lambda>x. x \<noteq> c) xs) < length xs"
  by (induction xs) auto

lemma ls_found_line:
  assumes inv: "ls_inv ls" and nl: "NL \<in> set (rb_view (read_buffer ls))"
    and n: "unat n = length (takeWhile (\<lambda>b. b \<noteq> NL) (rb_view (read_buffer ls)))"
  shows "\<exists>str ls'. ls_take ls n (n + 1) s = (StrOk str, ls', s) \<and> ls_inv ls' \<and>
    ls_next_post (ls_content ls s) (StrOk str) ls' s \<and> ls_owned ls' = ls_owned ls"
proof -
  let ?v = "rb_view (read_buffer ls)"
  have less: "unat n < length ?v"
    using takeWhile_length_less [OF nl] n by simp
  moreover have "length ?v < 18446744073709551616"
    using inv unat_less_size rb_content_length by (auto simp: ls_inv_iff)
  ultimately have n1: "unat (n + 1) = unat n + 1"
    by (simp add: size_simps)
  obtain str ls' where t: "ls_take ls n (n + 1) s = (StrOk str, ls', s)" "ls_inv ls'"
    "rb_view (read_buffer ls') = drop (unat (n + 1)) ?v" "ls_bytes ls' str = Some (take (unat n) ?v)"
    "ls_owned ls' = ls_owned ls"
    using ls_take_outcome [OF inv refl _ _, of n "n + 1" s] less nl n1 by fastforce
  have tw: "takeWhile (\<lambda>b. b \<noteq> NL) (?v @ pending s) = takeWhile (\<lambda>b. b \<noteq> NL) ?v"
    using nl by (intro takeWhile_append1) auto
  have "take (unat n) ?v = takeWhile (\<lambda>b. b \<noteq> NL) ?v"
    using n by (metis takeWhile_eq_take)
  then have "ls_next_post (ls_content ls s) (StrOk str) ls' s"
    using t less n nl n1 by (auto simp: ls_next_post_def ls_content_def tw)
  with t show ?thesis by blast
qed

lemma ls_last_line:
  assumes inv: "ls_inv ls" and nl: "NL \<notin> set (rb_view (read_buffer ls))" and eof: "pending s = []"
  shows "\<exists>r ls'. ls_at_eof ls s = (r, ls', s) \<and> ls_inv ls' \<and>
    ls_next_post (ls_content ls s) r ls' s \<and> ls_owned ls' = ls_owned ls \<and>
    (\<forall>e. r = StrErr e \<longrightarrow> ls_code e = LS_ERR_EOF)"
proof -
  obtain rb where rb: "read_buffer ls = Some rb" "rb_inv rb"
    using inv by (auto simp: ls_inv_iff)
  let ?v = "rb_content rb"
  have len: "length ?v = unat (rb_length rb)"
    using rb rb_content_length by simp
  show ?thesis
  proof (cases "?v = []")
    case True
    then have "rb_length rb = 0" using len by (simp add: unat_eq_zero)
    with True rb eof inv show ?thesis
      by (simp add: ls_at_eof_def ls_next_post_def ls_content_def RESULTSTRING_FAILURE_def)
  next
    case False
    then have "rb_length rb \<noteq> 0"
      using len by auto
    then have pos: "0 < rb_length rb"
      by (simp add: word_neq_0_conv)
    obtain str ls' where t: "ls_take ls (rb_length rb) (rb_length rb) s = (StrOk str, ls', s)"
      "ls_inv ls'" "rb_view (read_buffer ls') = []" "ls_bytes ls' str = Some ?v"
      "ls_owned ls' = ls_owned ls"
      using ls_take_outcome [OF inv refl, of "rb_length rb" "rb_length rb" s] rb False len by fastforce
    have tw: "takeWhile (\<lambda>b. b \<noteq> NL) ?v = ?v"
      using nl rb by (intro takeWhile_not_in) simp
    have "ls_next_post (ls_content ls s) (StrOk str) ls' s"
      using t False rb eof by (simp add: ls_next_post_def ls_content_def tw)
    with t pos rb show ?thesis by (simp add: ls_at_eof_def)
  qed
qed

text \<open>After a successful read the loop goes on behind what it has looked at.\<close>

lemma next_loop_again:
  assumes inv: "ls_inv ls" and sc: "unat scanned \<le> length (rb_view (read_buffer ls))"
    and none: "ls_scan ls scanned = Some None" "NL \<notin> set (rb_view (read_buffer ls))"
    and f: "ls_fill ls s = Some (FillMore, ls1, s1)" "rb_view (read_buffer ls1) = rb_view (read_buffer ls) @ bs"
  shows "\<exists>sc'. linestream__next_loop ls scanned s = linestream__next_loop ls1 sc' s1 \<and>
    unat sc' \<le> length (rb_view (read_buffer ls1)) \<and>
    NL \<notin> set (take (unat sc') (rb_view (read_buffer ls1))) \<and>
    length (pending s1) < length (pending s)"
proof -
  define sc' where "sc' = (let n = size (readbuffer__get_read_view (read_buffer ls))
    in if n > scanned then n else scanned)"
  obtain rb where rb: "read_buffer ls = Some rb" "rb_inv rb"
    using inv by (auto simp: ls_inv_iff)
  have "unat sc' = length (rb_view (read_buffer ls))"
    using rb sc rb_content_length [OF rb(2)] by (auto simp: sc'_def word_less_nat_alt Let_def)
  moreover have "linestream__next_loop ls scanned s = linestream__next_loop ls1 sc' s1"
    using none f(1) by (simp add: linestream__next_loop.simps [of ls scanned s] sc'_def Let_def)
  ultimately show ?thesis using ls_fill_progress [OF f(1)] f(2) none(2) by auto
qed

text \<open>One round: a line is found, or the buffer is filled and the loop ends or goes on.\<close>

lemma next_loop_cases:
  assumes inv: "ls_inv ls" and sc: "unat scanned \<le> length (rb_view (read_buffer ls))"
    "NL \<notin> set (take (unat scanned) (rb_view (read_buffer ls)))"
  obtains (line) n where "NL \<in> set (rb_view (read_buffer ls))"
      "unat n = length (takeWhile (\<lambda>b. b \<noteq> NL) (rb_view (read_buffer ls)))"
      "linestream__next_loop ls scanned s = Some (ls_take ls n (n + 1) s)"
  | (failed) e ls1 s1 where "ls_fill ls s = Some (FillFailed e, ls1, s1)"
      "linestream__next_loop ls scanned s = Some (StrErr e, ls1, s1)"
  | (ended) ls1 s1 where "NL \<notin> set (rb_view (read_buffer ls))" "ls_fill ls s = Some (FillEof, ls1, s1)"
      "linestream__next_loop ls scanned s = Some (ls_at_eof ls1 s1)"
  | (again) ls1 s1 sc' where "ls_fill ls s = Some (FillMore, ls1, s1)"
      "linestream__next_loop ls scanned s = linestream__next_loop ls1 sc' s1"
      "unat sc' \<le> length (rb_view (read_buffer ls1))"
      "NL \<notin> set (take (unat sc') (rb_view (read_buffer ls1)))" "length (pending s1) < length (pending s)"
proof -
  note scan = ls_scan_outcome [OF inv refl sc]
  note loop = linestream__next_loop.simps [of ls scanned s]
  show ?thesis
  proof (cases "NL \<in> set (rb_view (read_buffer ls))")
    case True
    with scan show ?thesis by (auto simp: loop intro: line [OF True])
  next
    case False
    with scan have none: "ls_scan ls scanned = Some None" by blast
    obtain out ls1 s1 where f: "ls_fill ls s = Some (out, ls1, s1)"
      "out = FillMore \<longrightarrow> (\<exists>bs. rb_view (read_buffer ls1) = rb_view (read_buffer ls) @ bs)"
      using ls_fill_outcome [OF inv, of s] by (fastforce split: fill_outcome.splits)
    show ?thesis
    proof (cases out)
      case (FillFailed e)
      with f none show ?thesis by (intro failed [of e ls1 s1]) (simp_all add: loop)
    next
      case FillEof
      with f none False show ?thesis by (intro ended [of ls1 s1]) (simp_all add: loop)
    next
      case FillMore
      then obtain bs where "rb_view (read_buffer ls1) = rb_view (read_buffer ls) @ bs" using f(2) by blast
      from next_loop_again [OF inv sc(1) none False f(1) [unfolded FillMore] this] show ?thesis
        using again f(1) FillMore by blast
    qed
  qed
qed

lemma next_loop_outcome:
  assumes "ls_inv ls" and "unat scanned \<le> length (rb_view (read_buffer ls))"
    and "NL \<notin> set (take (unat scanned) (rb_view (read_buffer ls)))"
  shows "\<exists>r ls' s'. linestream__next_loop ls scanned s = Some (r, ls', s') \<and> ls_inv ls' \<and>
    ls_next_post (ls_content ls s) r ls' s' \<and>
    live s' - ls_owned ls' = live s - ls_owned ls \<and> sink s' = sink s \<and> writes s' = writes s \<and>
    (mallocs_ok s \<longrightarrow> mallocs_ok s') \<and> (reads_ok s \<longrightarrow> reads_ok s') \<and>
    (ls_no_faults ls s \<longrightarrow> (\<forall>e. r = StrErr e \<longrightarrow> ls_code e = LS_ERR_EOF))"
  using assms
proof (induction "length (pending s)" arbitrary: ls scanned s rule: less_induct)
  case less
  note fill = ls_fill_outcome [OF less.prems(1), of s]
  from less.prems show ?case
  proof (cases rule: next_loop_cases [where s = s])
    case (line n)
    with ls_found_line [OF less.prems(1) line(1,2), of s] show ?thesis by auto
  next
    case (failed e ls1 s1)
    with fill show ?thesis by (auto simp: ls_next_post_def)
  next
    case (ended ls1 s1)
    have f: "ls_inv ls1" "ls_content ls1 s1 = ls_content ls s" "pending s1 = []" "pending s = []"
      using fill ended(2) by auto
    then have "rb_view (read_buffer ls1) = rb_view (read_buffer ls)" by (simp add: ls_content_def)
    then obtain r ls' where "ls_at_eof ls1 s1 = (r, ls', s1)" "ls_inv ls'"
      "ls_next_post (ls_content ls1 s1) r ls' s1" "ls_owned ls' = ls_owned ls1"
      "\<forall>e. r = StrErr e \<longrightarrow> ls_code e = LS_ERR_EOF"
      using ls_last_line [OF f(1), of s1] ended(1) f(3) by auto
    with fill ended(2,3) show ?thesis by auto
  next
    case (again ls1 s1 sc')
    with fill have f: "ls_inv ls1" "ls_content ls1 s1 = ls_content ls s" "live s1 - ls_owned ls1 = live s - ls_owned ls"
      "sink s1 = sink s" "writes s1 = writes s" "mallocs_ok s \<longrightarrow> mallocs_ok s1" "reads_ok s \<longrightarrow> reads_ok s1"
      by auto
    then have "ls_no_faults ls s \<longrightarrow> ls_no_faults ls1 s1" by (simp add: ls_no_faults_def)
    then show ?thesis
      using less.hyps [OF again(5) f(1) again(3,4)] f unfolding again(2) by auto
  qed
qed

lemma next_outcome:
  assumes "ls_inv ls"
  shows "\<exists>r ls' s'. linestream__next (Some ls) s = Some (r, Some ls', s') \<and> ls_inv ls' \<and>
    ls_next_post (ls_content ls s) r ls' s' \<and>
    live s' - ls_owned ls' = live s - ls_owned ls \<and> sink s' = sink s \<and> writes s' = writes s \<and>
    (mallocs_ok s \<longrightarrow> mallocs_ok s') \<and> (reads_ok s \<longrightarrow> reads_ok s') \<and>
    (ls_no_faults ls s \<longrightarrow> (\<forall>e. r = StrErr e \<longrightarrow> ls_code e = LS_ERR_EOF))"
  using next_loop_outcome [OF assms, of 0 s] by auto

section \<open>Lines\<close>

lemma lines_of_empty [simp]: "lines_of [] = []"
  by (simp add: lines_of.simps)

lemma lines_of_step:
  "bs \<noteq> [] \<Longrightarrow> lines_of bs =
     takeWhile (\<lambda>b. b \<noteq> NL) bs # lines_of (drop (length (takeWhile (\<lambda>b. b \<noteq> NL) bs) + 1) bs)"
  by (subst lines_of.simps) (simp add: Let_def)

lemma lines_of_no_NL: "l \<in> set (lines_of bs) \<Longrightarrow> NL \<notin> set l"
proof (induction bs rule: lines_of.induct)
  case (1 bs)
  show ?case
  proof (cases "bs = []")
    case True
    with "1.prems" show ?thesis by simp
  next
    case False
    with "1.prems" consider "l = takeWhile (\<lambda>b. b \<noteq> NL) bs"
      | "l \<in> set (lines_of (drop (length (takeWhile (\<lambda>b. b \<noteq> NL) bs) + 1) bs))"
      by (auto simp: lines_of_step)
    then show ?thesis
    proof cases
      case 1
      then show ?thesis by (auto dest: set_takeWhileD)
    next
      case 2
      then show ?thesis using "1.IH" False by blast
    qed
  qed
qed

lemma takeWhile_then_sep:
  "c \<in> set bs \<Longrightarrow>
     takeWhile (\<lambda>b. b \<noteq> c) bs @ c # drop (length (takeWhile (\<lambda>b. b \<noteq> c) bs) + 1) bs = bs"
  by (induction bs) auto

lemma last_after_sep: "last (xs @ c # ys) = (if ys = [] then c else last ys)"
  by simp

lemma lines_of_concat:
  "concat (map (\<lambda>l. l @ [NL]) (lines_of bs)) = bs @ (if bs = [] \<or> last bs = NL then [] else [NL])"
proof (induction bs rule: lines_of.induct)
  case (1 bs)
  define l where "l = takeWhile (\<lambda>b. b \<noteq> NL) bs"
  define r where "r = drop (length l + 1) bs"
  show ?case
  proof (cases "bs = []")
    case True
    then show ?thesis by simp
  next
    case False
    have step: "concat (map (\<lambda>l. l @ [NL]) (lines_of bs)) =
        l @ [NL] @ r @ (if r = [] \<or> last r = NL then [] else [NL])"
      using False "1.IH" [OF False refl] by (simp add: lines_of_step l_def r_def)
    show ?thesis
    proof (cases "NL \<in> set bs")
      case True
      then have bs: "l @ NL # r = bs"
        unfolding l_def r_def by (rule takeWhile_then_sep)
      have "bs = [] \<or> last bs = NL \<longleftrightarrow> r = [] \<or> last r = NL"
        unfolding bs [symmetric] last_after_sep by simp
      then have "concat (map (\<lambda>l. l @ [NL]) (lines_of bs)) =
          (l @ NL # r) @ (if bs = [] \<or> last bs = NL then [] else [NL])"
        unfolding step by simp
      then show ?thesis unfolding bs .
    next
      case nl: False
      then have l: "l = bs" unfolding l_def by (rule takeWhile_not_in)
      then have "r = []" by (simp add: r_def)
      moreover have "last bs \<noteq> NL" using nl last_in_set [OF False] by metis
      ultimately show ?thesis unfolding step using l False by simp
    qed
  qed
qed

lemma lines_outcome:
  assumes "ls_inv ls"
  shows "\<exists>lines e ls' s'. linestream_lines (Some ls) s = Some (lines, e, Some ls', s') \<and>
    ls_inv ls' \<and> lines_of (ls_content ls s) = lines @ lines_of (ls_content ls' s') \<and>
    (ls_code e = LS_ERR_EOF \<longrightarrow> ls_content ls' s' = []) \<and>
    live s' - ls_owned ls' = live s - ls_owned ls \<and>
    (ls_no_faults ls s \<longrightarrow> ls_code e = LS_ERR_EOF)"
  using assms
proof (induction "length (ls_content ls s)" arbitrary: ls s rule: less_induct)
  case less
  obtain r ls1 s1 where n: "linestream__next (Some ls) s = Some (r, Some ls1, s1)" "ls_inv ls1"
    "ls_next_post (ls_content ls s) r ls1 s1" "live s1 - ls_owned ls1 = live s - ls_owned ls"
    "mallocs_ok s \<longrightarrow> mallocs_ok s1" "reads_ok s \<longrightarrow> reads_ok s1"
    "ls_no_faults ls s \<longrightarrow> (\<forall>e. r = StrErr e \<longrightarrow> ls_code e = LS_ERR_EOF)"
    using next_outcome [OF less.prems, of s] by blast
  show ?case
  proof (cases r)
    case (StrErr e)
    with n show ?thesis
      by (auto simp: linestream_lines.simps [of "Some ls" s] ls_next_post_def)
  next
    case (StrOk str)
    let ?c = "ls_content ls s"
    have line: "?c \<noteq> []" "ls_bytes ls1 str = Some (takeWhile (\<lambda>b. b \<noteq> NL) ?c)"
      "ls_content ls1 s1 = drop (length (takeWhile (\<lambda>b. b \<noteq> NL) ?c) + 1) ?c"
      using n(3) StrOk by (simp_all add: ls_next_post_def)
    have "length (ls_content ls1 s1) < length ?c"
      using line(1,3) by (cases ?c) auto
    moreover have "ls_no_faults ls s \<longrightarrow> ls_no_faults ls1 s1"
      using n(5,6) line(3) by (auto simp: ls_no_faults_def)
    ultimately show ?thesis
      using less.hyps [of ls1 s1] n(1,2,4) StrOk line
      by (fastforce simp: linestream_lines.simps [of "Some ls" s] lines_of_step)
  qed
qed

lemma create_outcome:
  assumes "linestream__create fd pg s = (r, s')"
  shows "pending s' = pending s \<and> reads s' = reads s \<and>
    (case r of
       StreamErr e \<Rightarrow> live s' = live s \<and> ls_code e = LS_ERR_INIT_FAILED \<and> \<not> mallocs_ok s
     | StreamOk ls \<Rightarrow> ls_inv ls \<and> rb_view (read_buffer ls) = [] \<and> ls_fd ls = fd \<and>
         live s' - ls_owned ls = live s \<and> (mallocs_ok s \<longrightarrow> mallocs_ok s'))"
proof -
  obtain a s1 where a: "alloc_object s = (a, s1)" by fastforce
  obtain b s2 where b: "readbuffer__init pg s1 = (b, s2)" by fastforce
  show ?thesis
    using assms a b alloc_object_frame [OF a] alloc_object_ok [OF _ a] init_outcome [OF b]
    by (cases a; cases b)
      (auto simp: linestream__create_def LINESTREAM_FAILURE_def ls_inv_def ls_owned_def)
qed

lemma linestream_destroy_live:
  "live (linestream__destroy (Some ls) s) = live s - ls_owned ls"
  by (simp add: destroy_live ls_owned_def)

text \<open>Where the lines of a small input lie.\<close>

lemma ls_fill_small:
  assumes inv: "ls_inv ls" and small: "ls_small T ls s"
    and run: "ls_fill ls s = Some (out, ls1, s1)"
  shows "ls_inv ls1 \<and> ls_small T ls1 s1"
proof
  show "ls_inv ls1" using ls_fill_outcome [OF inv, of s] run by auto
  obtain rb where rb: "read_buffer ls = Some rb" "rb_inv rb"
    using inv by (auto simp: ls_inv_iff)
  obtain r rb1 sa where as: "readbuffer__assure (Some rb) READ_BUFFERING_SIZE s = Some (r, Some rb1, sa)"
    "rb_inv rb1" "ok r \<longrightarrow> unat READ_BUFFERING_SIZE \<le> rb_room (Some rb1)" "\<not> ok r \<longrightarrow> rb1 = rb"
    "rb_length rb1 = rb_length rb" "unat (rb_offset rb1) \<le> unat (rb_offset rb)"
    "pending sa = pending s"
    using assure_outcome [OF rb(2), of READ_BUFFERING_SIZE s] by blast
  have sum: "unat (rb_offset rb) + unat (rb_length rb) + length (pending s) \<le> T"
    using small rb by (simp add: ls_small_def)
  have cap: "ok r \<Longrightarrow> unat READ_BUFFERING_SIZE \<le> unat (rb_capacity rb1)"
    using rb_room_Some [OF as(2)] as(3) by simp
  from rb(1) as(2,1) show "ls_small T ls1 s1"
  proof (cases rule: ls_fill_cases)
    case refused
    then show ?thesis using rb as run small by (simp add: ls_small_def)
  next
    case (failed m e s2)
    moreover have "pending s2 = pending s" using inp.read_error failed(2) as(7) by fastforce
    ultimately show ?thesis using run cap as sum by (auto simp: ls_small_def)
  next
    case (ended s2)
    then show ?thesis using run cap as sum inp.read_content [OF ended(2)] by (simp add: ls_small_def)
  next
    case (filled bs s2 rb2)
    have "unat (rb_length rb2) = unat (rb_length rb) + length bs"
      using rb_content_length [OF filled(5)] rb_content_length [OF as(2)] filled(6) as(5) by simp
    then show ?thesis
      using filled run cap as sum arg_cong [OF inp.read_content [OF filled(3)], of length]
      by (auto simp: ls_small_def)
  qed
qed

lemma ls_take_small:
  assumes inv: "ls_inv ls" and small: "ls_small T ls s" and T: "2 * T \<le> unat READ_BUFFERING_SIZE"
    and n: "unat n \<le> length (rb_view (read_buffer ls))" and c: "unat c \<le> length (rb_view (read_buffer ls))"
    and nonempty: "rb_view (read_buffer ls) \<noteq> []"
    and run: "ls_take ls n c s = (r, ls', s')"
  shows "s' = s \<and> ls_small T ls' s' \<and> (\<exists>str. r = StrOk str \<and> ls_has_slack ls' str)"
proof -
  obtain rb where rb: "read_buffer ls = Some rb" "rb_inv rb"
    using inv by (auto simp: ls_inv_iff)
  have len: "length (rb_content rb) = unat (rb_length rb)"
    using rb rb_content_length by simp
  obtain d where d: "rb_data rb = Some d"
    using nonempty_has_data rb nonempty by auto
  obtain q rb' where co: "readbuffer__consume (Some rb) c = (q, Some rb')"
    "rb_block rb' = rb_block rb" "rb_capacity rb' = rb_capacity rb"
    "unat (rb_offset rb') + unat (rb_length rb') \<le> unat (rb_offset rb) + unat (rb_length rb)"
    using consume_outcome [OF rb(2), of c] by blast
  have sum: "unat (rb_offset rb) + unat (rb_length rb) + length (pending s) \<le> T"
    using small rb by (simp add: ls_small_def)
  have "rb_length rb \<noteq> 0" using nonempty rb len by auto
  then have cap: "unat READ_BUFFERING_SIZE \<le> length (rb_block rb)"
    using small rb by (auto simp: ls_small_def rb_inv_def)
  then have "unat (rb_offset rb) + 2 * unat n \<le> length (rb_block rb)"
    using sum n rb(1) len T by simp
  with run rb d co sum cap show ?thesis
    by (auto simp: ls_take_def RESULTSTRING_OK_def ls_small_def ls_has_slack_def rb_inv_def)
qed

lemma ls_at_eof_small:
  assumes inv: "ls_inv ls" and small: "ls_small T ls s" and T: "2 * T \<le> unat READ_BUFFERING_SIZE"
    and run: "ls_at_eof ls s = (StrOk str, ls', s')"
  shows "ls_small T ls' s' \<and> ls_has_slack ls' str"
proof -
  obtain rb where rb: "read_buffer ls = Some rb" "rb_inv rb"
    using inv by (auto simp: ls_inv_iff)
  have len: "length (rb_content rb) = unat (rb_length rb)"
    using rb rb_content_length by simp
  have pos: "rb_length rb > 0"
    using run rb by (simp add: ls_at_eof_def RESULTSTRING_FAILURE_def Let_def split: if_splits)
  then have "rb_content rb \<noteq> []" using len by (auto simp: word_less_nat_alt)
  moreover have "ls_take ls (rb_length rb) (rb_length rb) s = (StrOk str, ls', s')"
    using run pos rb by (simp add: ls_at_eof_def)
  ultimately show ?thesis
    using ls_take_small [OF inv small T, of "rb_length rb" "rb_length rb" "StrOk str" ls' s'] rb len
    by auto
qed

lemma next_loop_small:
  assumes T: "2 * T \<le> unat READ_BUFFERING_SIZE"
  shows "ls_inv ls \<Longrightarrow> ls_small T ls s \<Longrightarrow> unat scanned \<le> length (rb_view (read_buffer ls)) \<Longrightarrow>
     NL \<notin> set (take (unat scanned) (rb_view (read_buffer ls))) \<Longrightarrow>
     linestream__next_loop ls scanned s = Some (StrOk str, ls', s') \<Longrightarrow>
     ls_small T ls' s' \<and> ls_has_slack ls' str"
proof (induction "length (pending s)" arbitrary: ls scanned s rule: less_induct)
  case less
  let ?v = "rb_view (read_buffer ls)"
  note fill = ls_fill_small [OF less.prems(1,2)]
  from less.prems(1,3,4) show ?case
  proof (cases rule: next_loop_cases [where s = s])
    case (line n)
    have less_n: "unat n < length ?v" using takeWhile_length_less [OF line(1)] line(2) by simp
    moreover have "length ?v < 18446744073709551616"
      using less.prems(1) unat_less_size rb_content_length by (auto simp: ls_inv_iff)
    ultimately have n1: "unat (n + 1) = unat n + 1" by (simp add: size_simps)
    have "ls_take ls n (n + 1) s = (StrOk str, ls', s')" using less.prems(5) line(3) by simp
    moreover have "?v \<noteq> []" using line(1) by auto
    ultimately show ?thesis
      using ls_take_small [OF less.prems(1,2) T, of n "n + 1" "StrOk str" ls' s'] less_n n1 by auto
  next
    case (failed e ls1 s1)
    then show ?thesis using less.prems(5) by simp
  next
    case (ended ls1 s1)
    have "ls_at_eof ls1 s1 = (StrOk str, ls', s')" using ended(3) less.prems(5) by simp
    then show ?thesis using fill [OF ended(2)] ls_at_eof_small [OF _ _ T] by blast
  next
    case (again ls1 s1 sc')
    then show ?thesis
      using less.hyps [OF again(5) _ _ again(3,4)] fill [OF again(1)] less.prems(5) by simp
  qed
qed

lemma next_small:
  assumes "ls_inv ls" and "ls_small T ls s" and "2 * T \<le> unat READ_BUFFERING_SIZE"
    and "linestream__next (Some ls) s = Some (StrOk str, Some ls', s')"
  shows "ls_small T ls' s' \<and> ls_has_slack ls' str"
  using next_loop_small [OF assms(3,1,2), of 0 str ls' s'] assms(4) by (auto split: bind_splits)

lemma next_loop_alloc_message:
  "linestream__next_loop ls scanned s = Some (StrErr e, ls', s') \<Longrightarrow>
     ls_code e = LS_ERR_ALLOC_FAILED \<Longrightarrow> \<exists>m. ls_message e = DeadLocal m"
proof (induction ls scanned s rule: linestream__next_loop.induct)
  case (1 ls scanned s)
  obtain nl where nl: "ls_scan ls scanned = Some nl"
    using "1.prems"(1) by (auto simp: linestream__next_loop.simps [of ls scanned s] split: bind_splits)
  show ?case
  proof (cases nl)
    case (Some n)
    with nl "1.prems" show ?thesis
      by (simp add: linestream__next_loop.simps [of ls scanned s] ls_take_def RESULTSTRING_OK_def Let_def)
  next
    case None
    obtain out ls1 s1 where f: "ls_fill ls s = Some (out, ls1, s1)"
      using nl None "1.prems"(1)
      by (cases "ls_fill ls s") (auto simp: linestream__next_loop.simps [of ls scanned s])
    show ?thesis
    proof (cases out)
      case (FillFailed e')
      with nl None f "1.prems" have "e' = e"
        by (simp add: linestream__next_loop.simps [of ls scanned s])
      with f FillFailed "1.prems"(2) show ?thesis
        by (auto simp: ls_fill_def Let_def split: if_splits sum.splits prod.splits bind_splits)
    next
      case FillEof
      with nl None f "1.prems" show ?thesis
        by (auto simp: linestream__next_loop.simps [of ls scanned s] ls_at_eof_def ls_take_def
            RESULTSTRING_OK_def RESULTSTRING_FAILURE_def Let_def split: if_splits)
    next
      case FillMore
      with nl None f "1.prems" show ?thesis
        by (auto simp: linestream__next_loop.simps [of ls scanned s] Let_def intro: "1.IH")
    qed
  qed
qed

section \<open>Properties\<close>

definition example_ls :: LineStream where
  "example_ls = \<lparr>ls_fd = 3, read_buffer = Some \<lparr>rb_data = Some [97, 10, 98, 0],
     rb_capacity = 4, rb_length = 3, rb_offset = 0\<rparr>\<rparr>"

definition example_in :: os where
  "example_in = example_os\<lparr>pending := [99, 10, 10, 100], reads := [Short 1, Short 2]\<rparr>"

lemma example_ls_inv: "ls_inv example_ls"
  by (simp add: example_ls_def ls_inv_def rb_inv_def rb_block_def)

lemma example_ls_content: "ls_content example_ls example_in = [97, 10, 98, 99, 10, 10, 100]"
  by (simp add: example_ls_def example_in_def ls_content_def rb_content_def rb_block_def)

lemma example_no_faults: "ls_no_faults example_ls example_in"
  by (simp add: ls_no_faults_def example_ls_content unat_READ_BUFFERING_SIZE)
    (simp add: example_in_def example_os_def mallocs_ok_def reads_ok_def)

text \<open>
  C2. One call of \<open>linestream__next\<close> on a valid stream, whatever the kernel answers: it
  returns without reading or writing outside the buffer and keeps the stream valid. A line it
  returns is the input up to the first newline, and exactly that line and its newline have
  left the stream; on an error nothing has left it, and end of file is reported only when
  nothing is left.
\<close>

theorem linestream_next_correct:
  assumes "ls_inv ls"
  shows "\<exists>r ls' s'. linestream__next (Some ls) s = Some (r, Some ls', s') \<and> ls_inv ls' \<and>
    (case r of
       StrOk str \<Rightarrow> ls_content ls s \<noteq> [] \<and>
         ls_bytes ls' str = Some (takeWhile (\<lambda>b. b \<noteq> NL) (ls_content ls s)) \<and>
         ls_content ls' s' =
           drop (length (takeWhile (\<lambda>b. b \<noteq> NL) (ls_content ls s)) + 1) (ls_content ls s)
     | StrErr e \<Rightarrow> ls_content ls' s' = ls_content ls s \<and>
         (ls_code e = LS_ERR_EOF \<longrightarrow> ls_content ls s = []) \<and>
         ls_code e \<in> {LS_ERR_EOF, LS_ERR_ALLOC_FAILED, LS_ERR_READ_FAILED})"
  using next_outcome [OF assms, of s] unfolding ls_next_post_def by (fastforce split: ResultString.splits)

theorem linestream_next_correct_witness:
  "\<exists>r ls' s'. linestream__next (Some example_ls) example_in = Some (r, Some ls', s') \<and>
     (case r of StrOk str \<Rightarrow> ls_bytes ls' str = Some [97]
      | StrErr e \<Rightarrow> ls_content ls' s' = [97, 10, 98, 99, 10, 10, 100])"
  using linestream_next_correct [OF example_ls_inv, of example_in]
  by (fastforce simp: example_ls_content split: ResultString.splits)

text \<open>
  Without memory or input faults, a call of \<open>linestream__next\<close> returns a line exactly when
  something is left, and end of file otherwise: no other error, however the input is cut into
  reads.
\<close>

theorem linestream_next_total:
  assumes "ls_inv ls" and "ls_no_faults ls s"
  shows "\<exists>r ls' s'. linestream__next (Some ls) s = Some (r, Some ls', s') \<and>
    (if ls_content ls s = [] then \<exists>m. r = RESULTSTRING_FAILURE LS_ERR_EOF m
     else \<exists>str. r = StrOk str)"
proof -
  obtain r ls' s' where n: "linestream__next (Some ls) s = Some (r, Some ls', s')"
    "ls_next_post (ls_content ls s) r ls' s'" "\<forall>e. r = StrErr e \<longrightarrow> ls_code e = LS_ERR_EOF"
    using next_outcome [OF assms(1), of s] assms(2) by blast
  show ?thesis
  proof (cases r)
    case (StrErr e)
    then have eof: "r = RESULTSTRING_FAILURE LS_ERR_EOF (ls_message e)"
      using n(3) by (cases e) (simp add: RESULTSTRING_FAILURE_def)
    have "ls_content ls s = []"
      using n(2,3) StrErr by (simp add: ls_next_post_def)
    with n(1) eof show ?thesis by auto
  next
    case (StrOk str)
    with n show ?thesis by (auto simp: ls_next_post_def)
  qed
qed

theorem linestream_next_total_witness:
  "\<exists>str ls' s'. linestream__next (Some example_ls) example_in = Some (StrOk str, Some ls', s')"
  using linestream_next_total [OF example_ls_inv example_no_faults]
  by (auto simp: example_ls_content)

text \<open>
  C23. The loop that calls \<open>linestream__next\<close> until it fails always ends. Without faults it
  sees exactly the lines of the input, in order, whatever the sizes of the reads, and ends
  with end of file; with faults it has seen a prefix of them and the rest is still in the
  stream, so no byte is lost, doubled or moved.
\<close>

theorem linestream_lines_correct:
  assumes "ls_inv ls"
  shows "\<exists>lines e ls' s'. linestream_lines (Some ls) s = Some (lines, e, Some ls', s') \<and>
    lines_of (ls_content ls s) = lines @ lines_of (ls_content ls' s') \<and>
    (ls_no_faults ls s \<longrightarrow> lines = lines_of (ls_content ls s) \<and> ls_code e = LS_ERR_EOF)"
  using lines_outcome [OF assms, of s] by fastforce

theorem linestream_lines_correct_witness:
  "\<exists>e p' s'. linestream_lines (Some example_ls) example_in =
     Some ([[97], [98, 99], [], [100]], e, p', s') \<and> ls_code e = LS_ERR_EOF"
proof -
  have "lines_of (ls_content example_ls example_in) = [[97], [98, 99], [], [100]]"
    by (simp add: example_ls_content lines_of.simps Let_def)
  then show ?thesis
    using linestream_lines_correct [OF example_ls_inv, of example_in] example_no_faults by auto
qed

text \<open>
  Round trip: the lines that the loop has seen contain no newline, and writing each back
  with a newline restores the input, with a newline after the last line if it had none.
\<close>

theorem linestream_lines_roundtrip:
  assumes "ls_inv ls" and "ls_no_faults ls s"
    and "linestream_lines (Some ls) s = Some (lines, e, p', s')"
  shows "(\<forall>l \<in> set lines. NL \<notin> set l) \<and>
    concat (map (\<lambda>l. l @ [NL]) lines) =
      ls_content ls s @ (if ls_content ls s = [] \<or> last (ls_content ls s) = NL then [] else [NL])"
proof -
  have "lines = lines_of (ls_content ls s)"
    using lines_outcome [OF assms(1), of s] assms(2,3) by auto
  then show ?thesis using lines_of_no_NL lines_of_concat by simp
qed

theorem linestream_lines_roundtrip_witness:
  "\<exists>lines e p' s'. linestream_lines (Some example_ls) example_in = Some (lines, e, p', s') \<and>
     concat (map (\<lambda>l. l @ [NL]) lines) = [97, 10, 98, 99, 10, 10, 100, 10]"
proof -
  obtain lines e ls' s' where
    run: "linestream_lines (Some example_ls) example_in = Some (lines, e, Some ls', s')"
    using lines_outcome [OF example_ls_inv, of example_in] by blast
  show ?thesis
    using run linestream_lines_roundtrip [OF example_ls_inv example_no_faults run]
    by (simp add: example_ls_content)
qed

text \<open>
  Heap balance of a whole use of the library: a failed \<open>linestream__create\<close> has freed
  what it allocated, and after a successful one, the loop over all lines and
  \<open>linestream__destroy\<close>, every allocation has been freed exactly once, even when calls failed.
\<close>

theorem linestream_no_leak:
  assumes "linestream__create fd pg s = (r, s1)"
  shows "case r of
      StreamErr e \<Rightarrow> live s1 = live s
    | StreamOk ls \<Rightarrow> \<exists>lines e p' s'. linestream_lines (Some ls) s1 = Some (lines, e, p', s') \<and>
        live (linestream__destroy p' s') = live s"
proof (cases r)
  case (StreamErr e)
  with create_outcome [OF assms] show ?thesis by simp
next
  case (StreamOk ls)
  with create_outcome [OF assms] have "ls_inv ls" "live s1 - ls_owned ls = live s" by simp_all
  with StreamOk lines_outcome [of ls s1] show ?thesis
    by (fastforce simp: linestream_destroy_live simp del: linestream__destroy.simps)
qed

theorem linestream_no_leak_witness:
  "fst (linestream__create 3 4096 (example_os\<lparr>mallocs := [True, True, False]\<rparr>)) =
     LINESTREAM_FAILURE LS_ERR_INIT_FAILED (Literal ''linestream__create: readbuffer__init failed'') \<and>
   live (snd (linestream__create 3 4096 (example_os\<lparr>mallocs := [True, True, False]\<rparr>))) = 0"
proof -
  let ?s = "example_os\<lparr>mallocs := [True, True, False]\<rparr>"
  obtain r s1 where run: "linestream__create 3 4096 ?s = (r, s1)" by fastforce
  have r: "r = LINESTREAM_FAILURE LS_ERR_INIT_FAILED
      (Literal ''linestream__create: readbuffer__init failed'')"
    using run by (auto simp: linestream__create_def readbuffer__init_def alloc_object_def malloc_def
        example_os_def)
  with linestream_no_leak [OF run] run show ?thesis
    by (simp add: LINESTREAM_FAILURE_def example_os_def)
qed

text \<open>
  Every \<open>LS_ERR_ALLOC_FAILED\<close> error of \<open>linestream__next\<close> carries a message that points
  into \<open>ar.error_message\<close> or \<open>cr.error_message\<close>, arrays in the automatic storage of the call
  that has returned; \<open>fgrep.c\<close> and the test print it.
\<close>

theorem linestream_alloc_message_dangles:
  assumes "linestream__next (Some ls) s = Some (StrErr e, p', s')"
    and "ls_code e = LS_ERR_ALLOC_FAILED"
  shows "\<exists>m. ls_message e = DeadLocal m"
  using assms next_loop_alloc_message [of ls 0 s e] by (auto split: bind_splits)

theorem linestream_alloc_message_dangles_witness:
  "\<exists>e p' s'. linestream__next (Some \<lparr>ls_fd = 3, read_buffer = Some example_rb\<rparr>)
      (example_os\<lparr>mallocs := [False]\<rparr>) = Some (StrErr e, p', s') \<and>
    (\<exists>m. ls_message e = DeadLocal m)"
proof -
  let ?ls = "\<lparr>ls_fd = 3, read_buffer = Some example_rb\<rparr>"
  let ?s = "example_os\<lparr>mallocs := [False]\<rparr>"
  have mem: "malloc m ?s = (None, example_os)" for m
    by (simp add: malloc_def alloc_object_def example_os_def)
  have as: "readbuffer__assure (Some example_rb) READ_BUFFERING_SIZE ?s =
      Some (READBUFFER_FAILURE READBUFFER_ERROR_ALLOCATION_FAILED ''allocation failed'',
            Some example_rb, example_os)"
    by (rule assure_no_memory [OF _ _ _ mem refl])
      (simp_all add: example_rb_def READ_BUFFERING_SIZE_def word_le_nat_alt)
  have "ls_scan ?ls 0 = Some None"
    by (simp add: ls_scan_def example_rb_def memchr_def mem_load_def rb_block_def)
  then have "linestream__next (Some ?ls) ?s = Some (StrErr
      \<lparr>ls_message = DeadLocal ''allocation failed'', ls_code = LS_ERR_ALLOC_FAILED\<rparr>,
      Some (?ls\<lparr>read_buffer := Some example_rb\<rparr>), example_os)"
    by (simp add: linestream__next_loop.simps [of ?ls 0 ?s] ls_fill_def as READBUFFER_FAILURE_def)
  then show ?thesis
    using linestream_alloc_message_dangles by fastforce
qed

end
