(* ===== verification/ByteSearch.thy ===== *)
theory ByteSearch
  imports Prelude
begin

text \<open>
  Searching a byte string for a fixed pattern: \<open>memmem(3)\<close> of the C library, what a caller may
  rely on, and the greedy left-to-right matches that a search loop collects with it.
\<close>

definition occurs_at :: "'a list \<Rightarrow> 'a list \<Rightarrow> nat \<Rightarrow> bool" where
  "occurs_at pat hay i \<longleftrightarrow> i + length pat \<le> length hay \<and> take (length pat) (drop i hay) = pat"

fun memmem :: "'a list \<Rightarrow> 'a list \<Rightarrow> nat option" where
  "memmem pat hay =
     (if take (length pat) hay = pat then Some 0
      else case hay of [] \<Rightarrow> None | _ # rest \<Rightarrow> map_option Suc (memmem pat rest))"

declare memmem.simps [simp del]

text \<open>The contract of a leftmost search.\<close>

locale leftmost_search =
  fixes search :: "'a list \<Rightarrow> 'a list \<Rightarrow> nat option"
  assumes search_Some:
      "search pat hay = Some i \<longleftrightarrow> occurs_at pat hay i \<and> (\<forall>j < i. \<not> occurs_at pat hay j)"
    and search_None: "search pat hay = None \<longleftrightarrow> (\<forall>i. \<not> occurs_at pat hay i)"
begin

lemma search_fits: "search pat hay = Some i \<Longrightarrow> i + length pat \<le> length hay"
  by (simp add: search_Some occurs_at_def)

lemma search_bytes: "search pat hay = Some i \<Longrightarrow> take (length pat) (drop i hay) = pat"
  by (simp add: search_Some occurs_at_def)

lemma occurs_append: "occurs_at pat xs i \<Longrightarrow> occurs_at pat (xs @ ys) i"
  by (auto simp: occurs_at_def)

lemma occurs_append_inside:
  "occurs_at pat (xs @ ys) i \<Longrightarrow> i + length pat \<le> length xs \<Longrightarrow> occurs_at pat xs i"
  by (auto simp: occurs_at_def)

text \<open>More text behind does not change a match that was found.\<close>

lemma search_append: "search pat xs = Some i \<Longrightarrow> search pat (xs @ ys) = Some i"
  unfolding search_Some
  by (meson less_imp_le_nat nat_add_left_cancel_le occurs_append occurs_append_inside occurs_at_def
      order_trans add_le_mono1)

text \<open>A match in more text that fits the text at hand is the match there.\<close>

lemma search_prefix:
  "search pat (xs @ ys) = Some i \<Longrightarrow> i + length pat \<le> length xs \<Longrightarrow> search pat xs = Some i"
  unfolding search_Some by (meson occurs_append occurs_append_inside)

text \<open>Text in which no match starts can be skipped.\<close>

lemma occurs_drop: "k \<le> length hay \<Longrightarrow> occurs_at pat (drop k hay) i \<longleftrightarrow> occurs_at pat hay (k + i)"
  by (auto simp: occurs_at_def add.commute)

lemma search_skip:
  assumes "\<forall>j < k. \<not> occurs_at pat hay j" and "k \<le> length hay"
  shows "search pat hay = map_option ((+) k) (search pat (drop k hay))"
proof (cases "search pat (drop k hay)")
  case None
  then have "\<not> occurs_at pat hay (k + i)" for i
    using occurs_drop [OF assms(2)] by (simp add: search_None)
  with assms(1) have "\<forall>i. \<not> occurs_at pat hay i"
    by (metis le_add_diff_inverse not_le)
  then have "search pat hay = None" unfolding search_None .
  with None show ?thesis by simp
next
  case (Some i)
  have "\<not> occurs_at pat hay j" if "j < k + i" for j
  proof (cases "j < k")
    case True
    with assms(1) show ?thesis by simp
  next
    case False
    then have "\<not> occurs_at pat (drop k hay) (j - k)"
      using Some that by (auto simp: search_Some)
    with False occurs_drop [OF assms(2), of pat "j - k"] show ?thesis by simp
  qed
  moreover have "occurs_at pat hay (k + i)"
    using Some occurs_drop [OF assms(2)] by (simp add: search_Some)
  ultimately have "search pat hay = Some (k + i)"
    by (simp add: search_Some)
  with Some show ?thesis by simp
qed

end

lemma memmem_Some:
  "memmem pat hay = Some i \<longleftrightarrow> occurs_at pat hay i \<and> (\<forall>j < i. \<not> occurs_at pat hay j)"
proof (induction hay arbitrary: i)
  case Nil
  then show ?case by (auto simp: memmem.simps occurs_at_def)
next
  case (Cons x xs)
  have shift: "occurs_at pat (x # xs) (Suc j) \<longleftrightarrow> occurs_at pat xs j" for j
    by (simp add: occurs_at_def)
  show ?case
  proof (cases "take (length pat) (x # xs) = pat")
    case True
    then have "occurs_at pat (x # xs) 0"
      by (simp add: occurs_at_def) (metis length_take min.cobounded1 min_def length_Cons)
    with True show ?thesis by (auto simp: memmem.simps [of pat "x # xs"])
  next
    case False
    then have zero: "\<not> occurs_at pat (x # xs) 0" by (simp add: occurs_at_def)
    show ?thesis
    proof (cases i)
      case 0
      with False zero show ?thesis by (auto simp: memmem.simps [of pat "x # xs"])
    next
      case (Suc n)
      have "(\<forall>j < Suc n. \<not> occurs_at pat (x # xs) j) \<longleftrightarrow> (\<forall>j < n. \<not> occurs_at pat xs j)"
        using zero shift by (metis Suc_less_eq less_Suc_eq_0_disj)
      with False Suc Cons.IH [of n] shift show ?thesis
        by (simp add: memmem.simps [of pat "x # xs"])
    qed
  qed
qed

lemma memmem_None: "memmem pat hay = None \<longleftrightarrow> (\<forall>i. \<not> occurs_at pat hay i)"
proof
  assume "memmem pat hay = None"
  show "\<forall>i. \<not> occurs_at pat hay i"
  proof (rule ccontr)
    assume "\<not> (\<forall>i. \<not> occurs_at pat hay i)"
    then obtain i where "occurs_at pat hay i" by blast
    then have "\<exists>i. occurs_at pat hay i \<and> (\<forall>j < i. \<not> occurs_at pat hay j)"
      using exists_least_iff [of "occurs_at pat hay"] by blast
    with \<open>memmem pat hay = None\<close> show False by (metis memmem_Some option.distinct(1))
  qed
next
  assume "\<forall>i. \<not> occurs_at pat hay i"
  then show "memmem pat hay = None"
    by (cases "memmem pat hay") (auto simp: memmem_Some)
qed

interpretation mm: leftmost_search memmem
  by unfold_locales (simp_all add: memmem_Some memmem_None)

section \<open>Greedy non-overlapping matches\<close>

function all_matches :: "'a list \<Rightarrow> 'a list \<Rightarrow> nat list" where
  "all_matches pat hay =
     (if pat = [] then []
      else case memmem pat hay of
             None \<Rightarrow> []
           | Some i \<Rightarrow>
               i # map ((+) (i + length pat)) (all_matches pat (drop (i + length pat) hay)))"
  by pat_completeness auto
termination
proof (relation "measure (\<lambda>(pat, hay). length hay)", goal_cases)
  case 1
  then show ?case by simp
next
  case (2 pat hay i)
  then show ?case using mm.search_fits [of pat hay i] by (cases pat) auto
qed

declare all_matches.simps [simp del]

lemma all_matches_Nil [simp]: "all_matches [] hay = []"
  by (simp add: all_matches.simps)

lemma all_matches_None: "memmem pat hay = None \<Longrightarrow> all_matches pat hay = []"
  by (simp add: all_matches.simps)

lemma all_matches_Some:
  "pat \<noteq> [] \<Longrightarrow> memmem pat hay = Some i \<Longrightarrow>
     all_matches pat hay =
       i # map ((+) (i + length pat)) (all_matches pat (drop (i + length pat) hay))"
  by (simp add: all_matches.simps)

lemma all_matches_empty_iff: "pat \<noteq> [] \<Longrightarrow> all_matches pat hay = [] \<longleftrightarrow> memmem pat hay = None"
  by (cases "memmem pat hay") (simp_all add: all_matches.simps)

lemma all_matches_skip:
  assumes "\<forall>j < k. \<not> occurs_at pat hay j" and "k \<le> length hay"
  shows "all_matches pat hay = map ((+) k) (all_matches pat (drop k hay))"
  using mm.search_skip [OF assms]
  by (cases "memmem pat (drop k hay)"; cases "pat = []")
    (simp_all add: all_matches.simps [of pat hay] all_matches.simps [of pat "drop k hay"]
      drop_drop o_def ac_simps)

lemma all_matches_occur:
  "i \<in> set (all_matches pat hay) \<Longrightarrow> occurs_at pat hay i"
proof (induction pat hay arbitrary: i rule: all_matches.induct)
  case (1 pat hay)
  show ?case
  proof (cases "pat = [] \<or> memmem pat hay = None")
    case True
    with "1.prems" show ?thesis by (auto simp: all_matches_None)
  next
    case False
    then obtain k where k: "memmem pat hay = Some k" by auto
    with False "1.prems" consider "i = k"
      | j where "i = k + length pat + j" "j \<in> set (all_matches pat (drop (k + length pat) hay))"
      by (auto simp: all_matches_Some)
    then show ?thesis
    proof cases
      case 1
      then show ?thesis using k memmem_Some by blast
    next
      case 2
      then have "occurs_at pat (drop (k + length pat) hay) j"
        using "1.IH" [of k j] False k by auto
      then show ?thesis
        using 2(1) mm.search_fits [OF k] mm.occurs_drop [of "k + length pat" hay pat j]
        by (simp add: add.assoc)
    qed
  qed
qed

text \<open>Behind the last match there is none.\<close>

lemma all_matches_last_end:
  "all_matches pat hay \<noteq> [] \<Longrightarrow>
     memmem pat (drop (last (all_matches pat hay) + length pat) hay) = None"
proof (induction pat hay rule: all_matches.induct)
  case (1 pat hay)
  have pat: "pat \<noteq> []" using "1.prems" by auto
  then obtain k where k: "memmem pat hay = Some k"
    using "1.prems" by (cases "memmem pat hay") (simp_all add: all_matches_None)
  let ?rest = "drop (k + length pat) hay"
  show ?case
  proof (cases "all_matches pat ?rest = []")
    case True
    then show ?thesis using pat k by (simp add: all_matches_Some all_matches_empty_iff)
  next
    case False
    then show ?thesis
      using "1.IH" [OF pat k] pat k
      by (simp add: all_matches_Some last_map add.assoc add.commute add.left_commute)
  qed
qed

end
