(* ===== verification/CText.thy ===== *)
theory CText
  imports Prelude
begin

text \<open>
  C strings: what the programs print on standard error, decimal numbers as \<open>printf\<close> writes
  them, and \<open>strtol\<close> in base 10 as the standard defines it. A C string is the list of its
  characters before the terminating NUL.
\<close>

section \<open>Diagnostics and runs\<close>

text \<open>A message on standard error: fixed bytes, or \<open>perror\<close> of a prefix.\<close>

datatype diag = Barf string | Perror string

text \<open>What a finished process leaves: standard output, diagnostics, exit status.\<close>

record run =
  out :: "byte list"
  diags :: "diag list"
  status :: int

definition bytes_of :: "string \<Rightarrow> byte list" where
  "bytes_of s = map of_char s"

section \<open>Decimal numbers\<close>

definition digit_char :: "nat \<Rightarrow> char" where
  "digit_char d = char_of (48 + d)"

definition is_digit :: "char \<Rightarrow> bool" where
  "is_digit c \<longleftrightarrow> 48 \<le> (of_char c :: nat) \<and> (of_char c :: nat) \<le> 57"

definition digit_val :: "char \<Rightarrow> nat" where
  "digit_val c = of_char c - 48"

fun decimal :: "nat \<Rightarrow> string" where
  "decimal n = (if n < 10 then [digit_char n] else decimal (n div 10) @ [digit_char (n mod 10)])"

declare decimal.simps [simp del]

definition value_of_digits :: "string \<Rightarrow> nat" where
  "value_of_digits ds = foldl (\<lambda>v c. 10 * v + digit_val c) 0 ds"

definition is_space :: "char \<Rightarrow> bool" where
  "is_space c \<longleftrightarrow> (of_char c :: nat) \<in> {9, 10, 11, 12, 13, 32}"

definition LONG_MAX :: int where
  "LONG_MAX = 9223372036854775807"

definition LONG_MIN :: int where
  "LONG_MIN = - 9223372036854775808"

text \<open>
  \<open>strtol(text, &rest, 10)\<close>: white space, an optional sign, digits; the value is clamped to
  the range of \<open>long\<close>. Without a digit the value is 0 and nothing is consumed.
\<close>

definition strtol :: "string \<Rightarrow> int \<times> string" where
  "strtol text =
     (let body = dropWhile is_space text;
          neg = (body \<noteq> [] \<and> hd body = CHR ''-'');
          digits_on = (if body \<noteq> [] \<and> hd body \<in> {CHR ''-'', CHR ''+''} then tl body else body);
          ds = takeWhile is_digit digits_on;
          v = int (value_of_digits ds)
      in if ds = [] then (0, text)
         else (max LONG_MIN (min LONG_MAX (if neg then - v else v)), dropWhile is_digit digits_on))"

lemma digit_char_code: "d < 10 \<Longrightarrow> (of_char (digit_char d) :: nat) = 48 + d"
  by (simp add: digit_char_def of_char_of)

lemma digit_char_is_digit [simp]: "d < 10 \<Longrightarrow> is_digit (digit_char d)"
  by (simp add: is_digit_def digit_char_code)

lemma digit_val_char [simp]: "d < 10 \<Longrightarrow> digit_val (digit_char d) = d"
  by (simp add: digit_val_def digit_char_code)

lemma decimal_digits: "list_all is_digit (decimal n) \<and> decimal n \<noteq> []"
  by (induction n rule: decimal.induct) (subst (1 2) decimal.simps, auto)

lemma value_snoc: "value_of_digits (ds @ [c]) = 10 * value_of_digits ds + digit_val c"
  by (simp add: value_of_digits_def)

lemma value_decimal [simp]: "value_of_digits (decimal n) = n"
proof (induction n rule: decimal.induct)
  case (1 n)
  show ?case
  proof (cases "n < 10")
    case True
    then show ?thesis by (subst decimal.simps) (simp add: value_of_digits_def)
  next
    case False
    then show ?thesis using 1 by (subst decimal.simps) (simp add: value_snoc)
  qed
qed

lemma decimal_length: "n < 10 ^ k \<Longrightarrow> 0 < k \<Longrightarrow> length (decimal n) \<le> k"
proof (induction n arbitrary: k rule: decimal.induct)
  case (1 n)
  show ?case
  proof (cases "n < 10")
    case True
    with 1(3) show ?thesis by (subst decimal.simps) simp
  next
    case False
    then obtain j where k: "k = Suc j" "0 < j"
      using 1(2,3) by (cases k; cases "k = 1") auto
    have "n div 10 < 10 ^ j" using 1(2) k(1) by (simp add: less_mult_imp_div_less mult.commute)
    then have "length (decimal (n div 10)) \<le> j" using 1(1) [OF False] k(2) by blast
    then show ?thesis using False k(1) by (subst decimal.simps) simp
  qed
qed

lemma takeWhile_digits: "list_all p ds \<Longrightarrow> \<not> p c \<Longrightarrow> takeWhile p (ds @ c # r) = ds"
  by (induction ds) auto

lemma takeWhile_all: "list_all p ds \<Longrightarrow> takeWhile p ds = ds \<and> dropWhile p ds = []"
  by (induction ds) auto

lemma digit_not_space: "is_digit c \<Longrightarrow> \<not> is_space c"
  by (auto simp: is_digit_def is_space_def)

lemma digit_not_sign: "is_digit c \<Longrightarrow> c \<noteq> CHR ''-'' \<and> c \<noteq> CHR ''+''"
  by (auto simp: is_digit_def)

lemma strtol_decimal:
  assumes "rest = [] \<or> \<not> is_digit (hd rest)"
  shows "strtol (decimal n @ rest) = (min LONG_MAX (int n), rest)"
proof -
  obtain c cs where d: "decimal n = c # cs" using decimal_digits by (cases "decimal n") auto
  then have c: "is_digit c" using decimal_digits [of n] by simp
  have tw: "takeWhile is_digit (decimal n @ rest) = decimal n \<and>
      dropWhile is_digit (decimal n @ rest) = rest"
    using assms decimal_digits [of n] takeWhile_all [of is_digit "decimal n"]
    by (cases rest) (auto simp: list_all_iff)
  have sp: "dropWhile is_space (decimal n @ rest) = decimal n @ rest"
    using d digit_not_space [OF c] by simp
  show ?thesis
    unfolding strtol_def sp Let_def
    using tw d digit_not_sign [OF c] value_decimal [of n] by (auto simp: LONG_MAX_def LONG_MIN_def max_def min_def)
qed

end
