(* ===== verification/Grep.thy ===== *)
theory Grep
  imports LineStream ByteSearch CText
begin

text \<open>
  Fixed-string search, \<open>fixed_grep/fgrep.c\<close>: the line search that \<open>main\<close> runs over a line
  stream, and the two whole-file searches beside it (\<open>read_and_search\<close> with its chunk buffer,
  \<open>read_and_search_mmap\<close>). What they print goes through stdio, so the output of a run is the
  bytes printed until it ends.
\<close>

section \<open>The line search\<close>

definition strnlen :: "byte list \<Rightarrow> nat \<Rightarrow> nat" where
  "strnlen s n = min (length s) n"

text \<open>\<open>memmem\<close> on the \<open>text_len\<close> bytes of a block from \<open>p\<close> on: outside the block it has no
  defined result.\<close>

definition pattern_search :: "byte list \<Rightarrow> nat \<Rightarrow> byte list \<Rightarrow> nat \<Rightarrow> nat \<Rightarrow> nat option option" where
  "pattern_search pattern pattern_len d p text_len =
     do {
       hay \<leftarrow> mem_load d p text_len;
       Some (map_option ((+) p) (memmem (take pattern_len pattern) hay))
     }"

text \<open>One round of the inner loop on the line at \<open>p\<close>: what it prints (the offset in the line
  and the bytes written by \<open>fwrite\<close>) and the next \<open>off\<close>.\<close>

definition grep_step ::
    "byte list \<Rightarrow> nat \<Rightarrow> byte list \<Rightarrow> nat \<Rightarrow> nat \<Rightarrow> nat \<Rightarrow> ((nat \<times> byte list) list \<times> nat) option" where
  "grep_step pattern pattern_len d p line_size off =
     do {
       found_idx \<leftarrow> pattern_search pattern pattern_len d (p + off) line_size;
       (case found_idx of
          Some q \<Rightarrow>
            do {
              bs \<leftarrow> mem_load d q pattern_len;
              Some ([(q - p, bs)], (q - p) + pattern_len)
            }
        | None \<Rightarrow> Some ([], line_size))
     }"

partial_function (option) grep_line ::
    "byte list \<Rightarrow> nat \<Rightarrow> byte list \<Rightarrow> nat \<Rightarrow> nat \<Rightarrow> nat \<Rightarrow> (nat \<times> byte list) list option" where
  "grep_line pattern pattern_len d p line_size off =
     (if off < line_size then
        do {
          (hits, off') \<leftarrow> grep_step pattern pattern_len d p line_size off;
          rest \<leftarrow> grep_line pattern pattern_len d p line_size off';
          Some (hits @ rest)
        }
      else Some [])"

text \<open>A hit is printed as line number, column, both from 1, and the matched bytes.\<close>

type_synonym hit = "nat \<times> nat \<times> byte list"

definition print_hit :: "hit \<Rightarrow> byte list" where
  "print_hit h =
     (case h of (line, off, bs) \<Rightarrow>
        bytes_of (decimal line @ '':'' @ decimal (off + 1) @ '':'') @ bs @ [NL])"

text \<open>The loop over the lines.\<close>

partial_function (option) grep_stream ::
    "byte list \<Rightarrow> nat \<Rightarrow> LineStream option \<Rightarrow> os \<Rightarrow> nat \<Rightarrow>
       (hit list \<times> LSError \<times> LineStream option \<times> os) option" where
  "grep_stream pattern pattern_len p s lineno =
     do {
       (r, p1, s1) \<leftarrow> linestream__next p s;
       (case r of
          StrErr e \<Rightarrow> Some ([], e, p1, s1)
        | StrOk line \<Rightarrow>
            do {
              ls1 \<leftarrow> p1;
              rb \<leftarrow> read_buffer ls1;
              q \<leftarrow> ls_cursor line;
              hits \<leftarrow> grep_line pattern pattern_len (rb_block rb) q (unat (ls_size line)) 0;
              (more, e, p2, s2) \<leftarrow> grep_stream pattern pattern_len p1 s1 (lineno + 1);
              Some (map (Pair (lineno + 1)) hits @ more, e, p2, s2)
            })
     }"

text \<open>Reading a message: nobody may read the dead array of a returned call.\<close>

fun message_text :: "(errno \<Rightarrow> string) \<Rightarrow> message_ptr \<Rightarrow> string option" where
  "message_text strerror (Literal m) = Some m"
| "message_text strerror (Strerror e) = Some (strerror e)"
| "message_text strerror (DeadLocal m) = None"

fun code_number :: "LSErrorCode \<Rightarrow> nat" where
  "code_number LS_ERR_NONE = 0"
| "code_number LS_ERR_INIT_FAILED = 1"
| "code_number LS_ERR_ALLOC_FAILED = 2"
| "code_number LS_ERR_READ_FAILED = 3"
| "code_number LS_ERR_EOF = 4"
| "code_number LS_ERR_NULL_ARG = 5"

definition KiB :: nat where
  "KiB = 1024"

definition pattern_too_long :: diag where
  "pattern_too_long = Barf ''pattern length should be less than 1024 characters''"

definition stream_line_and_search ::
    "(errno \<Rightarrow> string) \<Rightarrow> size_t \<Rightarrow> int \<Rightarrow> byte list \<Rightarrow> os \<Rightarrow> (run \<times> os) option" where
  "stream_line_and_search strerror page_size fd pattern s =
     (let pattern_len = strnlen pattern (1 * KiB) in
      if pattern_len > 1 * KiB - 1
      then Some (\<lparr>out = [], diags = [pattern_too_long], status = 1\<rparr>, s)
      else
        case linestream__create fd page_size s of
          (StreamErr e, s1) \<Rightarrow>
            Some (\<lparr>out = [], diags = [Perror ''linestream__create()''], status = 1\<rparr>, s1)
        | (StreamOk ls, s1) \<Rightarrow>
            do {
              (hits, e, p, s2) \<leftarrow> grep_stream pattern pattern_len (Some ls) s1 0;
              ds \<leftarrow>
                (if ls_code e \<noteq> LS_ERR_EOF then
                   do {
                     m \<leftarrow> message_text strerror (ls_message e);
                     Some [Barf (''SOMETHING WENT WRONG WHILE READING.. DEETS below'' @ [CHR 0x0A]),
                           Barf (''code = '' @ decimal (code_number (ls_code e)) @
                                 '', message = '' @ m)]
                   }
                 else Some []);
              Some (\<lparr>out = concat (map print_hit hits), diags = ds, status = 0\<rparr>,
                    linestream__destroy p s2)
            })"

text \<open>\<open>main\<close>: \<open>open_file\<close> is \<open>open(2)\<close> for reading, a descriptor or -1; nobody looks at it
  before the first \<open>read\<close>.\<close>

definition fgrep_main ::
    "(errno \<Rightarrow> string) \<Rightarrow> (byte list \<Rightarrow> int) \<Rightarrow> size_t \<Rightarrow> byte list list \<Rightarrow> os \<Rightarrow> (run \<times> os) option"
  where
  "fgrep_main strerror open_file page_size argv s =
     (if length argv < 3
      then Some (\<lparr>out = [], diags = [Barf (''usage: ./fgrep <string> <file>'' @ [CHR 0x0A])],
                  status = 1\<rparr>, s)
      else
        (let fd = open_file (argv ! 2)
         in stream_line_and_search strerror page_size fd (argv ! 1) s))"

section \<open>The whole-file searches\<close>

text \<open>What \<open>fwrite\<close> and \<open>fputc\<close> print of a match.\<close>

definition print_match :: "byte list \<Rightarrow> byte list" where
  "print_match bs = bs @ [NL]"

partial_function (option) mmap_search ::
    "byte list \<Rightarrow> nat \<Rightarrow> byte list \<Rightarrow> nat \<Rightarrow> nat \<Rightarrow> byte list option" where
  "mmap_search pattern pattern_len file cur remaining =
     (if remaining \<ge> pattern_len then
        do {
          found \<leftarrow> pattern_search pattern pattern_len file cur remaining;
          (case found of
             None \<Rightarrow> Some []
           | Some q \<Rightarrow>
               do {
                 bs \<leftarrow> mem_load file q pattern_len;
                 let consumed = (q - cur) + pattern_len in
                 do {
                   rest \<leftarrow> mmap_search pattern pattern_len file (cur + consumed) (remaining - consumed);
                   Some (print_match bs @ rest)
                 }
               })
        }
      else Some [])"

text \<open>\<open>stat\<close> is the size that \<open>fstat\<close> reports or its error; \<open>map_file n\<close> is the mapping of
  \<open>n\<close> bytes or its failure.\<close>

definition read_and_search_mmap ::
    "errno + nat \<Rightarrow> (nat \<Rightarrow> byte list option) \<Rightarrow> byte list \<Rightarrow> run option" where
  "read_and_search_mmap stat map_file pattern =
     (let pattern_len = strnlen pattern (1 * KiB) in
      if pattern_len > 1 * KiB - 1
      then Some \<lparr>out = [], diags = [pattern_too_long], status = 1\<rparr>
      else
        case stat of
          Inl e \<Rightarrow> Some \<lparr>out = [], diags = [Perror ''fstat()''], status = 1\<rparr>
        | Inr st_size \<Rightarrow>
            if st_size = 0 then Some \<lparr>out = [], diags = [], status = 0\<rparr>
            else
              case map_file st_size of
                None \<Rightarrow> Some \<lparr>out = [], diags = [Perror ''mmap()''], status = 1\<rparr>
              | Some file \<Rightarrow>
                  do {
                    printed \<leftarrow> mmap_search pattern pattern_len file 0 st_size;
                    Some \<lparr>out = printed, diags = [], status = 0\<rparr>
                  })"

definition bytes_to_read :: nat where
  "bytes_to_read = 4 * (1024 * 1024)"

definition buf_len :: nat where
  "buf_len = bytes_to_read + 1 * KiB"

text \<open>The chunk of \<open>read_and_search\<close>: \<open>chunk_cursor\<close> is NULL until the first read.\<close>

record running_buffer =
  chunk_cursor :: "nat option"
  chunk_len :: nat

text \<open>
  One round of its loop: \<open>Searched\<close> with what was printed, \<open>Refilled\<close> after a read, or the
  end. With \<open>chunk_cursor\<close> NULL there is nothing to search or to move (the length is 0).
\<close>

datatype chunk_step =
    Searched "byte list" running_buffer
  | Refilled "byte list" running_buffer os
  | Finished os
  | Failed errno os

definition chunk_search ::
    "byte list \<Rightarrow> nat \<Rightarrow> byte list \<Rightarrow> running_buffer \<Rightarrow> chunk_step option" where
  "chunk_search pattern pattern_len buf chunk =
     do {
       cur \<leftarrow> chunk_cursor chunk;
       found_idx \<leftarrow> pattern_search pattern pattern_len buf cur (chunk_len chunk);
       let new_cursor =
         (case found_idx of
            Some q \<Rightarrow> q + pattern_len
          | None \<Rightarrow> cur + chunk_len chunk - pattern_len + 1);
           chunk' = chunk\<lparr>chunk_len := cur + chunk_len chunk - new_cursor,
                          chunk_cursor := Some new_cursor\<rparr>
       in
       (case found_idx of
          Some q \<Rightarrow> do { bs \<leftarrow> mem_load buf q pattern_len; Some (Searched (print_match bs) chunk') }
        | None \<Rightarrow> Some (Searched [] chunk'))
     }"

definition chunk_refill :: "byte list \<Rightarrow> running_buffer \<Rightarrow> os \<Rightarrow> chunk_step option" where
  "chunk_refill buf chunk s =
     do {
       buf1 \<leftarrow> (case chunk_cursor chunk of
                 None \<Rightarrow> if chunk_len chunk = 0 then Some buf else None
               | Some cur \<Rightarrow> mem_move buf 0 cur (chunk_len chunk));
       let chunk1 = chunk\<lparr>chunk_cursor := Some 0\<rparr> in
       (case sys_read bytes_to_read s of
          (Inl e, s1) \<Rightarrow> Some (Failed e s1)
        | (Inr bs, s1) \<Rightarrow>
            if bs = [] then Some (Finished s1)
            else
              do {
                buf2 \<leftarrow> mem_store buf1 (chunk_len chunk1) bs;
                Some (Refilled buf2 (chunk1\<lparr>chunk_len := chunk_len chunk1 + length bs\<rparr>) s1)
              })
     }"

partial_function (option) chunk_loop ::
    "byte list \<Rightarrow> nat \<Rightarrow> byte list \<Rightarrow> running_buffer \<Rightarrow> os \<Rightarrow> (byte list \<times> errno option \<times> os) option" where
  "chunk_loop pattern pattern_len buf chunk s =
     do {
       step \<leftarrow> (if chunk_len chunk \<ge> pattern_len
               then chunk_search pattern pattern_len buf chunk
               else chunk_refill buf chunk s);
       (case step of
          Searched printed chunk' \<Rightarrow>
            do {
              (more, e, s') \<leftarrow> chunk_loop pattern pattern_len buf chunk' s;
              Some (printed @ more, e, s')
            }
        | Refilled buf' chunk' s' \<Rightarrow> chunk_loop pattern pattern_len buf' chunk' s'
        | Finished s' \<Rightarrow> Some ([], None, s')
        | Failed e s' \<Rightarrow> Some ([], Some e, s'))
     }"

text \<open>The result of \<open>malloc\<close> is not looked at: \<open>memset\<close> through NULL has no defined outcome.\<close>

definition read_and_search :: "byte list \<Rightarrow> os \<Rightarrow> (run \<times> os) option" where
  "read_and_search pattern s =
     (let pattern_len = strnlen pattern (1 * KiB) in
      if pattern_len > 1 * KiB - 1
      then Some (\<lparr>out = [], diags = [pattern_too_long], status = 1\<rparr>, s)
      else
        case malloc (of_nat buf_len) s of
          (None, s1) \<Rightarrow> None
        | (Some buf, s1) \<Rightarrow>
            do {
              zeroed \<leftarrow> mem_store buf 0 (replicate buf_len 0);
              (printed, e, s2) \<leftarrow>
                chunk_loop pattern pattern_len zeroed \<lparr>chunk_cursor = None, chunk_len = 0\<rparr> s1;
              (let s3 = c_free (Some buf) s2 in
               case e of
                 None \<Rightarrow> Some (\<lparr>out = printed, diags = [], status = 0\<rparr>, s3)
               | Some err \<Rightarrow>
                   Some (\<lparr>out = printed, diags = [Perror ''read()''], status = 1\<rparr>, s3))
            })"

section \<open>One line\<close>

declare grep_line.simps [simp del]

lemma pattern_search_in:
  "p + n \<le> length d \<Longrightarrow>
     pattern_search pat (length pat) d p n = Some (map_option ((+) p) (memmem pat (take n (drop p d))))"
  by (simp add: pattern_search_def mem_simps)

lemma pattern_search_out: "length d < p + n \<Longrightarrow> pattern_search pat k d p n = None"
  by (simp add: pattern_search_def mem_load_out)

text \<open>What \<open>fwrite\<close> reads at a match is the pattern.\<close>

lemma match_bytes:
  assumes "memmem pat (take n (drop p d)) = Some i" and "p + n \<le> length d"
  shows "mem_load d (p + i) (length pat) = Some pat" and "i + length pat \<le> n"
proof -
  have fit: "i + length pat \<le> n"
    using mm.search_fits [OF assms(1)] assms(2) by simp
  have "take (length pat) (drop i (take n (drop p d))) = pat"
    using mm.search_bytes [OF assms(1)] .
  moreover have "take (length pat) (drop i (take n (drop p d))) = take (length pat) (drop (p + i) d)"
    using fit by (simp add: drop_take add.commute)
  ultimately show "mem_load d (p + i) (length pat) = Some pat"
    using fit assms(2) by (simp add: mem_simps)
  show "i + length pat \<le> n" by (rule fit)
qed

lemma grep_step_in:
  assumes "p + off + sz \<le> length d"
  shows "grep_step pat (length pat) d p sz off =
    (case memmem pat (take sz (drop (p + off) d)) of
       None \<Rightarrow> Some ([], sz)
     | Some i \<Rightarrow> Some ([(off + i, pat)], off + i + length pat))"
  using match_bytes(1) [OF _ assms, of pat] pattern_search_in [OF assms, of pat]
  by (auto simp: grep_step_def add.assoc split: option.splits)

lemma grep_line_out:
  "off < sz \<Longrightarrow> length d < p + off + sz \<Longrightarrow> grep_line pat k d p sz off = None"
  by (simp add: grep_line.simps [of pat k d p sz off] grep_step_def pattern_search_out)

lemma grep_line_end: "sz \<le> off \<Longrightarrow> grep_line pat k d p sz off = Some []"
  by (simp add: grep_line.simps [of pat k d p sz off])

text \<open>
  The last search of a line starts after its last match at \<open>off\<close> and looks at \<open>sz\<close> bytes
  again, past the end of the line: what it may report from there.
\<close>

definition grep_spill :: "byte list \<Rightarrow> byte list \<Rightarrow> nat \<Rightarrow> nat \<Rightarrow> nat list" where
  "grep_spill pat text sz off =
     (if off < sz
      then case memmem pat (take sz (drop off text)) of None \<Rightarrow> [] | Some i \<Rightarrow> [off + i]
      else [])"

definition end_of_matches :: "byte list \<Rightarrow> nat list \<Rightarrow> nat" where
  "end_of_matches pat ms = (if ms = [] then 0 else last ms + length pat)"

text \<open>The searches of a line stay inside its block.\<close>

definition grep_in_block :: "byte list \<Rightarrow> byte list \<Rightarrow> nat \<Rightarrow> nat \<Rightarrow> bool" where
  "grep_in_block pat d p sz \<longleftrightarrow>
     (\<forall>m \<in> set (all_matches pat (take sz (drop p d))).
        m + length pat < sz \<longrightarrow> p + m + length pat + sz \<le> length d)"

lemma grep_window:
  assumes "off \<le> sz"
  shows "\<exists>more. take sz (drop (p + off) d) = drop off (take sz (drop p d)) @ more"
proof -
  have "drop off (take sz (drop p d)) = take (sz - off) (drop (p + off) d)"
    by (simp add: drop_take add.commute)
  moreover have "take sz (drop (p + off) d) =
      take (sz - off) (drop (p + off) d) @ take off (drop (sz - off) (drop (p + off) d))"
    using assms take_drop_add [of "sz - off" off "drop (p + off) d"] by simp
  ultimately have "take sz (drop (p + off) d) = drop off (take sz (drop p d)) @
      take off (drop (sz - off) (drop (p + off) d))"
    by (rule ssubst)
  then show ?thesis by (rule exI)
qed

lemma grep_line_search:
  assumes "off < sz" and "p + off + sz \<le> length d"
  shows "grep_line pat (length pat) d p sz off =
    (case memmem pat (take sz (drop (p + off) d)) of
       None \<Rightarrow> Some []
     | Some i \<Rightarrow> map_option ((#) (off + i, pat)) (grep_line pat (length pat) d p sz (off + i + length pat)))"
  using assms by (simp add: grep_line.simps [of pat "length pat" d p sz off] grep_step_in
      grep_line_end map_conv_bind_option o_def split: option.splits)

text \<open>A match that only the bytes behind the line complete ends behind it.\<close>

lemma match_past_line:
  assumes "memmem pat xs = None" and "memmem pat (xs @ ys) = Some i"
  shows "length xs < i + length pat"
  using mm.search_prefix [OF assms(2)] assms(1) by (metis not_le_imp_less option.distinct(1))

lemma grep_line_from:
  assumes pat: "pat \<noteq> []" and blk: "p + sz \<le> length d" and off: "off \<le> sz"
    and ms: "ms = all_matches pat (drop off (take sz (drop p d)))"
  shows "grep_line pat (length pat) d p sz off =
    (if (off < sz \<longrightarrow> p + off + sz \<le> length d) \<and>
        (\<forall>m \<in> set ms. off + m + length pat < sz \<longrightarrow> p + off + m + length pat + sz \<le> length d)
     then Some (map (\<lambda>i. (i, pat))
            (map ((+) off) ms @ grep_spill pat (drop p d) sz (off + end_of_matches pat ms)))
     else None)"
  using off ms
proof (induction "sz - off" arbitrary: off ms rule: less_induct)
  case less
  let ?line = "take sz (drop p d)" and ?win = "take sz (drop (p + off) d)"
  obtain more where win: "?win = drop off ?line @ more"
    using grep_window [OF less.prems(1)] by blast
  have len: "length (drop off ?line) = sz - off" using blk by simp
  consider "sz = off" | "off < sz" "length d < p + off + sz"
    | "off < sz" "p + off + sz \<le> length d" using less.prems(1) by linarith
  then show ?case
  proof cases
    case 1
    then have "ms = []"
      using less.prems(2) len pat by (simp add: all_matches_None mm.search_None occurs_at_def)
    with 1 show ?thesis by (simp add: grep_line_end grep_spill_def end_of_matches_def)
  next
    case 2
    then show ?thesis by (simp add: grep_line_out)
  next
    case 3
    note step = grep_line_search [OF 3, of pat]
    show ?thesis
    proof (cases "memmem pat (drop off ?line)")
      case None
      then have empty: "ms = []" using less.prems(2) by (simp add: all_matches_None)
      have past: "sz < off + i + length pat" if "memmem pat ?win = Some i" for i
        using match_past_line [OF None that [unfolded win]] len by simp
      show ?thesis
        using 3 step empty past
        by (auto simp: grep_spill_def end_of_matches_def grep_line_end add.commute
            split: option.splits)
    next
      case (Some i)
      let ?off = "off + i + length pat"
      let ?ms = "all_matches pat (drop ?off ?line)"
      have fits: "?off \<le> sz" using mm.search_fits [OF Some] len less.prems(1) by linarith
      have "memmem pat ?win = Some i" unfolding win using Some by (rule mm.search_append)
      then have rec: "grep_line pat (length pat) d p sz off =
          map_option ((#) (off + i, pat)) (grep_line pat (length pat) d p sz ?off)"
        using step by simp
      have ms: "ms = i # map ((+) (i + length pat)) ?ms"
        using less.prems(2) Some pat by (simp add: all_matches_Some add.commute add.left_commute)
      have e: "off + end_of_matches pat ms = ?off + end_of_matches pat ?ms"
        by (simp add: ms end_of_matches_def last_map)
      have "sz - ?off < sz - off" using 3(1) pat by (cases pat) auto
      from less.hyps [OF this fits refl] show ?thesis
        unfolding rec e using 3 fits by (auto simp: ms add.assoc o_def)
    qed
  qed
qed

lemma grep_line_whole:
  assumes "pat \<noteq> []" and "p + sz \<le> length d" and "ms = all_matches pat (take sz (drop p d))"
  shows "grep_line pat (length pat) d p sz 0 =
    (if grep_in_block pat d p sz
     then Some (map (\<lambda>i. (i, pat)) (ms @
            (if ms = [] then [] else grep_spill pat (drop p d) sz (end_of_matches pat ms))))
     else None)"
proof -
  have "grep_spill pat (drop p d) sz 0 = []" if "ms = []"
    using that assms(1,3) by (simp add: grep_spill_def all_matches_empty_iff)
  then show ?thesis
    using grep_line_from [OF assms(1,2), of 0 ms] assms(2,3)
    by (auto simp: grep_in_block_def end_of_matches_def)
qed

section \<open>All lines\<close>

text \<open>What may be reported for a line: its matches and, only if it has one and the last does
  not end the line, at most one more hit that does not lie in the line.\<close>

definition line_hits :: "byte list \<Rightarrow> byte list \<Rightarrow> nat list \<Rightarrow> bool" where
  "line_hits pat line hs \<longleftrightarrow>
     (let ms = all_matches pat line; extra = drop (length ms) hs in
        take (length ms) hs = ms \<and> length extra \<le> 1 \<and> (ms = [] \<longrightarrow> extra = []) \<and>
        (extra \<noteq> [] \<longrightarrow> last ms + length pat < length line) \<and>
        list_all (\<lambda>i. length line < i + length pat) extra)"

definition number_hits :: "byte list \<Rightarrow> nat \<Rightarrow> nat list list \<Rightarrow> hit list" where
  "number_hits pat n hss =
     concat (map (\<lambda>(k, hs). map (\<lambda>i. (k, i, pat)) hs) (List.enumerate n hss))"

lemma number_hits_simps [simp]:
  "number_hits pat n [] = []"
  "number_hits pat n (hs # hss) = map (\<lambda>i. (n, i, pat)) hs @ number_hits pat (Suc n) hss"
  by (simp_all add: number_hits_def)

lemma spill_outside:
  assumes "p + sz \<le> length d" and "ms = all_matches pat (take sz (drop p d))" and "pat \<noteq> []"
    and "ms \<noteq> []" and "i \<in> set (grep_spill pat (drop p d) sz (end_of_matches pat ms))"
  shows "sz < i + length pat"
proof -
  let ?line = "take sz (drop p d)" and ?e = "end_of_matches pat ms"
  have e: "?e \<le> sz"
    using all_matches_occur [of "last ms" pat ?line] assms(1,2,4)
    by (auto simp: end_of_matches_def occurs_at_def)
  have none: "memmem pat (drop ?e ?line) = None"
    using all_matches_last_end [of pat ?line] assms(2,4) by (simp add: end_of_matches_def)
  obtain j where j: "memmem pat (take sz (drop (p + ?e) d)) = Some j" "i = ?e + j"
    using assms(5) that
    by (cases "?e < sz"; cases "memmem pat (take sz (drop (p + ?e) d))")
      (simp_all add: grep_spill_def add.commute [of p])
  obtain more where "take sz (drop (p + ?e) d) = drop ?e ?line @ more"
    using grep_window [OF e] by blast
  then have "length (drop ?e ?line) < j + length pat"
    using j(1) none mm.search_prefix [of pat "drop ?e ?line" more j] by fastforce
  then show ?thesis using j(2) assms(1) e by simp
qed

lemma grep_line_hits:
  assumes "pat \<noteq> []" and "p + sz \<le> length d" and "grep_in_block pat d p sz"
  shows "\<exists>hs. grep_line pat (length pat) d p sz 0 = Some (map (\<lambda>i. (i, pat)) hs) \<and>
    line_hits pat (take sz (drop p d)) hs"
proof -
  define ms where "ms = all_matches pat (take sz (drop p d))"
  let ?extra = "if ms = [] then [] else grep_spill pat (drop p d) sz (end_of_matches pat ms)"
  have "list_all (\<lambda>i. sz < i + length pat) ?extra"
    using spill_outside [OF assms(2) ms_def assms(1)] by (simp add: list_all_iff)
  moreover have "length ?extra \<le> 1"
    by (simp add: grep_spill_def split: option.splits)
  moreover have "?extra \<noteq> [] \<longrightarrow> last ms + length pat < sz"
    by (simp add: grep_spill_def end_of_matches_def)
  ultimately have "line_hits pat (take sz (drop p d)) (ms @ ?extra)"
    using assms(2) by (simp add: line_hits_def ms_def [symmetric] Let_def)
  moreover have "grep_line pat (length pat) d p sz 0 = Some (map (\<lambda>i. (i, pat)) (ms @ ?extra))"
    using grep_line_whole [OF assms(1,2) ms_def] assms(3) by simp
  ultimately show ?thesis by blast
qed

lemma slack_in_block:
  assumes "p + 2 * sz \<le> length d"
  shows "grep_in_block pat d p sz"
  using assms by (auto simp: grep_in_block_def)

lemma grep_stream_step:
  assumes "pat \<noteq> []" and "linestream__next (Some ls) s = Some (StrOk str, Some ls1, s1)"
    and "ls_bytes ls1 str = Some line" and "ls_has_slack ls1 str"
  shows "\<exists>hs. line_hits pat line hs \<and>
    grep_stream pat (length pat) (Some ls) s n =
      map_option (\<lambda>(more, r). (map (\<lambda>i. (n + 1, i, pat)) hs @ more, r))
        (grep_stream pat (length pat) (Some ls1) s1 (n + 1))"
proof -
  obtain rb q where rb: "read_buffer ls1 = Some rb" "ls_cursor str = Some q"
    "q + 2 * unat (ls_size str) \<le> length (rb_block rb)"
    using assms(4) by (auto simp: ls_has_slack_def)
  then have line: "line = take (unat (ls_size str)) (drop q (rb_block rb))"
    using assms(3) by (simp add: ls_bytes_def mem_load_def split: if_splits)
  obtain hs where hs: "line_hits pat line hs"
    "grep_line pat (length pat) (rb_block rb) q (unat (ls_size str)) 0 =
       Some (map (\<lambda>i. (i, pat)) hs)"
    using grep_line_hits [OF assms(1) _ slack_in_block [OF rb(3)]] rb(3) line by auto
  have "grep_stream pat (length pat) (Some ls) s n =
      map_option (\<lambda>(more, r). (map (\<lambda>i. (n + 1, i, pat)) hs @ more, r))
        (grep_stream pat (length pat) (Some ls1) s1 (n + 1))"
    using assms(2) rb(1,2) hs(2)
    by (simp add: grep_stream.simps [of pat "length pat" "Some ls" s n] map_conv_bind_option
        o_def split_def)
  with hs(1) show ?thesis by blast
qed

lemma grep_stream_outcome:
  assumes pat: "pat \<noteq> []" and T: "2 * T \<le> unat READ_BUFFERING_SIZE"
    and "ls_inv ls" and "ls_no_faults ls s" and "ls_small T ls s"
  shows "\<exists>hss e ls' s'.
    grep_stream pat (length pat) (Some ls) s n = Some (number_hits pat (n + 1) hss, e, Some ls', s') \<and>
    list_all2 (line_hits pat) (lines_of (ls_content ls s)) hss \<and>
    ls_code e = LS_ERR_EOF \<and> live s' - ls_owned ls' = live s - ls_owned ls"
  using assms(3-5)
proof (induction "length (ls_content ls s)" arbitrary: ls s n rule: less_induct)
  case less
  obtain r ls1 s1 where nx: "linestream__next (Some ls) s = Some (r, Some ls1, s1)" "ls_inv ls1"
    "ls_next_post (ls_content ls s) r ls1 s1" "live s1 - ls_owned ls1 = live s - ls_owned ls"
    "mallocs_ok s \<longrightarrow> mallocs_ok s1" "reads_ok s \<longrightarrow> reads_ok s1"
    "\<forall>e. r = StrErr e \<longrightarrow> ls_code e = LS_ERR_EOF"
    using next_outcome [OF less.prems(1), of s] less.prems(2) by blast
  show ?case
  proof (cases r)
    case (StrErr e)
    then have "grep_stream pat (length pat) (Some ls) s n = Some ([], e, Some ls1, s1)"
      "ls_content ls s = []"
      using nx by (auto simp: grep_stream.simps [of pat "length pat" "Some ls" s n] ls_next_post_def)
    then show ?thesis using StrErr nx
      by (intro exI [of _ "[]"] exI [of _ e] exI [of _ ls1] exI [of _ s1]) simp
  next
    case (StrOk str)
    let ?c = "ls_content ls s" and ?line = "takeWhile (\<lambda>b. b \<noteq> NL) (ls_content ls s)"
    have line: "?c \<noteq> []" "ls_bytes ls1 str = Some ?line"
      "ls_content ls1 s1 = drop (length ?line + 1) ?c"
      using nx(3) StrOk by (simp_all add: ls_next_post_def)
    have sm: "ls_small T ls1 s1" "ls_has_slack ls1 str"
      using next_small [OF less.prems(1,3) T] nx(1) StrOk by simp_all
    have dec: "length (ls_content ls1 s1) < length ?c" using line(1,3) by (cases ?c) auto
    have nf: "ls_no_faults ls1 s1" using less.prems(2) nx(5,6) line(3) by (auto simp: ls_no_faults_def)
    obtain hs where hs: "line_hits pat ?line hs"
      "grep_stream pat (length pat) (Some ls) s n =
        map_option (\<lambda>(more, r). (map (\<lambda>i. (n + 1, i, pat)) hs @ more, r))
          (grep_stream pat (length pat) (Some ls1) s1 (n + 1))"
      using grep_stream_step [OF pat _ line(2) sm(2), where n = n] nx(1) StrOk by blast
    obtain hss e ls' s' where ih:
      "grep_stream pat (length pat) (Some ls1) s1 (n + 1) =
         Some (number_hits pat (n + 1 + 1) hss, e, Some ls', s')"
      "list_all2 (line_hits pat) (lines_of (ls_content ls1 s1)) hss"
      "ls_code e = LS_ERR_EOF" "live s' - ls_owned ls' = live s1 - ls_owned ls1"
      using less.hyps [OF dec nx(2) nf sm(1), of "n + 1"] by blast
    show ?thesis
      using hs ih line nx(4)
      by (intro exI [of _ "hs # hss"] exI [of _ e] exI [of _ ls'] exI [of _ s'])
        (simp add: lines_of_step [OF line(1)])
  qed
qed

lemma create_small:
  assumes "linestream__create fd pg s = (StreamOk ls, s')" and "length (pending s) \<le> T"
  shows "ls_small T ls s'"
  using assms create_outcome [OF assms(1)]
  by (auto simp: linestream__create_def readbuffer__init_def ls_small_def LINESTREAM_FAILURE_def
      split: prod.splits bool.splits option.splits if_splits)

lemma strnlen_short: "length s \<le> n \<Longrightarrow> strnlen s n = length s"
  by (simp add: strnlen_def)

lemma next_read_fails:
  assumes "ls_inv ls" and "rb_view (read_buffer ls) = []" and "mallocs_ok s"
    and "reads s = ReadFails e # cs"
  shows "\<exists>ls1 s1. ls_inv ls1 \<and> linestream__next (Some ls) s =
    Some (StrErr \<lparr>ls_message = Strerror e, ls_code = LS_ERR_READ_FAILED\<rparr>, Some ls1, s1)"
proof -
  obtain rb where rb: "read_buffer ls = Some rb" "rb_inv rb"
    using assms(1) by (auto simp: ls_inv_iff)
  have len: "rb_length rb = 0"
    using assms(2) rb rb_content_length [OF rb(2)] by (simp add: unat_eq_0)
  obtain r rb1 sa where as:
    "readbuffer__assure (Some rb) READ_BUFFERING_SIZE s = Some (r, Some rb1, sa)"
    "rb_inv rb1" "ok r" "reads sa = reads s"
    using assure_outcome [OF rb(2), of READ_BUFFERING_SIZE s] assms(3) len
    by (auto simp: unat_READ_BUFFERING_SIZE)
  have scan: "ls_scan ls 0 = Some None" using rb len by (simp add: ls_scan_def)
  have "\<exists>s1. ls_fill ls s = Some (FillFailed \<lparr>ls_message = Strerror e, ls_code = LS_ERR_READ_FAILED\<rparr>,
      ls\<lparr>read_buffer := Some rb1\<rparr>, s1)"
    using rb as assms(4) by (simp add: ls_fill_def sys_read_def Let_def)
  then show ?thesis
    using as(2) scan
    by (auto simp: linestream__next_loop.simps [of ls 0 s] ls_inv_def)
qed

section \<open>Properties of the line search\<close>

text \<open>
  C36. The hits of one line. Every search after the first one starts behind a match and covers as
  many bytes as the whole line has, so it looks behind the line. If these searches stay inside the
  buffer's block, the line loop ends and reports all non-overlapping matches of the line from the
  left, and then, when there is a match and the last one does not end the line, the first place at
  which the pattern occurs in the bytes of the last search, if there is one; this hit runs past the
  end of the line. If a search leaves the block, the read is out of bounds.
\<close>

theorem grep_line_correct:
  assumes "pat \<noteq> []" and "p + sz \<le> length d"
  shows "let ms = all_matches pat (take sz (drop p d)); e = last ms + length pat;
      spill = (if ms = [] \<or> sz \<le> e then []
               else case memmem pat (take sz (drop (p + e) d)) of None \<Rightarrow> [] | Some i \<Rightarrow> [e + i])
    in (if \<exists>m \<in> set ms. m + length pat < sz \<and> length d < p + m + length pat + sz
        then grep_line pat (length pat) d p sz 0 = None
        else grep_line pat (length pat) d p sz 0 = Some (map (\<lambda>i. (i, pat)) (ms @ spill))) \<and>
       list_all (\<lambda>i. sz < i + length pat) spill"
proof -
  define ms where "ms = all_matches pat (take sz (drop p d))"
  define e where "e = last ms + length pat"
  define spill where
    "spill = (if ms = [] \<or> sz \<le> e then []
      else case memmem pat (take sz (drop (p + e) d)) of None \<Rightarrow> [] | Some i \<Rightarrow> [e + i])"
  have spill: "(if ms = [] then [] else grep_spill pat (drop p d) sz (end_of_matches pat ms)) = spill"
    by (simp add: spill_def grep_spill_def end_of_matches_def e_def [symmetric] add.commute [of e])
  have "list_all (\<lambda>i. sz < i + length pat) spill"
    using spill_outside [OF assms(2) ms_def assms(1)] unfolding spill [symmetric]
    by (simp add: list_all_iff)
  moreover have "grep_in_block pat d p sz \<longleftrightarrow>
      \<not> (\<exists>m \<in> set ms. m + length pat < sz \<and> length d < p + m + length pat + sz)"
    unfolding grep_in_block_def ms_def [symmetric] by (metis linorder_not_less)
  ultimately show ?thesis
    using grep_line_whole [OF assms ms_def, unfolded spill]
    unfolding ms_def [symmetric] e_def [symmetric] spill_def [symmetric] Let_def by simp
qed

theorem grep_line_correct_witness:
  "grep_line [98] 1 [98, 97, 98, 10, 97, 97, 97] 0 3 0 = Some [(0, [98]), (2, [98])] \<and>
   grep_line [98] 1 [98, 97, 97, 10, 98, 97] 0 3 0 = Some [(0, [98])] \<and>
   grep_line [98] 1 [98, 97, 10, 98, 97] 0 3 0 = Some [(0, [98]), (3, [98])] \<and>
   grep_line [98] 1 [98, 97, 97, 10] 0 4 0 = None"
proof -
  have m: "all_matches [98 :: byte] [98, 97, 98] = [0, 2]"
    "all_matches [98 :: byte] [98, 97, 97, 10] = [0]"
    "all_matches [98 :: byte] [98, 97, 97] = [0]"
    "all_matches [98 :: byte] [98, 97, 10] = [0]"
    by code_simp+
  have s: "memmem [98 :: byte] [97, 97, 10] = None" "memmem [98 :: byte] [97, 10, 98] = Some 2"
    by code_simp+
  show ?thesis
    using grep_line_correct [of "[98]" 0 3 "[98, 97, 98, 10, 97, 97, 97]"]
      grep_line_correct [of "[98]" 0 3 "[98, 97, 97, 10, 98, 97]"]
      grep_line_correct [of "[98]" 0 3 "[98, 97, 10, 98, 97]"]
      grep_line_correct [of "[98]" 0 4 "[98, 97, 97, 10]"] m s
    by (simp add: Let_def)
qed

text \<open>
  A false hit: when the last match of a line ends before the line does, and the pattern
  occurs in the bytes that follow within the line's length, then the line is reported once
  more, at a column where the line does not hold the pattern.
\<close>

theorem grep_line_false_hit:
  assumes "pat \<noteq> []" and "p + sz \<le> length d" and "grep_in_block pat d p sz"
    and "all_matches pat (take sz (drop p d)) = ms" and "ms \<noteq> []"
    and "last ms + length pat < sz"
    and "memmem pat (take sz (drop (last ms + length pat) (drop p d))) = Some i"
  shows "grep_line pat (length pat) d p sz 0 =
      Some (map (\<lambda>i. (i, pat)) ms @ [(last ms + length pat + i, pat)]) \<and>
    \<not> occurs_at pat (take sz (drop p d)) (last ms + length pat + i)"
proof -
  have spill: "last ms + length pat + i \<in> set (grep_spill pat (drop p d) sz (end_of_matches pat ms))"
    using assms by (simp add: grep_spill_def end_of_matches_def)
  have "\<not> occurs_at pat (take sz (drop p d)) (last ms + length pat + i)"
    using spill_outside [OF assms(2) assms(4) [symmetric] assms(1,5) spill]
    by (simp add: occurs_at_def)
  then show ?thesis
    using grep_line_whole [OF assms(1,2) assms(4) [symmetric]] assms
    by (simp add: grep_spill_def end_of_matches_def)
qed

theorem grep_line_false_hit_witness:
  "grep_line [88] 1 [97, 88, 98, 98, 10, 88] 0 4 0 = Some [(1, [88]), (5, [88])]"
proof -
  have m: "all_matches [88 :: byte] [97, 88, 98, 98] = [1]"
    by code_simp
  show ?thesis
    using grep_line_false_hit [of "[88]" 0 4 "[97, 88, 98, 98, 10, 88]" "[1]" 3] m
    by (simp add: grep_in_block_def memmem.simps)
qed

text \<open>
  The empty pattern: on a line that is not empty a round of the loop prints an empty match
  and leaves \<open>off\<close> at 0, so the loop never ends.
\<close>

theorem grep_empty_pattern_loops:
  assumes "0 < sz" and "p + sz \<le> length d"
  shows "grep_step [] 0 d p sz 0 = Some ([(0, [])], 0) \<and> grep_line [] 0 d p sz 0 = None"
proof
  show step: "grep_step [] 0 d p sz 0 = Some ([(0, [])], 0)"
    using grep_step_in [of p 0 sz d "[]"] assms by (simp add: memmem.simps)
  have "pat = [] \<longrightarrow> k = 0 \<longrightarrow> d' = d \<longrightarrow> p' = p \<longrightarrow> z = sz \<longrightarrow> off \<noteq> 0"
    if "grep_line pat k d' p' z off = Some y" for pat k d' p' z off y
    using that
    by (rule grep_line.raw_induct
        [where P = "\<lambda>pat k d' p' z off y. pat = [] \<longrightarrow> k = 0 \<longrightarrow> d' = d \<longrightarrow> p' = p \<longrightarrow> z = sz \<longrightarrow> off \<noteq> 0",
          rotated])
      (intro impI notI, use step assms(1) in \<open>fastforce split: bind_splits if_splits\<close>)
  then show "grep_line [] 0 d p sz 0 = None" by (cases "grep_line [] 0 d p sz 0") blast+
qed

theorem grep_empty_pattern_loops_witness:
  "grep_line [] 0 [97, 98] 0 2 0 = None"
  using grep_empty_pattern_loops [of 2 0 "[97, 98]"] by simp

text \<open>The program from \<open>main\<close> on, without faults.\<close>

lemma fgrep_outcome:
  assumes "3 \<le> length argv" and "argv ! 1 = pat" and "pat \<noteq> []" and "length pat \<le> 1023"
    and "mallocs_ok s" and "reads_ok s" and "length (pending s) \<le> 2 * 1024 * 1024"
  shows "\<exists>hss s'. fgrep_main strerror open_file page_size argv s =
      Some (\<lparr>out = concat (map print_hit (number_hits pat 1 hss)), diags = [], status = 0\<rparr>, s') \<and>
    list_all2 (line_hits pat) (lines_of (pending s)) hss \<and> live s' = live s"
proof -
  obtain r s1 where c: "linestream__create (open_file (argv ! 2)) page_size s = (r, s1)" by fastforce
  then obtain ls where ls: "r = StreamOk ls"
    using create_outcome [OF c] assms(5) by (cases r) auto
  have co: "ls_inv ls" "ls_content ls s1 = pending s" "live s1 - ls_owned ls = live s"
    "mallocs_ok s1" "reads_ok s1"
    using create_outcome [OF c] assms(5,6) ls by (simp_all add: ls_content_def reads_ok_def)
  have nf: "ls_no_faults ls s1"
    using co assms(7) by (simp add: ls_no_faults_def unat_READ_BUFFERING_SIZE)
  have small: "ls_small 2097152 ls s1" using create_small c ls assms(7) by simp
  obtain hss e ls' s' where g:
    "grep_stream pat (length pat) (Some ls) s1 0 = Some (number_hits pat 1 hss, e, Some ls', s')"
    "list_all2 (line_hits pat) (lines_of (pending s)) hss" "ls_code e = LS_ERR_EOF"
    "live s' - ls_owned ls' = live s"
    using grep_stream_outcome [OF assms(3) _ co(1) nf small, of 0] co(2,3)
    by (auto simp: unat_READ_BUFFERING_SIZE)
  have "strnlen pat (1 * KiB) = length pat" "\<not> length pat > 1 * KiB - 1"
    using assms(4) by (simp_all add: KiB_def strnlen_short)
  then have "fgrep_main strerror open_file page_size argv s =
      Some (\<lparr>out = concat (map print_hit (number_hits pat 1 hss)), diags = [], status = 0\<rparr>,
            linestream__destroy (Some ls') s')"
    using assms(1,2) c ls g by (simp add: fgrep_main_def stream_line_and_search_def Let_def)
  moreover have "live (linestream__destroy (Some ls') s') = live s"
    using g(4) linestream_destroy_live by simp
  ultimately show ?thesis using g(2) by blast
qed

text \<open>
  C37. The whole program on an input of at most 2 MiB, with a pattern of 1 to 1023 bytes and
  no faults: it ends with status 0 and no diagnostics, frees all memory, and prints for each
  line, in order and numbered from 1, its matches, each with its column, and at most the one
  false hit of the line. The size bound keeps every search inside the 4 MiB block; the reads
  may come in pieces of any size.
\<close>

theorem fgrep_correct:
  assumes "3 \<le> length argv" and "argv ! 1 = pat" and "pat \<noteq> []" and "length pat \<le> 1023"
    and "mallocs_ok s" and "reads_ok s" and "length (pending s) \<le> 2 * 1024 * 1024"
  shows "\<exists>hss s'. fgrep_main strerror open_file page_size argv s =
      Some (\<lparr>out = concat (map print_hit (number_hits pat 1 hss)), diags = [], status = 0\<rparr>, s') \<and>
    list_all2 (line_hits pat) (lines_of (pending s)) hss \<and> live s' = live s"
  by (rule fgrep_outcome [OF assms])

theorem fgrep_correct_witness:
  "\<exists>s'. fgrep_main (\<lambda>e. []) (\<lambda>path. 3) 4096 [[], [98], [102]]
      (example_os\<lparr>pending := [97, 98, 10, 97, 10, 98], reads := [Short 1, Short 3]\<rparr>) =
    Some (\<lparr>out = bytes_of (''1:2:b'' @ [CHR 0x0A] @ ''3:1:b'' @ [CHR 0x0A]), diags = [],
           status = 0\<rparr>, s')"
proof -
  let ?s = "example_os\<lparr>pending := [97, 98, 10, 97, 10, 98], reads := [Short 1, Short 3]\<rparr>"
  have m: "all_matches [98 :: byte] [97, 98] = [1]" "all_matches [98 :: byte] [97] = []"
    "all_matches [98 :: byte] [98] = [0]"
    by code_simp+
  have l: "lines_of [97, 98, 10, 97, 10, 98] = [[97, 98], [97], [98]]"
    by (simp add: lines_of.simps Let_def)
  obtain hss s' where r: "fgrep_main (\<lambda>e. []) (\<lambda>path. 3) 4096 [[], [98], [102]] ?s =
      Some (\<lparr>out = concat (map print_hit (number_hits [98] 1 hss)), diags = [], status = 0\<rparr>, s')"
    "list_all2 (line_hits [98]) [[97, 98], [97], [98]] hss"
    using fgrep_correct [of "[[], [98], [102]]" "[98]" ?s "\<lambda>e. []" "\<lambda>path. 3" 4096] l
    by (auto simp: example_os_def mallocs_ok_def reads_ok_def)
  have dec: "decimal (Suc 0) = ''1''" "decimal (Suc (Suc 0)) = ''2''"
    "decimal (Suc (Suc (Suc 0))) = ''3''" by code_simp+
  have "hss = [[1], [], [0]]"
    using r(2) m by (auto simp: list_all2_Cons1 line_hits_def Let_def drop_Cons' take_Cons'
        split: if_splits)
  then show ?thesis
    using r(1) dec by (simp add: print_hit_def bytes_of_def)
qed

text \<open>
  A file that cannot be read, or that \<open>open\<close> could not open, so that the first read
  fails: \<open>main\<close> prints nothing on standard output, reports the error, and exits with
  status 0 as after a search that found nothing.
\<close>

theorem fgrep_unreadable_exits_0:
  assumes "3 \<le> length argv" and "length (argv ! 1) \<le> 1023" and "mallocs_ok s"
    and "reads s = ReadFails e # cs"
  shows "\<exists>s'. fgrep_main strerror open_file page_size argv s =
    Some (\<lparr>out = [],
           diags = [Barf (''SOMETHING WENT WRONG WHILE READING.. DEETS below'' @ [CHR 0x0A]),
                    Barf (''code = 3, message = '' @ strerror e)],
           status = 0\<rparr>, s')"
proof -
  obtain r s1 where c: "linestream__create (open_file (argv ! 2)) page_size s = (r, s1)" by fastforce
  then obtain ls where ls: "r = StreamOk ls"
    using create_outcome [OF c] assms(3) by (cases r) auto
  have co: "ls_inv ls" "rb_view (read_buffer ls) = []" "mallocs_ok s1" "reads s1 = ReadFails e # cs"
    using create_outcome [OF c] assms(3,4) ls by simp_all
  obtain ls1 s2 where n: "linestream__next (Some ls) s1 =
      Some (StrErr \<lparr>ls_message = Strerror e, ls_code = LS_ERR_READ_FAILED\<rparr>, Some ls1, s2)"
    using next_read_fails [OF co] by blast
  have "strnlen (argv ! 1) (1 * KiB) = length (argv ! 1)" "\<not> length (argv ! 1) > 1 * KiB - 1"
    using assms(2) by (simp_all add: KiB_def strnlen_short)
  moreover have "decimal 3 = ''3''" by code_simp
  moreover have "grep_stream (argv ! 1) k (Some ls) s1 0 =
      Some ([], \<lparr>ls_message = Strerror e, ls_code = LS_ERR_READ_FAILED\<rparr>, Some ls1, s2)" for k
    using n by (subst grep_stream.simps) (simp del: linestream__next.simps)
  ultimately show ?thesis
    using assms(1) c ls by (simp add: fgrep_main_def stream_line_and_search_def Let_def)
qed

theorem fgrep_unreadable_exits_0_witness:
  "\<exists>r s'. fgrep_main (\<lambda>e. ''Bad file descriptor'') (\<lambda>path. - 1) 4096 [[], [98], [102]]
     (example_os\<lparr>reads := [ReadFails 9]\<rparr>) = Some (r, s') \<and> status r = 0"
  using fgrep_unreadable_exits_0 [of "[[], [98], [102]]" "example_os\<lparr>reads := [ReadFails 9]\<rparr>"
      9 "[]" "\<lambda>e. ''Bad file descriptor''" "\<lambda>path. - 1" 4096]
  by (fastforce simp: example_os_def mallocs_ok_def)

section \<open>The whole-file searches\<close>

lemma no_match_short: "pat \<noteq> [] \<Longrightarrow> length hay < length pat \<Longrightarrow> all_matches pat hay = []"
  by (simp add: all_matches_None mm.search_None occurs_at_def)

lemma mmap_search_outcome:
  assumes "pat \<noteq> []" and "cur + remaining = length file"
  shows "mmap_search pat (length pat) file cur remaining =
    Some (concat (map (\<lambda>_. print_match pat) (all_matches pat (drop cur file))))"
  using assms(2)
proof (induction remaining arbitrary: cur rule: less_induct)
  case (less remaining)
  show ?case
  proof (cases "length pat \<le> remaining")
    case False
    then show ?thesis
      using less.prems assms(1) by (simp add: mmap_search.simps no_match_short)
  next
    case True
    have win: "take remaining (drop cur file) = drop cur file" using less.prems by simp
    have srch: "pattern_search pat (length pat) file cur remaining =
        Some (map_option ((+) cur) (memmem pat (drop cur file)))"
      using pattern_search_in [of cur remaining _ pat] less.prems win by simp
    show ?thesis
    proof (cases "memmem pat (drop cur file)")
      case None
      then show ?thesis
        using True srch by (simp add: mmap_search.simps [of pat _ "file" cur] all_matches_None)
    next
      case (Some i)
      have b: "mem_load file (cur + i) (length pat) = Some pat" "i + length pat \<le> remaining"
        using match_bytes [where d = "file" and p = cur and n = remaining] Some win less.prems by simp_all
      have "remaining - (i + length pat) < remaining" using b(2) assms(1) by (cases pat) auto
      then have "mmap_search pat (length pat) file (cur + (i + length pat)) (remaining - (i + length pat)) =
          Some (concat (map (\<lambda>_. print_match pat) (all_matches pat (drop (cur + (i + length pat)) file))))"
        using less.IH less.prems b(2) by simp
      moreover have "all_matches pat (drop cur file) = i # map ((+) (i + length pat))
          (all_matches pat (drop (cur + (i + length pat)) file))"
        using all_matches_Some [OF assms(1) Some] by (simp add: add.commute)
      ultimately show ?thesis
        using True srch Some b(1)
        by (simp add: mmap_search.simps [of pat _ "file" cur] o_def)
    qed
  qed
qed

definition chunk_data :: "byte list \<Rightarrow> running_buffer \<Rightarrow> byte list" where
  "chunk_data buf chunk =
     (case chunk_cursor chunk of
        None \<Rightarrow> [] | Some cur \<Rightarrow> take (chunk_len chunk) (drop cur buf))"

definition chunk_inv :: "byte list \<Rightarrow> running_buffer \<Rightarrow> bool" where
  "chunk_inv buf chunk \<longleftrightarrow>
     length buf = buf_len \<and>
     (case chunk_cursor chunk of
        None \<Rightarrow> chunk_len chunk = 0 | Some cur \<Rightarrow> cur + chunk_len chunk \<le> buf_len)"

lemma chunk_data_length: "chunk_inv buf chunk \<Longrightarrow> length (chunk_data buf chunk) = chunk_len chunk"
  by (auto simp: chunk_inv_def chunk_data_def split: option.splits)

text \<open>A search round prints the first match, or drops what cannot start one.\<close>

lemma no_match_before_end:
  assumes "memmem pat xs = None" and "pat \<noteq> []" and "length pat \<le> length xs"
  shows "length (all_matches pat (xs @ ys)) =
    length (all_matches pat (drop (length xs - length pat + 1) xs @ ys))"
proof -
  let ?k = "length xs - length pat + 1"
  have k: "?k \<le> length xs" using assms(2,3) by (cases pat) auto
  have "\<not> occurs_at pat (xs @ ys) j" if "j < ?k" for j
  proof
    assume "occurs_at pat (xs @ ys) j"
    moreover have "j + length pat \<le> length xs" using that assms(3) by linarith
    ultimately have "occurs_at pat xs j" using mm.occurs_append_inside by blast
    then show False using assms(1) mm.search_None by blast
  qed
  then show ?thesis using all_matches_skip [of ?k pat "xs @ ys"] k by simp
qed

lemma chunk_search_outcome:
  assumes "pat \<noteq> []" and inv: "chunk_inv buf chunk" and len: "length pat \<le> chunk_len chunk"
  shows "\<exists>chunk' k. chunk_search pat (length pat) buf chunk =
      Some (Searched (concat (replicate k (print_match pat))) chunk') \<and>
    chunk_inv buf chunk' \<and> chunk_len chunk' < chunk_len chunk \<and>
    (\<forall>more. length (all_matches pat (chunk_data buf chunk @ more)) =
       k + length (all_matches pat (chunk_data buf chunk' @ more)))"
proof -
  obtain cur where cur: "chunk_cursor chunk = Some cur" "cur + chunk_len chunk \<le> length buf"
    using inv len assms(1) by (auto simp: chunk_inv_def split: option.splits)
  let ?n = "chunk_len chunk" and ?data = "chunk_data buf chunk"
  have data: "?data = take ?n (drop cur buf)" "length ?data = ?n"
    using cur chunk_data_length [OF inv] by (simp_all add: chunk_data_def)
  have srch: "pattern_search pat (length pat) buf cur ?n = Some (map_option ((+) cur) (memmem pat ?data))"
    using pattern_search_in [OF cur(2)] data(1) by simp
  show ?thesis
  proof (cases "memmem pat ?data")
    case None
    let ?k = "?n - length pat + 1"
    let ?chunk = "\<lparr>chunk_cursor = Some (cur + ?n - length pat + 1), chunk_len = length pat - 1\<rparr>"
    have res: "chunk_search pat (length pat) buf chunk = Some (Searched [] ?chunk)"
      using cur(1) srch None len assms(1)
      by (cases pat; cases chunk) (simp_all add: chunk_search_def Let_def)
    have k: "?k \<le> ?n" using len assms(1) by (cases pat) auto
    have drp: "chunk_data buf ?chunk = drop ?k ?data"
      using len assms(1) k unfolding data(1)
      by (cases pat) (simp_all add: chunk_data_def drop_take add.commute)
    have "length (all_matches pat (?data @ more)) = length (all_matches pat (drop ?k ?data @ more))"
      for more using no_match_before_end [OF None assms(1)] len data(2) by simp
    then show ?thesis
      using res inv cur(1) len assms(1) drp
      by (intro exI [of _ ?chunk] exI [of _ 0])
        (cases pat, auto simp: chunk_inv_def)
  next
    case (Some i)
    have b: "mem_load buf (cur + i) (length pat) = Some pat" "i + length pat \<le> ?n"
      using match_bytes [where d = buf and p = cur and n = ?n] Some data(1) cur(2) by simp_all
    let ?chunk = "\<lparr>chunk_cursor = Some (cur + i + length pat), chunk_len = ?n - (i + length pat)\<rparr>"
    have res: "chunk_search pat (length pat) buf chunk = Some (Searched (print_match pat) ?chunk)"
      using cur(1) srch Some b by (cases chunk) (simp add: chunk_search_def Let_def)
    have drp: "chunk_data buf ?chunk = drop (i + length pat) ?data"
      unfolding data(1) by (simp add: chunk_data_def drop_take add.commute add.left_commute)
    have "length (all_matches pat (?data @ more)) =
        1 + length (all_matches pat (drop (i + length pat) ?data @ more))" for more
      using all_matches_Some [OF assms(1) mm.search_append [OF Some]] b(2) data(2) by simp
    then show ?thesis
      using res inv cur(1) b(2) drp assms(1) len
      by (intro exI [of _ ?chunk] exI [of _ 1]) (cases pat, auto simp: chunk_inv_def)
  qed
qed

text \<open>A refill keeps the bytes at hand and adds what was read; it always fits the buffer.\<close>

lemma chunk_refill_outcome:
  assumes inv: "chunk_inv buf chunk" and len: "chunk_len chunk < 1 * KiB"
    and rd: "sys_read bytes_to_read s = (r, s1)"
  shows "case r of
      Inl e \<Rightarrow> chunk_refill buf chunk s = Some (Failed e s1)
    | Inr bs \<Rightarrow> if bs = [] then chunk_refill buf chunk s = Some (Finished s1)
        else \<exists>buf' chunk'. chunk_refill buf chunk s = Some (Refilled buf' chunk' s1) \<and>
          chunk_inv buf' chunk' \<and> chunk_data buf' chunk' = chunk_data buf chunk @ bs \<and>
          chunk_len chunk' = chunk_len chunk + length bs"
proof -
  let ?n = "chunk_len chunk" and ?data = "chunk_data buf chunk"
  have n: "?n \<le> buf_len" and lb: "length buf = buf_len"
    using inv by (auto simp: chunk_inv_def split: option.splits)
  define buf1 where "buf1 = ?data @ drop ?n buf"
  have mv: "(case chunk_cursor chunk of None \<Rightarrow> if ?n = 0 then Some buf else None
      | Some cur \<Rightarrow> mem_move buf 0 cur ?n) = Some buf1"
    using inv n lb
    by (auto simp: chunk_inv_def chunk_data_def buf1_def mem_simps split: option.splits)
  have l1: "length buf1 = buf_len" "take ?n buf1 = ?data"
    using chunk_data_length [OF inv] n lb by (simp_all add: buf1_def)
  show ?thesis
  proof (cases r)
    case (Inl e)
    then show ?thesis using mv rd by (simp add: chunk_refill_def Let_def)
  next
    case (Inr bs)
    show ?thesis
    proof (cases "bs = []")
      case True
      with Inr show ?thesis using mv rd by (simp add: chunk_refill_def Let_def)
    next
      case False
      have "length bs \<le> bytes_to_read" using Inr rd inp.read_bound by fastforce
      then have fit: "?n + length bs \<le> buf_len" using len by (simp add: buf_len_def)
      let ?chunk = "\<lparr>chunk_cursor = Some 0, chunk_len = ?n + length bs\<rparr>"
      have "chunk\<lparr>chunk_cursor := Some 0, chunk_len := ?n + length bs\<rparr> = ?chunk"
        by (cases chunk) simp
      then have "chunk_refill buf chunk s =
          Some (Refilled (?data @ bs @ drop (?n + length bs) buf1) ?chunk s1)"
        using Inr False mv rd fit l1
        by (simp add: chunk_refill_def Let_def mem_simps)
      then show ?thesis
        using Inr False fit l1 chunk_data_length [OF inv] by (auto simp: chunk_inv_def chunk_data_def)
    qed
  qed
qed

text \<open>What the loop has printed: only matches of the file, and without a failed read all of them.\<close>

definition chunk_post :: "byte list \<Rightarrow> byte list \<Rightarrow> running_buffer \<Rightarrow> os \<Rightarrow>
    (byte list \<times> errno option \<times> os) option \<Rightarrow> bool" where
  "chunk_post pat buf chunk s r \<longleftrightarrow>
     (\<exists>k e s'. r = Some (concat (replicate k (print_match pat)), e, s') \<and>
        live s' = live s \<and> (reads_ok s \<longrightarrow> e = None) \<and>
        k \<le> length (all_matches pat (chunk_data buf chunk @ pending s)) \<and>
        (e = None \<longrightarrow> k = length (all_matches pat (chunk_data buf chunk @ pending s))))"

lemma chunk_loop_search:
  assumes pat: "pat \<noteq> []" and inv: "chunk_inv buf chunk" and len: "length pat \<le> chunk_len chunk"
    and rest: "\<And>chunk'. chunk_inv buf chunk' \<Longrightarrow> chunk_len chunk' < chunk_len chunk \<Longrightarrow>
      chunk_post pat buf chunk' s (chunk_loop pat (length pat) buf chunk' s)"
  shows "chunk_post pat buf chunk s (chunk_loop pat (length pat) buf chunk s)"
proof -
  obtain chunk' k where c: "chunk_search pat (length pat) buf chunk =
      Some (Searched (concat (replicate k (print_match pat))) chunk')"
    "chunk_inv buf chunk'" "chunk_len chunk' < chunk_len chunk"
    "length (all_matches pat (chunk_data buf chunk @ pending s)) =
       k + length (all_matches pat (chunk_data buf chunk' @ pending s))"
    using chunk_search_outcome [OF pat inv len] by blast
  obtain j e s' where ih: "chunk_loop pat (length pat) buf chunk' s =
      Some (concat (replicate j (print_match pat)), e, s')"
    "live s' = live s" "reads_ok s \<longrightarrow> e = None"
    "j \<le> length (all_matches pat (chunk_data buf chunk' @ pending s))"
    "e = None \<longrightarrow> j = length (all_matches pat (chunk_data buf chunk' @ pending s))"
    using rest [OF c(2,3)] unfolding chunk_post_def by blast
  show ?thesis
    unfolding chunk_post_def using len c ih
    by (intro exI [of _ "k + j"] exI [of _ e] exI [of _ s'])
      (simp add: chunk_loop.simps [of pat _ buf chunk s] replicate_add)
qed

lemma chunk_loop_refill:
  assumes pat: "pat \<noteq> []" "length pat \<le> 1 * KiB" and inv: "chunk_inv buf chunk" and len: "chunk_len chunk < length pat"
    and rest: "\<And>buf' chunk' s1. chunk_inv buf' chunk' \<Longrightarrow>
      2 * length (pending s1) + chunk_len chunk' < 2 * length (pending s) + chunk_len chunk \<Longrightarrow>
      chunk_post pat buf' chunk' s1 (chunk_loop pat (length pat) buf' chunk' s1)"
  shows "chunk_post pat buf chunk s (chunk_loop pat (length pat) buf chunk s)"
proof -
  obtain r s1 where rd: "sys_read bytes_to_read s = (r, s1)" by fastforce
  have small: "chunk_len chunk < 1 * KiB" using len pat(2) by simp
  have lv: "live s1 = live s" using sys_read_frame [OF rd] by simp
  have rok: "reads_ok s \<longrightarrow> reads_ok s1 \<and> (\<exists>bs. r = Inr bs)" using sys_read_reads_ok [OF _ rd] by blast
  note ref = chunk_refill_outcome [OF inv small rd] and run = chunk_loop.simps [of pat _ buf chunk s]
  consider (failed) e where "r = Inl e" | (ended) "r = Inr []" | (filled) bs where "r = Inr bs" "bs \<noteq> []"
    by (cases r) auto
  then show ?thesis
  proof cases
    case (failed e)
    then show ?thesis
      unfolding chunk_post_def using ref len lv rok
      by (intro exI [of _ 0] exI [of _ "Some e"] exI [of _ s1]) (simp add: run)
  next
    case ended
    then have "pending s = []"
      using rd inp.read_eof [of bytes_to_read s s1] by (simp add: bytes_to_read_def)
    then have "all_matches pat (chunk_data buf chunk @ pending s) = []"
      using no_match_short [OF pat(1)] chunk_data_length [OF inv] len by simp
    then show ?thesis
      unfolding chunk_post_def using ended ref len lv
      by (intro exI [of _ 0] exI [of _ None] exI [of _ s1]) (simp add: run)
  next
    case (filled bs)
    have pend: "pending s = bs @ pending s1" using rd filled(1) inp.read_content by blast
    obtain buf' chunk' where c: "chunk_refill buf chunk s = Some (Refilled buf' chunk' s1)"
      "chunk_inv buf' chunk'" "chunk_data buf' chunk' = chunk_data buf chunk @ bs"
      "chunk_len chunk' = chunk_len chunk + length bs"
      using ref filled by auto
    have "2 * length (pending s1) + chunk_len chunk' < 2 * length (pending s) + chunk_len chunk"
      using c(4) pend filled(2) by (cases bs) simp_all
    note post = rest [OF c(2) this]
    have "chunk_loop pat (length pat) buf chunk s = chunk_loop pat (length pat) buf' chunk' s1"
      using len c(1) by (simp add: run)
    then show ?thesis
      using post c(3) pend lv rok by (auto simp: chunk_post_def)
  qed
qed

lemma chunk_loop_outcome:
  assumes pat: "pat \<noteq> []" "length pat \<le> 1 * KiB"
  shows "chunk_inv buf chunk \<Longrightarrow> chunk_post pat buf chunk s (chunk_loop pat (length pat) buf chunk s)"
proof (induction "2 * length (pending s) + chunk_len chunk" arbitrary: buf chunk s rule: less_induct)
  case less
  then show ?case
    using chunk_loop_search [OF pat(1) less.prems] chunk_loop_refill [OF pat less.prems]
    by (cases "length pat \<le> chunk_len chunk") simp_all
qed

lemma read_and_search_outcome:
  assumes "pat \<noteq> []" and "length pat \<le> 1023" and "malloc (of_nat buf_len) s = (Some buf, s1)"
  shows "\<exists>k (e :: errno option) s'. read_and_search pat s =
      Some (\<lparr>out = concat (replicate k (print_match pat)),
             diags = (if e = None then [] else [Perror ''read()'']),
             status = (if e = None then 0 else 1)\<rparr>, s') \<and>
    live s' = live s \<and> (reads_ok s \<longrightarrow> e = None) \<and>
    k \<le> length (all_matches pat (pending s)) \<and>
    (e = None \<longrightarrow> k = length (all_matches pat (pending s)))"
proof -
  let ?chunk = "\<lparr>chunk_cursor = None, chunk_len = 0\<rparr>"
  have len: "length buf = buf_len" and lv: "live s1 = live s + 1"
    using malloc_Some [OF assms(3)]
    by (simp_all add: unat_of_nat_size buf_len_def bytes_to_read_def KiB_def)
  have fr: "pending s1 = pending s" "reads_ok s \<longrightarrow> reads_ok s1"
    using malloc_frame [OF assms(3)] malloc_reads_ok [OF _ assms(3)] by auto
  have z: "mem_store buf 0 (replicate buf_len 0) = Some (replicate buf_len 0)"
    using len by (simp add: mem_simps)
  have inv: "chunk_inv (replicate buf_len 0) ?chunk" by (simp add: chunk_inv_def)
  obtain k e s2 where l: "chunk_loop pat (length pat) (replicate buf_len 0) ?chunk s1 =
      Some (concat (replicate k (print_match pat)), e, s2)" "live s2 = live s1"
    "reads_ok s1 \<longrightarrow> e = None" "k \<le> length (all_matches pat (pending s))"
    "e = None \<longrightarrow> k = length (all_matches pat (pending s))"
    using chunk_loop_outcome [OF assms(1) _ inv, of s1, unfolded chunk_post_def] assms(2) fr(1)
    by (auto simp: chunk_data_def KiB_def)
  have "strnlen pat (1 * KiB) = length pat" "\<not> length pat > 1 * KiB - 1"
    using assms(2) by (simp_all add: KiB_def strnlen_short)
  then have "read_and_search pat s =
      Some (\<lparr>out = concat (replicate k (print_match pat)),
             diags = (if e = None then [] else [Perror ''read()'']),
             status = (if e = None then 0 else 1)\<rparr>, c_free (Some buf) s2)"
    using assms(3) l(1) z by (cases e) (simp_all add: read_and_search_def Let_def)
  moreover have "live (c_free (Some buf) s2) = live s" using l(2) lv by simp
  moreover have "reads_ok s \<longrightarrow> e = None" using l(3) fr(2) by blast
  ultimately show ?thesis using l(4,5) by - (rule exI conjI | assumption)+
qed

text \<open>
  C4. \<open>read_and_search\<close>, for a pattern of 1 to 1023 bytes: if its buffer is allocated, it
  always ends without leaving the buffer and frees it; it prints one line per non-overlapping
  match of the whole input from the left, also for matches that lie across two reads, however
  the reads are cut; after a read error it has printed a part of these and exits with
  status 1. If the allocation fails it writes through NULL.
\<close>

theorem read_and_search_correct:
  assumes "pat \<noteq> []" and "length pat \<le> 1023"
  shows "case malloc (of_nat buf_len) s of
      (None, s1) \<Rightarrow> read_and_search pat s = None
    | (Some buf, s1) \<Rightarrow>
        \<exists>k (e :: errno option) s'. read_and_search pat s =
            Some (\<lparr>out = concat (replicate k (print_match pat)),
                   diags = (if e = None then [] else [Perror ''read()'']),
                   status = (if e = None then 0 else 1)\<rparr>, s') \<and>
          live s' = live s \<and> (reads_ok s \<longrightarrow> e = None) \<and>
          k \<le> length (all_matches pat (pending s)) \<and>
          (e = None \<longrightarrow> k = length (all_matches pat (pending s)))"
proof -
  obtain b s1 where m: "malloc (of_nat buf_len) s = (b, s1)" by fastforce
  show ?thesis
  proof (cases b)
    case None
    then have "read_and_search pat s = None"
      using m assms(2) by (simp add: read_and_search_def KiB_def strnlen_short)
    with None m show ?thesis by simp
  next
    case (Some buf)
    with read_and_search_outcome [OF assms, of s buf s1] m show ?thesis by simp
  qed
qed

theorem read_and_search_correct_witness:
  "\<exists>s'. read_and_search [98, 98] (example_os\<lparr>pending := [97, 98, 98, 98, 98], reads := [Short 2]\<rparr>) =
      Some (\<lparr>out = [98, 98, 10, 98, 98, 10], diags = [], status = 0\<rparr>, s') \<and> live s' = 0"
proof -
  let ?s = "example_os\<lparr>pending := [97, 98, 98, 98, 98], reads := [Short 2]\<rparr>"
  obtain buf s1 where m: "malloc (of_nat buf_len) ?s = (Some buf, s1)"
    by (simp add: malloc_def alloc_object_def example_os_def)
  have a: "all_matches [98 :: byte, 98] [97, 98, 98, 98, 98] = [1, 3]" by code_simp
  obtain s' where r: "read_and_search [98, 98] ?s =
      Some (\<lparr>out = print_match [98, 98] @ print_match [98, 98], diags = [], status = 0\<rparr>, s')"
    "live s' = 0"
    using read_and_search_correct [of "[98, 98]" ?s] m a
    by (auto simp: reads_ok_def example_os_def)
  show ?thesis using r by (simp add: print_match_def)
qed

text \<open>
  C22. The two whole-file searches agree: on a file that can be read, mapped and whose buffer
  can be allocated, with a pattern of at most 1023 bytes that is not empty, \<open>read_and_search\<close>
  and \<open>read_and_search_mmap\<close> end with the same output and status, which is one line per
  non-overlapping match of the file.
\<close>

theorem searches_agree:
  assumes "pat \<noteq> []" and "length pat \<le> 1023" and "mallocs_ok s" and "reads_ok s"
    and "map_file (length (pending s)) = Some (pending s)"
  shows "\<exists>r s'. read_and_search pat s = Some (r, s') \<and>
    read_and_search_mmap (Inr (length (pending s))) map_file pat = Some r \<and>
    out r = concat (map (\<lambda>_. print_match pat) (all_matches pat (pending s))) \<and> status r = 0"
proof -
  obtain b s1 where "malloc (of_nat buf_len) s = (b, s1)" by fastforce
  then obtain buf where m: "malloc (of_nat buf_len) s = (Some buf, s1)"
    using malloc_ok [OF assms(3)] by fastforce
  let ?r = "\<lparr>out = concat (map (\<lambda>_. print_match pat) (all_matches pat (pending s))),
             diags = [], status = 0\<rparr>"
  obtain s' where one: "read_and_search pat s = Some (?r, s')"
    using read_and_search_outcome [OF assms(1,2) m] assms(4) by (auto simp: map_replicate_const)
  have "strnlen pat (1 * KiB) = length pat" "\<not> length pat > 1 * KiB - 1"
    using assms(2) by (simp_all add: KiB_def strnlen_short)
  then have "read_and_search_mmap (Inr (length (pending s))) map_file pat = Some ?r"
    using mmap_search_outcome [OF assms(1), of 0 "length (pending s)" "pending s"] assms(1,5)
    by (auto simp: read_and_search_mmap_def Let_def no_match_short)
  with one show ?thesis by auto
qed

theorem searches_agree_witness:
  "\<exists>r s'. read_and_search [98] (example_os\<lparr>pending := [98, 97]\<rparr>) = Some (r, s') \<and>
     read_and_search_mmap (Inr 2) (\<lambda>n. Some [98, 97]) [98] = Some r"
  using searches_agree [of "[98]" "example_os\<lparr>pending := [98, 97]\<rparr>" "\<lambda>n. Some [98, 97]"]
  by (fastforce simp: example_os_def mallocs_ok_def reads_ok_def numeral_2_eq_2)

end
