(* ===== verification/Cat.thy ===== *)
theory Cat
  imports Posix CText
begin

text \<open>
  \<open>cat/cat.c\<close>: copying one descriptor to standard output through a page buffer. The result of
  \<open>write\<close> is not looked at, so what arrives depends on how much each call accepts.
\<close>

section \<open>The model\<close>

definition PAGE_SIZE :: nat where
  "PAGE_SIZE = 4096"

text \<open>Where a run of \<open>main\<close> ends: diagnostics, exit status, and the state of the system.\<close>

function cat_loop :: "os \<Rightarrow> diag list \<times> int \<times> os" where
  "cat_loop s =
     (case sys_read (PAGE_SIZE - 1) s of
        (Inl e, s1) \<Rightarrow> ([Perror ''read''], 1, s1)
      | (Inr bs, s1) \<Rightarrow>
          if bs = [] then ([], 0, s1)
          else cat_loop (snd (sys_write bs s1)))"
  by pat_completeness auto
termination
proof (relation "measure (\<lambda>s. length (pending s))", goal_cases)
  case 1
  then show ?case by simp
next
  case (2 s r s1 bs)
  obtain q s2 where w: "sys_write bs s1 = (q, s2)" by fastforce
  have "length (pending s1) < length (pending s)"
    using 2 inp.read_progress [of "PAGE_SIZE - 1" s bs s1] by simp
  with w sys_write_frame [OF w] show ?case by simp
qed

declare cat_loop.simps [simp del]

text \<open>\<open>memcmp(arg, "-", 1) == 0\<close>: the first byte is a dash.\<close>

definition starts_with_dash :: "byte list \<Rightarrow> bool" where
  "starts_with_dash arg \<longleftrightarrow> (case arg of [] \<Rightarrow> False | c # _ \<Rightarrow> c = 45)"

text \<open>\<open>open_file\<close> is \<open>open(2)\<close> for reading; the input of the state is that of the descriptor
  chosen. The usage message is written with its terminating NUL.\<close>

definition cat_main :: "(byte list \<Rightarrow> int) \<Rightarrow> byte list list \<Rightarrow> os \<Rightarrow> diag list \<times> int \<times> os" where
  "cat_main open_file argv s =
     (if length argv < 2
      then ([], 1, snd (sys_write (bytes_of (''usage: ./cat <file>'' @ [CHR 0x0A]) @ [0]) s))
      else
        (let read_file_fd = (if starts_with_dash (argv ! 1) then 0 else open_file (argv ! 1)) in
         if read_file_fd = - 1 then ([Perror ''open''], 1, s)
         else cat_loop s))"

section \<open>Specification and lemmas\<close>

text \<open>No write of the schedule fails or is short, for as many bytes as one round writes.\<close>

fun takes_page :: "write_choice \<Rightarrow> bool" where
  "takes_page (Accept k) \<longleftrightarrow> PAGE_SIZE \<le> k"
| "takes_page (WriteFails e) \<longleftrightarrow> False"

definition writes_full :: "os \<Rightarrow> bool" where
  "writes_full s \<longleftrightarrow> list_all takes_page (writes s)"

lemma full_write:
  assumes "writes_full s" and "length bs \<le> PAGE_SIZE" and "sys_write bs s = (r, s')"
  shows "sink s' = sink s @ bs \<and> writes_full s'"
  using assms
  by (auto simp: sys_write_def writes_full_def Let_def split: list.splits write_choice.splits)

lemma writes_full_frame: "writes s' = writes s \<Longrightarrow> writes_full s' = writes_full s"
  by (simp add: writes_full_def)

text \<open>One round: what was read, and what the write let through.\<close>

lemma cat_round:
  assumes "sys_read (PAGE_SIZE - 1) s = (Inr bs, s1)" and "bs \<noteq> []"
  shows "cat_loop s = cat_loop (snd (sys_write bs s1))"
  using assms by (subst cat_loop.simps) simp

lemma cat_loop_outcome:
  assumes "cat_loop s = (ds, st, s')"
  shows "\<exists>copied. pending s = copied @ pending s' \<and> length (sink s') \<le> length (sink s) + length copied \<and>
    (writes_full s \<longrightarrow> sink s' = sink s @ copied) \<and>
    (st = 0 \<longleftrightarrow> ds = []) \<and> (st = 0 \<longrightarrow> pending s' = []) \<and> (reads_ok s \<longrightarrow> st = 0)"
  using assms
proof (induction s rule: cat_loop.induct)
  case (1 s)
  obtain r s1 where rd: "sys_read (PAGE_SIZE - 1) s = (r, s1)" by fastforce
  note fr = sys_read_frame [OF rd]
  show ?case
  proof (cases r)
    case (Inl e)
    then have "\<not> reads_ok s" using sys_read_reads_ok [OF _ rd] by auto
    with Inl "1.prems" rd fr inp.read_error [of "PAGE_SIZE - 1" s e s1] show ?thesis
      by (auto simp: cat_loop.simps [of s] intro!: exI [of _ "[]"])
  next
    case (Inr bs)
    have pend: "pending s = bs @ pending s1" using inp.read_content rd Inr by fastforce
    show ?thesis
    proof (cases "bs = []")
      case True
      then have "pending s = []"
        using inp.read_eof [of "PAGE_SIZE - 1" s s1] rd Inr by (simp add: PAGE_SIZE_def)
      with True Inr "1.prems" rd fr pend show ?thesis
        by (auto simp: cat_loop.simps [of s] intro!: exI [of _ "[]"])
    next
      case False
      obtain q s2 where w: "sys_write bs s1 = (q, s2)" by fastforce
      have run: "cat_loop s2 = (ds, st, s')"
        using cat_round [of s bs s1] rd Inr False "1.prems" w by simp
      obtain copied where c: "pending s2 = copied @ pending s'"
        "length (sink s') \<le> length (sink s2) + length copied"
        "writes_full s2 \<longrightarrow> sink s' = sink s2 @ copied"
        "st = 0 \<longleftrightarrow> ds = []" "st = 0 \<longrightarrow> pending s' = []" "reads_ok s2 \<longrightarrow> st = 0"
        using "1.IH" [OF rd [symmetric] Inr False] run w by auto
      have bs_len: "length bs \<le> PAGE_SIZE" using inp.read_bound rd Inr by fastforce
      obtain k where k: "k \<le> length bs" "sink s2 = sink s1 @ take k bs"
        using outp.write_prefix [OF w] by blast
      have ok: "reads_ok s \<longrightarrow> reads_ok s2"
        using sys_read_reads_ok [OF _ rd] sys_write_frame [OF w] by (auto simp: reads_ok_def)
      have full: "writes_full s \<longrightarrow> sink s2 = sink s @ bs \<and> writes_full s2"
        using full_write [OF _ bs_len w] fr writes_full_frame [of s1 s] by auto
      show ?thesis
        using c k ok full pend fr sys_write_frame [OF w]
        by (intro exI [of _ "bs @ copied"]) auto
    qed
  qed
qed

section \<open>Properties\<close>

definition example_cat :: os where
  "example_cat = \<lparr>mallocs = [], junk = (\<lambda>_. 0), live = 0, pending = [1, 2, 3],
     reads = [Short 2], sink = [], writes = []\<rparr>"

text \<open>
  C40. \<open>cat\<close> on a descriptor that can be opened always ends. It copies a prefix of the input,
  in order and unchanged, if every write takes what it is given; without read errors this is
  the whole input and the status is 0, after a read error the status is 1.
\<close>

theorem cat_copies:
  assumes "2 \<le> length argv" and "starts_with_dash (argv ! 1) \<or> open_file (argv ! 1) \<noteq> - 1"
    and "writes_full s" and "cat_main open_file argv s = (ds, st, s')"
  shows "\<exists>copied. pending s = copied @ pending s' \<and> sink s' = sink s @ copied \<and>
    (st = 0 \<longleftrightarrow> ds = []) \<and> (st = 0 \<longrightarrow> copied = pending s) \<and> (reads_ok s \<longrightarrow> st = 0)"
proof -
  have "cat_loop s = (ds, st, s')"
    using assms(1,2,4) by (auto simp: cat_main_def Let_def split: if_splits)
  from cat_loop_outcome [OF this] assms(3) show ?thesis by auto
qed

theorem cat_copies_witness:
  "\<exists>ds st s'. cat_main (\<lambda>path. 3) [[], [102]] example_cat = (ds, st, s') \<and>
     sink s' = [1, 2, 3] \<and> st = 0"
proof -
  obtain ds st s' where run: "cat_main (\<lambda>path. 3) [[], [102]] example_cat = (ds, st, s')"
    using prod_cases3 by blast
  have ok: "writes_full example_cat" "reads_ok example_cat" "pending example_cat = [1, 2, 3]"
    "sink example_cat = []"
    by (simp_all add: example_cat_def writes_full_def reads_ok_def)
  show ?thesis
    using cat_copies [OF _ _ ok(1) run] run ok(2-4) by fastforce
qed

text \<open>
  Data loss: when the input arrives in one read and standard output takes only \<open>k\<close> of its
  bytes, as a full pipe or disk does, then the rest is dropped and \<open>cat\<close> still exits with
  status 0 and no message.
\<close>

theorem cat_short_write_loses_data:
  assumes "2 \<le> length argv" and "starts_with_dash (argv ! 1) \<or> open_file (argv ! 1) \<noteq> - 1"
    and "reads s = []" and "writes s = [Accept k]"
    and "k < length (pending s)" and "length (pending s) < PAGE_SIZE"
    and "cat_main open_file argv s = (ds, st, s')"
  shows "st = 0 \<and> ds = [] \<and> pending s' = [] \<and> sink s' = sink s @ take k (pending s)"
proof -
  have loop: "cat_loop s = (ds, st, s')"
    using assms(1,2,7) by (auto simp: cat_main_def Let_def split: if_splits)
  let ?s1 = "s\<lparr>pending := []\<rparr>"
  let ?s2 = "s\<lparr>pending := [], sink := sink s @ take k (pending s), writes := []\<rparr>"
  have rd: "sys_read (PAGE_SIZE - 1) s = (Inr (pending s), ?s1)"
    using assms(3,6) by (simp add: sys_read_def deliver_def PAGE_SIZE_def Let_def)
  have "sys_write (pending s) ?s1 = (Inr k, ?s2)"
    using assms(4,5) by (simp add: sys_write_def Let_def)
  moreover have "pending s \<noteq> []" using assms(5) by auto
  ultimately have "cat_loop s = cat_loop ?s2"
    using cat_round [OF rd] by simp
  also have "\<dots> = ([], 0, ?s2)"
    using assms(3) by (subst cat_loop.simps) (simp add: sys_read_def deliver_def Let_def)
  finally show ?thesis using loop by auto
qed

theorem cat_short_write_loses_data_witness:
  "\<exists>s'. cat_main (\<lambda>path. 3) [[], [102]] (example_cat\<lparr>reads := [], writes := [Accept 1]\<rparr>) =
     ([], 0, s') \<and> sink s' = [1]"
proof -
  let ?s = "example_cat\<lparr>reads := [], writes := [Accept 1]\<rparr>"
  obtain ds st s' where run: "cat_main (\<lambda>path. 3) [[], [102]] ?s = (ds, st, s')"
    using prod_cases3 by blast
  show ?thesis
    using cat_short_write_loses_data [OF _ _ _ _ _ _ run, of 1] run
    by (simp add: example_cat_def PAGE_SIZE_def)
qed

text \<open>
  The error paths of \<open>main\<close>: without an argument it writes the usage message and a NUL
  byte to standard output, and status 1; a file that cannot be opened gives status 1 and a
  diagnostic, and nothing is written; any argument that begins with a dash is standard input.
\<close>

theorem cat_arguments:
  "cat_main open_file [] s = cat_main open_file [prog] s \<and>
   (writes s = [] \<longrightarrow> cat_main open_file [prog] s =
      ([], 1, s\<lparr>sink := sink s @ bytes_of (''usage: ./cat <file>'' @ [CHR 0x0A]) @ [0]\<rparr>)) \<and>
   (\<not> starts_with_dash path \<and> open_file path = - 1 \<longrightarrow>
      cat_main open_file (prog # path # rest) s = ([Perror ''open''], 1, s)) \<and>
   cat_main open_file (prog # (45 # name) # rest) s = cat_loop s"
  by (intro conjI impI) (simp_all add: cat_main_def sys_write_def starts_with_dash_def Let_def)

theorem cat_arguments_witness:
  "cat_main (\<lambda>path. - 1) [[99], [102]] example_cat = ([Perror ''open''], 1, example_cat) \<and>
   sink (snd (snd (cat_main (\<lambda>path. - 1) [[99]] example_cat))) =
     bytes_of (''usage: ./cat <file>'' @ [CHR 0x0A]) @ [0]"
proof -
  have "\<not> starts_with_dash [102]" "writes example_cat = []" "sink example_cat = []"
    by (simp_all add: starts_with_dash_def example_cat_def)
  then show ?thesis
    using cat_arguments [of "\<lambda>path. - 1" example_cat "[99]" "[102]" "[]" "[]"] by simp
qed

end
