(* ===== verification/Tail.thy ===== *)
theory Tail
  imports Cat "HOL-Library.Sublist"
begin

text \<open>
  \<open>tail/tail.c\<close>: following a file. A followed file is its content at the moment and the
  descriptor's offset; what \<open>read\<close> can still deliver is the content from the offset on. The
  main loop runs over the notifications that arrive, each with what the file system says then.
\<close>

section \<open>Writing everything\<close>

text \<open>The loop of \<open>defensive_write\<close>: \<open>Some e\<close> in the result is its \<open>err_exit("write")\<close>.\<close>

function write_loop :: "byte list \<Rightarrow> nat \<Rightarrow> nat \<Rightarrow> os \<Rightarrow> (errno option \<times> os) option" where
  "write_loop buf n_bytes bytes_written s =
     (if bytes_written < n_bytes then
        (case mem_load buf bytes_written (n_bytes - bytes_written) of
           None \<Rightarrow> None
         | Some bs \<Rightarrow>
             (case sys_write bs s of
                (Inl e, s1) \<Rightarrow> Some (Some e, s1)
              | (Inr res, s1) \<Rightarrow> write_loop buf n_bytes (bytes_written + res) s1))
      else Some (None, s))"
  by pat_completeness auto
termination
proof (relation "measure (\<lambda>(buf, n, w, s). (n - w) + length (writes s))", goal_cases)
  case 1
  then show ?case by simp
next
  case (2 buf n w s bs r s1 res)
  then have "length bs = n - w" by (auto dest: mem_load_SomeD)
  with 2 have "length (writes s1) \<le> length (writes s)" "res = 0 \<longrightarrow> length (writes s1) < length (writes s)"
    by (auto simp: sys_write_def Let_def split: list.splits write_choice.splits)
  with 2(1) show ?case by auto
qed

declare write_loop.simps [simp del]

definition defensive_write :: "byte list \<Rightarrow> nat \<Rightarrow> os \<Rightarrow> (errno option \<times> os) option" where
  "defensive_write buf n_bytes s = write_loop buf n_bytes 0 s"

text \<open>The same function stands in \<open>fgrep.c\<close>, which does not call it.\<close>

definition fgrep_defensive_write :: "byte list \<Rightarrow> nat \<Rightarrow> os \<Rightarrow> (errno option \<times> os) option" where
  "fgrep_defensive_write buf n_bytes s = write_loop buf n_bytes 0 s"

lemma write_loop_frame:
  "write_loop buf n w s = Some (e, s') \<Longrightarrow> pending s' = pending s \<and> reads s' = reads s"
proof (induction buf n w s rule: write_loop.induct)
  case (1 buf n w s)
  show ?case
  proof (cases "w < n")
    case True
    then obtain bs where bs: "mem_load buf w (n - w) = Some bs"
      using "1.prems" by (cases "mem_load buf w (n - w)") (simp_all add: write_loop.simps [of buf n w s])
    obtain r s1 where wr: "sys_write bs s = (r, s1)" by fastforce
    show ?thesis
      using "1.prems" "1.IH" [OF True bs wr [symmetric]] True bs wr sys_write_frame [OF wr]
      by (cases r) (simp_all add: write_loop.simps [of buf n w s])
  next
    case False
    with "1.prems" show ?thesis by (simp add: write_loop.simps [of buf n w s])
  qed
qed

section \<open>Copying to the end of the file\<close>

function write_till_eof :: "os \<Rightarrow> (diag option \<times> os) option" where
  "write_till_eof s =
     (case sys_read PAGE_SIZE s of
        (Inl e, s1) \<Rightarrow> Some (Some (Perror ''write_till_eof#read''), s1)
      | (Inr bs, s1) \<Rightarrow>
          if bs = [] then Some (None, s1)
          else
            (case defensive_write bs (length bs) s1 of
               None \<Rightarrow> None
             | Some (Some e, s2) \<Rightarrow> Some (Some (Perror ''write''), s2)
             | Some (None, s2) \<Rightarrow> write_till_eof s2))"
  by pat_completeness auto
termination
proof (relation "measure (\<lambda>s. length (pending s))", goal_cases)
  case 1
  then show ?case by simp
next
  case (2 s r s1 bs r2 e s2)
  have "length (pending s1) < length (pending s)"
    using 2 inp.read_progress [of PAGE_SIZE s bs s1] by simp
  moreover have "pending s2 = pending s1"
    using 2 write_loop_frame [of bs "length bs" 0 s1 None s2] by (simp add: defensive_write_def)
  ultimately show ?case by simp
qed

declare write_till_eof.simps [simp del]

section \<open>Following\<close>

text \<open>
  What a \<open>read\<close> of the inotify descriptor brings: an error, or an event with its watch
  descriptor, what \<open>fstat\<close> then says of the size, and the content that the reads then find.
\<close>

datatype notification =
    InotifyFails errno
  | Modified int "errno + nat" "byte list"

record follower =
  f_offset :: nat
  f_os :: os

text \<open>\<open>lseek\<close> to the start after a truncation, then copy; \<open>Some d\<close> in the result is the message
  of an \<open>err_exit\<close>.\<close>

definition follow_event ::
    "int \<Rightarrow> notification \<Rightarrow> follower \<Rightarrow> (diag option \<times> follower) option" where
  "follow_event inotify_wd ev f =
     (case ev of
        InotifyFails e \<Rightarrow> Some (Some (Perror ''read''), f)
      | Modified wd stat content \<Rightarrow>
          if wd = inotify_wd then
            (case stat of
               Inl e \<Rightarrow> Some (Some (Perror ''fstat''), f)
             | Inr st_size \<Rightarrow>
                 let off = (if st_size < f_offset f then 0 else f_offset f) in
                 do {
                   (d, s1) \<leftarrow> write_till_eof ((f_os f)\<lparr>pending := drop off content\<rparr>);
                   Some (d, \<lparr>f_offset = off + (length (drop off content) - length (pending s1)),
                             f_os = s1\<rparr>)
                 })
          else Some (None, f))"

fun follow_loop :: "int \<Rightarrow> notification list \<Rightarrow> follower \<Rightarrow> (diag option \<times> follower) option" where
  "follow_loop inotify_wd [] f = Some (None, f)"
| "follow_loop inotify_wd (ev # evs) f =
     do {
       (d, f1) \<leftarrow> follow_event inotify_wd ev f;
       (case d of
          Some m \<Rightarrow> Some (Some m, f1)
        | None \<Rightarrow> follow_loop inotify_wd evs f1)
     }"

text \<open>
  The checks at the start of \<open>main\<close>: the command line, then inotify, the watch, \<open>open\<close> and
  \<open>lseek\<close> to the end. \<open>Inl\<close> is an early exit with status 1.
\<close>

definition tail_usage :: diag where
  "tail_usage = Barf (''usage: ./tail -f <file>'' @ [CHR 0x0A])"

definition tail_start ::
    "int \<Rightarrow> (byte list \<Rightarrow> int) \<Rightarrow> (byte list \<Rightarrow> int) \<Rightarrow> (int \<Rightarrow> errno + nat) \<Rightarrow> byte list list \<Rightarrow> os \<Rightarrow>
       diag list + int \<times> follower" where
  "tail_start inotify_fd add_watch open_file seek_end argv s =
     (if length argv < 3 then Inl [tail_usage]
      else if \<not> starts_with_dash (argv ! 1) then Inl [tail_usage]
      else if starts_with_dash (argv ! 2)
      then Inl [Barf ''only passing actual files is supported right now'', tail_usage]
      else if inotify_fd < 0 then Inl [Perror ''inotify_init'']
      else
        (let inotify_wd = add_watch (argv ! 2) in
         if inotify_wd < 0 then Inl [Perror ''inotify_watch'']
         else
           (let fd = open_file (argv ! 2) in
            if fd < 0 then Inl [Perror ''open'']
            else
              case seek_end fd of
                Inl e \<Rightarrow> Inl [Perror ''lseek'']
              | Inr off \<Rightarrow> Inr (inotify_wd, \<lparr>f_offset = off, f_os = s\<rparr>))))"

section \<open>Lemmas\<close>

text \<open>No write of the schedule fails; short writes may happen.\<close>

fun accepts :: "write_choice \<Rightarrow> bool" where
  "accepts (Accept k) \<longleftrightarrow> True"
| "accepts (WriteFails e) \<longleftrightarrow> False"

definition writes_ok :: "os \<Rightarrow> bool" where
  "writes_ok s \<longleftrightarrow> list_all accepts (writes s)"

lemma sys_write_ok:
  "writes_ok s \<Longrightarrow> sys_write bs s = (r, s') \<Longrightarrow> writes_ok s' \<and> (\<exists>n. r = Inr n)"
  by (auto simp: sys_write_def writes_ok_def Let_def split: list.splits write_choice.splits)

text \<open>The loop writes what is left, in order; only an error stops it early.\<close>

lemma write_loop_outcome:
  assumes "w \<le> n" and "n \<le> length buf"
  shows "\<exists>e s' k. write_loop buf n w s = Some (e, s') \<and> k \<le> n - w \<and>
    sink s' = sink s @ take k (drop w buf) \<and> (e = None \<longrightarrow> k = n - w) \<and>
    (writes_ok s \<longrightarrow> e = None \<and> writes_ok s')"
  using assms
proof (induction buf n w s rule: write_loop.induct)
  case (1 buf n w s)
  show ?case
  proof (cases "w < n")
    case False
    then have "write_loop buf n w s = Some (None, s)" by (simp add: write_loop.simps [of buf n w s])
    with False "1.prems" show ?thesis
      by (intro exI [of _ None] exI [of _ s] exI [of _ 0]) simp
  next
    case True
    let ?bs = "take (n - w) (drop w buf)"
    have bs: "mem_load buf w (n - w) = Some ?bs" using "1.prems" by (simp add: mem_simps)
    obtain r s1 where wr: "sys_write ?bs s = (r, s1)" by fastforce
    show ?thesis
    proof (cases r)
      case (Inl e)
      then have "sink s1 = sink s" "\<not> writes_ok s"
        using wr outp.write_error sys_write_ok [OF _ wr] by fastforce+
      then show ?thesis
        using True bs wr Inl
        by (intro exI [of _ "Some e"] exI [of _ s1] exI [of _ 0])
          (simp add: write_loop.simps [of buf n w s])
    next
      case (Inr m)
      have m: "m \<le> n - w" using wr Inr outp.write_bound by fastforce
      then have out: "sink s1 = sink s @ take m (drop w buf)"
        using wr Inr outp.write_content [of ?bs s m s1] by (simp add: min_absorb1)
      have "w + m \<le> n" using m True by simp
      then obtain e s' k where ih: "write_loop buf n (w + m) s1 = Some (e, s')" "k \<le> n - (w + m)"
        "sink s' = sink s1 @ take k (drop (w + m) buf)" "e = None \<longrightarrow> k = n - (w + m)"
        "writes_ok s1 \<longrightarrow> e = None \<and> writes_ok s'"
        using "1.IH" [OF True bs wr [symmetric] Inr _ "1.prems"(2)] by blast
      have "take (m + k) (drop w buf) = take m (drop w buf) @ take k (drop (w + m) buf)"
        by (simp add: take_add add.commute [of w m])
      moreover have "writes_ok s \<longrightarrow> writes_ok s1" using sys_write_ok [OF _ wr] by blast
      moreover have "write_loop buf n w s = Some (e, s')"
        using True bs wr Inr ih(1) by (simp add: write_loop.simps [of buf n w s])
      ultimately show ?thesis
        using ih(2-5) m out by (intro exI [of _ e] exI [of _ s'] exI [of _ "m + k"]) auto
    qed
  qed
qed

lemma defensive_write_outcome:
  "\<exists>e s' k. defensive_write buf (length buf) s = Some (e, s') \<and> k \<le> length buf \<and>
    sink s' = sink s @ take k buf \<and> (e = None \<longrightarrow> k = length buf) \<and>
    (writes_ok s \<longrightarrow> e = None \<and> writes_ok s') \<and> pending s' = pending s \<and> reads s' = reads s"
proof -
  obtain e s' k where "write_loop buf (length buf) 0 s = Some (e, s')" "k \<le> length buf"
    "sink s' = sink s @ take k buf" "e = None \<longrightarrow> k = length buf"
    "writes_ok s \<longrightarrow> e = None \<and> writes_ok s'"
    using write_loop_outcome [of 0 "length buf" buf s] by auto
  then show ?thesis
    using write_loop_frame [of buf "length buf" 0 s e s'] by (auto simp: defensive_write_def)
qed

definition copied_to :: "os \<Rightarrow> diag option \<Rightarrow> os \<Rightarrow> bool" where
  "copied_to s d s' \<longleftrightarrow>
     (\<exists>copied k. pending s = copied @ pending s' \<and> sink s' = sink s @ take k copied) \<and>
     (d = None \<longrightarrow> pending s' = [] \<and> sink s' = sink s @ pending s) \<and>
     (reads_ok s \<and> writes_ok s \<longrightarrow> d = None \<and> reads_ok s' \<and> writes_ok s')"

lemma copied_more:
  assumes "pending s = bs @ pending s2" "sink s2 = sink s @ bs"
    and "reads_ok s \<and> writes_ok s \<longrightarrow> reads_ok s2 \<and> writes_ok s2" and "copied_to s2 d s'"
  shows "copied_to s d s'"
proof -
  obtain copied k where "pending s2 = copied @ pending s'" "sink s' = sink s2 @ take k copied"
    using assms(4) by (auto simp: copied_to_def)
  then have "pending s = (bs @ copied) @ pending s' \<and> sink s' = sink s @ take (length bs + k) (bs @ copied)"
    using assms(1,2) by simp
  then have "\<exists>copied k. pending s = copied @ pending s' \<and> sink s' = sink s @ take k copied" by blast
  moreover have "d = None \<longrightarrow> pending s' = [] \<and> sink s' = sink s @ pending s"
    "reads_ok s \<and> writes_ok s \<longrightarrow> d = None \<and> reads_ok s' \<and> writes_ok s'"
    using assms by (simp_all add: copied_to_def)
  ultimately show ?thesis unfolding copied_to_def by blast
qed

lemma write_till_eof_total: "\<exists>d s'. write_till_eof s = Some (d, s') \<and> copied_to s d s'"
proof (induction s rule: write_till_eof.induct)
  case (1 s)
  obtain r s1 where rd: "sys_read PAGE_SIZE s = (r, s1)" by fastforce
  note fr = sys_read_frame [OF rd] and run = write_till_eof.simps [of s]
  have wok: "writes_ok s1 = writes_ok s" using fr by (simp add: writes_ok_def)
  show ?case
  proof (cases r)
    case (Inl e)
    then have "\<not> reads_ok s" "pending s1 = pending s"
      using sys_read_reads_ok [OF _ rd] inp.read_error [of PAGE_SIZE s e s1] rd by auto
    with Inl rd fr show ?thesis by (auto simp: run copied_to_def)
  next
    case (Inr bs)
    have pend: "pending s = bs @ pending s1" using inp.read_content rd Inr by fastforce
    have rok: "reads_ok s \<longrightarrow> reads_ok s1" using sys_read_reads_ok [OF _ rd] by blast
    obtain e s2 k where w: "defensive_write bs (length bs) s1 = Some (e, s2)" "k \<le> length bs"
      "sink s2 = sink s1 @ take k bs" "e = None \<longrightarrow> k = length bs"
      "writes_ok s1 \<longrightarrow> e = None \<and> writes_ok s2" "pending s2 = pending s1" "reads s2 = reads s1"
      using defensive_write_outcome by blast
    consider (eof) "bs = []" | (broken) err where "bs \<noteq> []" "e = Some err" | (further) "bs \<noteq> []" "e = None"
      by (cases e) auto
    then show ?thesis
    proof cases
      case eof
      then have "pending s = []" using inp.read_eof [of PAGE_SIZE s s1] rd Inr by (simp add: PAGE_SIZE_def)
      with eof Inr rd fr pend rok wok show ?thesis by (simp add: run copied_to_def)
    next
      case broken
      with Inr rd w pend fr wok show ?thesis by (auto simp: run copied_to_def)
    next
      case further
      obtain d s' where "write_till_eof s2 = Some (d, s')" "copied_to s2 d s'"
        using "1.IH" [OF rd [symmetric] Inr further(1) w(1) refl further(2)] by blast
      moreover from this have "copied_to s d s'"
        using w further fr pend rok wok by (intro copied_more [of s bs s2]) (auto simp: reads_ok_def)
      ultimately show ?thesis using further Inr rd w(1) by (simp add: run)
    qed
  qed
qed

lemma write_till_eof_outcome:
  "\<exists>d s' copied. write_till_eof s = Some (d, s') \<and> pending s = copied @ pending s' \<and>
     (\<exists>k. sink s' = sink s @ take k copied) \<and>
     (d = None \<longrightarrow> pending s' = [] \<and> sink s' = sink s @ pending s) \<and>
     (reads_ok s \<and> writes_ok s \<longrightarrow> d = None \<and> reads_ok s' \<and> writes_ok s')"
  using write_till_eof_total [of s] by (auto simp: copied_to_def)

section \<open>Following a file\<close>

text \<open>A notification whose size agrees with the content that the reads find.\<close>

definition modified :: "int \<Rightarrow> byte list \<Rightarrow> notification" where
  "modified wd content = Modified wd (Inr (length content)) content"

definition follower_ok :: "follower \<Rightarrow> bool" where
  "follower_ok f \<longleftrightarrow> reads_ok (f_os f) \<and> writes_ok (f_os f)"

lemma follow_event_outcome:
  assumes "follower_ok f"
  shows "\<exists>f1. follow_event wd (modified wd content) f = Some (None, f1) \<and> follower_ok f1 \<and>
    f_offset f1 = length content \<and>
    sink (f_os f1) = sink (f_os f) @
      drop (if length content < f_offset f then 0 else f_offset f) content"
proof -
  let ?off = "if length content < f_offset f then 0 else f_offset f"
  let ?s = "(f_os f)\<lparr>pending := drop ?off content\<rparr>"
  have ok: "reads_ok ?s" "writes_ok ?s"
    using assms by (simp_all add: follower_ok_def reads_ok_def writes_ok_def)
  obtain d s1 where w: "write_till_eof ?s = Some (d, s1)"
    "d = None \<longrightarrow> pending s1 = [] \<and> sink s1 = sink ?s @ pending ?s"
    "d = None" "reads_ok s1" "writes_ok s1"
    using write_till_eof_outcome [of ?s] ok by blast
  have "follow_event wd (modified wd content) f =
      Some (None, \<lparr>f_offset = length content, f_os = s1\<rparr>)"
    using w(1,2,3) by (simp add: follow_event_def modified_def Let_def split: if_splits)
  then show ?thesis using w by (simp add: follower_ok_def)
qed

text \<open>What arrives for a sequence of contents: each time what lies behind the length before, or
  everything when the file has become shorter.\<close>

fun followed :: "nat \<Rightarrow> byte list list \<Rightarrow> byte list" where
  "followed off [] = []"
| "followed off (c # cs) = drop (if length c < off then 0 else off) c @ followed (length c) cs"

lemma follow_loop_outcome:
  "follower_ok f \<Longrightarrow>
     \<exists>f'. follow_loop wd (map (modified wd) cs) f = Some (None, f') \<and> follower_ok f' \<and>
       f_offset f' = (if cs = [] then f_offset f else length (last cs)) \<and>
       sink (f_os f') = sink (f_os f) @ followed (f_offset f) cs"
proof (induction cs arbitrary: f)
  case Nil
  then show ?case by simp
next
  case (Cons c cs)
  obtain f1 where f1: "follow_event wd (modified wd c) f = Some (None, f1)" "follower_ok f1"
    "f_offset f1 = length c"
    "sink (f_os f1) = sink (f_os f) @ drop (if length c < f_offset f then 0 else f_offset f) c"
    using follow_event_outcome [OF Cons.prems] by blast
  obtain f' where "follow_loop wd (map (modified wd) cs) f1 = Some (None, f')" "follower_ok f'"
    "f_offset f' = (if cs = [] then f_offset f1 else length (last cs))"
    "sink (f_os f') = sink (f_os f1) @ followed (f_offset f1) cs"
    using Cons.IH [OF f1(2)] by blast
  with f1 show ?case by auto
qed

lemma followed_appends:
  "length c0 = off \<Longrightarrow> successively prefix (c0 # cs) \<Longrightarrow> c0 @ followed off cs = last (c0 # cs)"
proof (induction cs arbitrary: c0 off)
  case Nil
  then show ?case by simp
next
  case (Cons c cs)
  then obtain t where c: "c = c0 @ t" by (auto simp: prefix_def)
  have "c @ followed (length c) cs = last (c # cs)"
    using Cons.IH [of c "length c"] Cons.prems(2) by simp
  then show ?case using c Cons.prems(1) by simp
qed

section \<open>Properties\<close>

definition example_follower :: follower where
  "example_follower = \<lparr>f_offset = 2, f_os = example_cat\<lparr>writes := [Accept 0, Accept 1]\<rparr>\<rparr>"

lemma example_follower_ok: "follower_ok example_follower"
  by (simp add: example_follower_def follower_ok_def example_cat_def reads_ok_def writes_ok_def)

text \<open>
  \<open>defensive_write\<close> always returns. What it has written is a prefix of the buffer; without
  a failing write it is the whole buffer, however short the single writes are.
\<close>

theorem defensive_write_complete:
  "\<exists>e s' k. defensive_write buf (length buf) s = Some (e, s') \<and>
     sink s' = sink s @ take k buf \<and> (e = None \<longrightarrow> sink s' = sink s @ buf) \<and>
     (writes_ok s \<longrightarrow> e = None)"
proof -
  obtain e s' k where w: "defensive_write buf (length buf) s = Some (e, s')"
    "sink s' = sink s @ take k buf" "e = None \<longrightarrow> k = length buf" "writes_ok s \<longrightarrow> e = None"
    using defensive_write_outcome [of buf s] by blast
  moreover have "e = None \<longrightarrow> sink s' = sink s @ buf" using w(2,3) by simp
  ultimately show ?thesis by blast
qed

theorem defensive_write_complete_witness:
  "\<exists>s'. defensive_write [7, 8, 9] 3 (example_cat\<lparr>writes := [Accept 1, Accept 0]\<rparr>) = Some (None, s') \<and>
     sink s' = [7, 8, 9]"
proof -
  let ?s = "example_cat\<lparr>writes := [Accept 1, Accept 0]\<rparr>"
  have "writes_ok ?s" "sink ?s = []" by (simp_all add: example_cat_def writes_ok_def)
  then show ?thesis using defensive_write_complete [of "[7, 8, 9]" ?s] by (auto simp: numeral_3_eq_3)
qed

text \<open>
  C25. Following a file that is only appended to: when reads and writes do not fail, the output
  is exactly what was appended after \<open>tail\<close> had started, in order, each byte once, however the
  appends are spread over the notifications and however short the reads and writes are.
\<close>

theorem tail_follows_appends:
  assumes "follower_ok f" and "f_offset f = length c0" and "successively prefix (c0 # cs)"
  shows "\<exists>f' appended. follow_loop wd (map (modified wd) cs) f = Some (None, f') \<and>
    last (c0 # cs) = c0 @ appended \<and> sink (f_os f') = sink (f_os f) @ appended"
proof -
  obtain f' where "follow_loop wd (map (modified wd) cs) f = Some (None, f')"
    "sink (f_os f') = sink (f_os f) @ followed (f_offset f) cs"
    using follow_loop_outcome [OF assms(1)] by blast
  moreover have "last (c0 # cs) = c0 @ followed (f_offset f) cs"
    using followed_appends [OF assms(2) [symmetric] assms(3)] assms(2) by simp
  ultimately show ?thesis by blast
qed

theorem tail_follows_appends_witness:
  "\<exists>f'. follow_loop 1 [modified 1 [5, 6, 7], modified 1 [5, 6, 7, 8]] example_follower =
      Some (None, f') \<and> sink (f_os f') = [7, 8]"
  using tail_follows_appends [OF example_follower_ok, of "[5, 6]" "[[5, 6, 7], [5, 6, 7, 8]]" 1]
  by (auto simp: example_follower_def example_cat_def)

text \<open>
  Truncation: when a notification finds the file shorter than the offset, the whole new
  content is written. A file that was truncated and has grown to at least the old length
  before the notification is taken for an appended one: the new bytes below the old length
  are not written.
\<close>

theorem tail_truncation:
  assumes "follower_ok f"
  shows "\<exists>f'. follow_event wd (modified wd content) f = Some (None, f') \<and>
    f_offset f' = length content \<and>
    sink (f_os f') = sink (f_os f) @
      (if length content < f_offset f then content else drop (f_offset f) content)"
  using follow_event_outcome [OF assms, of wd content] by auto

theorem tail_truncation_witness:
  "\<exists>f' f''. follow_event 1 (modified 1 [9]) example_follower = Some (None, f') \<and>
     sink (f_os f') = [9] \<and>
     follow_event 1 (modified 1 [9, 8, 7]) example_follower = Some (None, f'') \<and>
     sink (f_os f'') = [7]"
  using tail_truncation [OF example_follower_ok, of 1 "[9]"]
    tail_truncation [OF example_follower_ok, of 1 "[9, 8, 7]"]
  by (auto simp: example_follower_def example_cat_def)

text \<open>
  The start of \<open>main\<close>: it reaches the main loop exactly when there are two arguments, the
  first begins with a dash, the second does not, and all four system calls succeed; only the
  first byte of the option is compared, so any option is taken for \<open>-f\<close>. It then follows from
  the end of the file.
\<close>

theorem tail_start_accepts:
  "tail_start inotify_fd add_watch open_file seek_end argv s = Inr (wd, f) \<longleftrightarrow>
     3 \<le> length argv \<and> starts_with_dash (argv ! 1) \<and> \<not> starts_with_dash (argv ! 2) \<and>
     0 \<le> inotify_fd \<and> wd = add_watch (argv ! 2) \<and> 0 \<le> wd \<and> 0 \<le> open_file (argv ! 2) \<and>
     (\<exists>off. seek_end (open_file (argv ! 2)) = Inr off \<and> f = \<lparr>f_offset = off, f_os = s\<rparr>)"
  by (auto simp: tail_start_def Let_def split: sum.splits)

end
