(* ===== verification/Fds.thy ===== *)
theory Fds
  imports Posix CText
begin

unbundle bit_operations_syntax

text \<open>
  The watch list of the poll server, \<open>tcp/polling/fds_state.c\<close> and \<open>fds_state.h\<close>: an array of
  \<open>struct pollfd\<close> of fixed capacity whose first \<open>length\<close> entries are watched. The contract that
  the server relies on is the locale \<open>watch_set\<close>.
\<close>

section \<open>The model\<close>

definition POLLIN :: "16 word" where "POLLIN = 0x1"
definition POLLOUT :: "16 word" where "POLLOUT = 0x4"
definition POLLERR :: "16 word" where "POLLERR = 0x8"
definition POLLHUP :: "16 word" where "POLLHUP = 0x10"
definition POLLNVAL :: "16 word" where "POLLNVAL = 0x20"
definition POLLRDHUP :: "16 word" where "POLLRDHUP = 0x2000"

record pollfd =
  pfd :: int
  events :: "16 word"
  revents :: "16 word"

record Fds =
  fds_capacity :: nat
  fds_length :: nat
  fds :: "pollfd list"

definition DEFAULT_FDS_CAPACITY :: nat where
  "DEFAULT_FDS_CAPACITY = 64 * 1024"

fun find_index :: "('a \<Rightarrow> bool) \<Rightarrow> 'a list \<Rightarrow> nat option" where
  "find_index p [] = None"
| "find_index p (x # xs) = (if p x then Some 0 else map_option Suc (find_index p xs))"

definition fd_state__watch :: "Fds \<Rightarrow> int \<Rightarrow> (int \<times> Fds) option" where
  "fd_state__watch state fd =
     (if fds_length state \<ge> fds_capacity state then Some (- 1, state)
      else
        do {
          ws \<leftarrow> mem_load (fds state) 0 (fds_length state);
          if list_ex (\<lambda>p. pfd p = fd \<or> pfd p = NOT fd) ws then Some (0, state)
          else
            do {
              d \<leftarrow> mem_store (fds state) (fds_length state)
                     [\<lparr>pfd = fd, events = POLLIN OR POLLRDHUP, revents = 0\<rparr>];
              Some (0, state\<lparr>fds := d, fds_length := fds_length state + 1\<rparr>)
            }
        })"

definition fd_state__unwatch :: "Fds \<Rightarrow> int \<Rightarrow> (int \<times> Fds) option" where
  "fd_state__unwatch state fd =
     do {
       ws \<leftarrow> mem_load (fds state) 0 (fds_length state);
       (case find_index (\<lambda>p. pfd p = fd) ws of
          None \<Rightarrow> Some (0, state)
        | Some i \<Rightarrow>
            do {
              moved \<leftarrow> mem_load (fds state) (fds_length state - 1) 1;
              d \<leftarrow> mem_store (fds state) i moved;
              Some (0, state\<lparr>fds := d, fds_length := fds_length state - 1\<rparr>)
            })
     }"

text \<open>\<open>Inl\<close> is an \<open>err_exit\<close>.\<close>

definition fds_state__init :: "os \<Rightarrow> (diag + Fds) \<times> os" where
  "fds_state__init s =
     (case alloc_object s of
        (False, s1) \<Rightarrow> (Inl (Perror ''malloc()''), s1)
      | (True, s1) \<Rightarrow>
          (case alloc_object s1 of
             (False, s2) \<Rightarrow> (Inl (Perror ''malloc''), c_free (Some ()) s2)
           | (True, s2) \<Rightarrow>
               (Inr \<lparr>fds_capacity = DEFAULT_FDS_CAPACITY, fds_length = 0,
                     fds = replicate DEFAULT_FDS_CAPACITY \<lparr>pfd = 0, events = 0, revents = 0\<rparr>\<rparr>,
                s2)))"

definition fds_state__destroy :: "Fds option \<Rightarrow> os \<Rightarrow> os" where
  "fds_state__destroy fdstate s =
     (case fdstate of
        None \<Rightarrow> s
      | Some st \<Rightarrow> c_free (Some st) (c_free (Some (fds st)) s))"

section \<open>Contract\<close>

locale watch_set =
  fixes inv :: "'s \<Rightarrow> bool"
    and members :: "'s \<Rightarrow> int list"
    and room :: "'s \<Rightarrow> bool"
    and add :: "'s \<Rightarrow> int \<Rightarrow> (int \<times> 's) option"
    and del :: "'s \<Rightarrow> int \<Rightarrow> (int \<times> 's) option"
  assumes add_full: "inv s \<Longrightarrow> \<not> room s \<Longrightarrow> add s fd = Some (- 1, s)"
    and add_known: "inv s \<Longrightarrow> room s \<Longrightarrow> fd \<in> set (members s) \<or> NOT fd \<in> set (members s) \<Longrightarrow>
      add s fd = Some (0, s)"
    and add_new: "inv s \<Longrightarrow> room s \<Longrightarrow> fd \<notin> set (members s) \<Longrightarrow> NOT fd \<notin> set (members s) \<Longrightarrow>
      \<exists>s'. add s fd = Some (0, s') \<and> inv s' \<and> members s' = members s @ [fd]"
    and del_unknown: "inv s \<Longrightarrow> fd \<notin> set (members s) \<Longrightarrow> del s fd = Some (0, s)"
    and del_known: "inv s \<Longrightarrow> fd \<in> set (members s) \<Longrightarrow>
      \<exists>s'. del s fd = Some (0, s') \<and> inv s' \<and> length (members s') + 1 = length (members s) \<and>
        set (members s') = set (members s) - {fd} \<and>
        (fd \<noteq> hd (members s) \<longrightarrow> hd (members s') = hd (members s))"
    and members_distinct: "inv s \<Longrightarrow> distinct (members s)"
begin

lemma add_total: "inv s \<Longrightarrow> \<exists>r s'. add s fd = Some (r, s') \<and> inv s' \<and> r \<in> {0, - 1} \<and>
    (r = - 1 \<longleftrightarrow> \<not> room s) \<and> set (members s) \<subseteq> set (members s') \<and>
    set (members s') \<subseteq> insert fd (set (members s)) \<and>
    (members s \<noteq> [] \<longrightarrow> hd (members s') = hd (members s)) \<and>
    (members s \<noteq> [] \<longrightarrow> members s' \<noteq> [])"
  using add_full [of s fd] add_known [of s fd] add_new [of s fd]
  by (cases "room s"; cases "fd \<in> set (members s) \<or> NOT fd \<in> set (members s)") auto

lemma del_total: "inv s \<Longrightarrow> \<exists>s'. del s fd = Some (0, s') \<and> inv s' \<and>
    set (members s') = set (members s) - {fd} \<and>
    length (members s') = length (members s) - (if fd \<in> set (members s) then 1 else 0) \<and>
    (fd \<noteq> hd (members s) \<longrightarrow> hd (members s') = hd (members s))"
  using del_unknown [of s fd] del_known [of s fd] by (cases "fd \<in> set (members s)") fastforce+

text \<open>A descriptor that was added and then deleted is not watched, whatever was before.\<close>

lemma add_del:
  assumes "inv s"
  shows "\<exists>r s1 s2. add s fd = Some (r, s1) \<and> del s1 fd = Some (0, s2) \<and> inv s2 \<and>
    set (members s2) = set (members s) - {fd}"
proof -
  obtain r s1 where a: "add s fd = Some (r, s1)" "inv s1" "set (members s) \<subseteq> set (members s1)"
    "set (members s1) \<subseteq> insert fd (set (members s))"
    using add_total [OF assms, of fd] by blast
  obtain s2 where "del s1 fd = Some (0, s2)" "inv s2" "set (members s2) = set (members s1) - {fd}"
    using del_total [OF a(2), of fd] by blast
  with a show ?thesis by (intro exI [of _ r] exI [of _ s1] exI [of _ s2]) auto
qed

end

section \<open>The array meets the contract\<close>

definition watched :: "Fds \<Rightarrow> int list" where
  "watched st = map pfd (take (fds_length st) (fds st))"

definition fds_room :: "Fds \<Rightarrow> bool" where
  "fds_room st \<longleftrightarrow> fds_length st < fds_capacity st"

definition fds_inv :: "Fds \<Rightarrow> bool" where
  "fds_inv st \<longleftrightarrow>
     length (fds st) = fds_capacity st \<and> fds_length st \<le> fds_capacity st \<and> distinct (watched st)"

lemma find_index_None: "find_index p xs = None \<longleftrightarrow> (\<forall>x \<in> set xs. \<not> p x)"
  by (induction xs) auto

lemma find_index_Some: "find_index p xs = Some i \<Longrightarrow> i < length xs \<and> p (xs ! i)"
  by (induction xs arbitrary: i) (auto split: if_splits)

lemma watched_length: "fds_inv st \<Longrightarrow> length (watched st) = fds_length st"
  by (simp add: watched_def fds_inv_def)

lemma load_watched:
  "fds_inv st \<Longrightarrow> mem_load (fds st) 0 (fds_length st) = Some (take (fds_length st) (fds st))"
  by (simp add: fds_inv_def mem_simps)

lemma watch_new:
  assumes "fds_inv st" and "fds_room st" and "fd \<notin> set (watched st)" and "NOT fd \<notin> set (watched st)"
  shows "\<exists>st'. fd_state__watch st fd = Some (0, st') \<and> fds_inv st' \<and> watched st' = watched st @ [fd]"
proof -
  let ?n = "fds_length st"
  let ?e = "\<lparr>pfd = fd, events = POLLIN OR POLLRDHUP, revents = 0\<rparr>"
  let ?d = "take ?n (fds st) @ ?e # drop (?n + 1) (fds st)"
  have n: "?n < length (fds st)" "?n < fds_capacity st" using assms(1,2) by (auto simp: fds_inv_def fds_room_def)
  have "\<not> list_ex (\<lambda>p. pfd p = fd \<or> pfd p = NOT fd) (take ?n (fds st))"
    using assms(3,4) unfolding list_ex_iff watched_def set_map by (metis imageI)
  then have "fd_state__watch st fd = Some (0, st\<lparr>fds := ?d, fds_length := ?n + 1\<rparr>)"
    using n load_watched [OF assms(1)] by (simp add: fd_state__watch_def mem_simps)
  moreover have "watched (st\<lparr>fds := ?d, fds_length := ?n + 1\<rparr>) = watched st @ [fd]"
    using n by (simp add: watched_def)
  ultimately show ?thesis using assms(1,3) n by (auto simp: fds_inv_def)
qed

text \<open>The last entry takes the place of the one that goes.\<close>

lemma swap_remove:
  assumes "i < length xs" and "distinct xs"
  shows "set (take (length xs - 1) (xs[i := last xs])) = set xs - {xs ! i} \<and>
    distinct (take (length xs - 1) (xs[i := last xs]))"
proof -
  obtain ys y where xs: "xs = ys @ [y]" using assms(1) by (cases xs rule: rev_cases) auto
  show ?thesis
  proof (cases "i = length ys")
    case True
    with xs assms(2) show ?thesis by auto
  next
    case False
    then have i: "i < length ys" using assms(1) xs by simp
    have "set (ys[i := y]) = insert y (set ys - {ys ! i})"
      using i assms(2) xs set_update_distinct [of ys i y] by simp
    moreover have "distinct (ys[i := y])"
      using i assms(2) xs by (simp add: distinct_list_update)
    ultimately show ?thesis using xs i assms(2) by (auto simp: list_update_append nth_append)
  qed
qed

lemma unwatch_known:
  assumes "fds_inv st" and "fd \<in> set (watched st)"
  shows "\<exists>st'. fd_state__unwatch st fd = Some (0, st') \<and> fds_inv st' \<and>
    length (watched st') + 1 = length (watched st) \<and>
    set (watched st') = set (watched st) - {fd} \<and>
    (fd \<noteq> hd (watched st) \<longrightarrow> hd (watched st') = hd (watched st))"
proof -
  let ?n = "fds_length st" and ?ws = "take (fds_length st) (fds st)"
  have n: "?n \<le> length (fds st)" using assms(1) by (simp add: fds_inv_def)
  obtain i where i: "find_index (\<lambda>p. pfd p = fd) ?ws = Some i"
    using assms(2) find_index_None [of "\<lambda>p. pfd p = fd" ?ws] by (auto simp: watched_def)
  have lt: "i < ?n" "pfd (fds st ! i) = fd"
    using find_index_Some [OF i] n by auto
  define d where "d = (fds st)[i := fds st ! (?n - 1)]"
  have "take 1 (drop (?n - 1) (fds st)) = [fds st ! (?n - 1)]"
    using n lt by (simp add: take_Suc_conv_app_nth hd_drop_conv_nth Cons_nth_drop_Suc [symmetric])
  moreover have "take i (fds st) @ fds st ! (?n - 1) # drop (Suc i) (fds st) = d"
    using lt n by (simp add: d_def upd_conv_take_nth_drop)
  ultimately have run: "fd_state__unwatch st fd = Some (0, st\<lparr>fds := d, fds_length := ?n - 1\<rparr>)"
    using load_watched [OF assms(1)] i n lt by (simp add: fd_state__unwatch_def mem_simps)
  let ?st = "st\<lparr>fds := d, fds_length := ?n - 1\<rparr>"
  have "?ws \<noteq> []" using n lt by auto
  then have l: "last (watched st) = pfd (fds st ! (?n - 1))"
    using n lt by (simp add: watched_def last_map last_conv_nth min_absorb2)
  have w: "watched ?st = take (length (watched st) - 1) ((watched st)[i := last (watched st)])"
    unfolding l using n lt
    by (simp add: watched_def d_def take_map map_update take_update_swap min_absorb1 min_absorb2)
  have fd: "watched st ! i = fd" "i < length (watched st)"
    using lt n by (simp_all add: watched_def)
  have front: "hd (take (length xs - 1) (xs[j := y])) = hd xs" if "0 < j" "j < length xs"
    for xs :: "int list" and j y
    using that by (cases xs; cases j; cases "length xs") auto
  have "i \<noteq> 0" if "fd \<noteq> hd (watched st)"
    using that fd by (metis hd_conv_nth length_0_conv not_less_zero)
  then have "hd (watched ?st) = hd (watched st)" if "fd \<noteq> hd (watched st)"
    unfolding w using that front [OF _ fd(2)] by blast
  moreover have sr: "set (watched ?st) = set (watched st) - {fd}" "distinct (watched ?st)"
    using swap_remove [OF fd(2)] assms(1) unfolding w fd(1) by (simp_all add: fds_inv_def)
  moreover have "fds_inv ?st"
    using sr(2) assms(1) by (auto simp: fds_inv_def d_def)
  moreover have "length (watched ?st) + 1 = length (watched st)"
    unfolding w using fd(2) by simp
  ultimately show ?thesis using run by blast
qed

interpretation ws: watch_set fds_inv watched fds_room fd_state__watch fd_state__unwatch
proof
  fix st fd
  assume inv: "fds_inv st"
  show "distinct (watched st)" using inv by (simp add: fds_inv_def)
  show "fd_state__watch st fd = Some (- 1, st)" if "\<not> fds_room st"
    using that by (simp add: fd_state__watch_def fds_room_def)
  show "fd_state__watch st fd = Some (0, st)"
    if "fds_room st" "fd \<in> set (watched st) \<or> NOT fd \<in> set (watched st)"
    using that load_watched [OF inv]
    by (auto simp: fd_state__watch_def fds_room_def watched_def list_ex_iff)
  show "fd_state__unwatch st fd = Some (0, st)" if "fd \<notin> set (watched st)"
  proof -
    have "find_index (\<lambda>p. pfd p = fd) (take (fds_length st) (fds st)) = None"
      using that by (auto simp: find_index_None watched_def)
    then show ?thesis using load_watched [OF inv] by (simp add: fd_state__unwatch_def)
  qed
qed (use watch_new unwatch_known in blast)+

section \<open>Sequences of calls\<close>

datatype watch_call = Watch int | Unwatch int

fun do_call :: "watch_call \<Rightarrow> Fds \<Rightarrow> (int \<times> Fds) option" where
  "do_call (Watch fd) st = fd_state__watch st fd"
| "do_call (Unwatch fd) st = fd_state__unwatch st fd"

text \<open>The results of the calls and the list at the end.\<close>

fun watch_calls :: "watch_call list \<Rightarrow> Fds \<Rightarrow> (int list \<times> Fds) option" where
  "watch_calls [] st = Some ([], st)"
| "watch_calls (c # cs) st =
     do {
       (r, st1) \<leftarrow> do_call c st;
       (rs, st2) \<leftarrow> watch_calls cs st1;
       Some (r # rs, st2)
     }"

text \<open>The same calls on a set of descriptors that has room for \<open>cap\<close> of them.\<close>

fun set_call :: "nat \<Rightarrow> watch_call \<Rightarrow> int set \<Rightarrow> int \<times> int set" where
  "set_call cap (Watch fd) M =
     (if card M \<ge> cap then (- 1, M)
      else if fd \<in> M \<or> NOT fd \<in> M then (0, M)
      else (0, insert fd M))"
| "set_call cap (Unwatch fd) M = (0, M - {fd})"

fun set_calls :: "nat \<Rightarrow> watch_call list \<Rightarrow> int set \<Rightarrow> int list \<times> int set" where
  "set_calls cap [] M = ([], M)"
| "set_calls cap (c # cs) M =
     (let (r, M1) = set_call cap c M; (rs, M2) = set_calls cap cs M1 in (r # rs, M2))"

text \<open>Valid descriptors, and no more calls than there is room: nothing is refused, and the set is what
  the client believes it to be.\<close>

fun believed :: "watch_call list \<Rightarrow> int set \<Rightarrow> int set" where
  "believed [] M = M"
| "believed (Watch fd # cs) M = believed cs (insert fd M)"
| "believed (Unwatch fd # cs) M = believed cs (M - {fd})"

fun call_fd :: "watch_call \<Rightarrow> int" where
  "call_fd (Watch fd) = fd"
| "call_fd (Unwatch fd) = fd"

lemma set_calls_believed:
  "finite M \<Longrightarrow> \<forall>m \<in> M. 0 \<le> m \<Longrightarrow> list_all (\<lambda>c. 0 \<le> call_fd c) cs \<Longrightarrow> card M + length cs \<le> cap \<Longrightarrow>
     set_calls cap cs M = (replicate (length cs) 0, believed cs M)"
proof (induction cs arbitrary: M)
  case Nil
  then show ?case by simp
next
  case (Cons c cs)
  have free: "NOT fd \<notin> M" if "c = Watch fd" for fd
    using that Cons.prems(2,3) by (auto simp: not_int_def)
  have le: "card (insert fd M) + length cs \<le> cap" "card (M - {fd}) + length cs \<le> cap" for fd
  proof -
    have "card (insert fd M) \<le> Suc (card M)" "card (M - {fd}) \<le> card M"
      using Cons.prems(1) by (simp_all add: card_Diff1_le card_insert_if)
    then show "card (insert fd M) + length cs \<le> cap" "card (M - {fd}) + length cs \<le> cap"
      using Cons.prems(4) by simp_all
  qed
  show ?case
  proof (cases c)
    case (Watch fd)
    then have "set_call cap c M = (0, insert fd M)"
      using Cons.prems(4) free [OF Watch] by (auto simp: insert_absorb)
    then show ?thesis using Cons.IH [of "insert fd M"] Cons.prems le Watch by simp
  next
    case (Unwatch fd)
    then show ?thesis using Cons.IH [of "M - {fd}"] Cons.prems le by simp
  qed
qed

lemma frame_capacity:
  "do_call c st = Some (r, st') \<Longrightarrow> fds_capacity st' = fds_capacity st"
  by (cases c)
    (auto simp: fd_state__watch_def fd_state__unwatch_def split: if_splits bind_splits option.splits)

lemma watched_card: "fds_inv st \<Longrightarrow> card (set (watched st)) = fds_length st"
  by (simp add: distinct_card ws.members_distinct watched_length)

lemma do_call_outcome:
  assumes "fds_inv st"
  shows "\<exists>r st'. do_call c st = Some (r, st') \<and> fds_inv st' \<and>
    set_call (fds_capacity st) c (set (watched st)) = (r, set (watched st'))"
proof (cases c)
  case (Unwatch fd)
  then show ?thesis using ws.del_total [OF assms, of fd] by auto
next
  case (Watch fd)
  then show ?thesis
    using ws.add_full [OF assms, of fd] ws.add_known [OF assms, of fd] ws.add_new [OF assms, of fd] assms
      watched_card [OF assms]
    by (cases "fds_room st"; cases "fd \<in> set (watched st) \<or> NOT fd \<in> set (watched st)")
      (auto simp: fds_room_def)
qed

lemma watch_calls_outcome:
  "fds_inv st \<Longrightarrow> \<exists>rs st'. watch_calls cs st = Some (rs, st') \<and> fds_inv st' \<and>
     set_calls (fds_capacity st) cs (set (watched st)) = (rs, set (watched st'))"
proof (induction cs arbitrary: st)
  case Nil
  then show ?case by simp
next
  case (Cons c cs)
  obtain r st1 where c: "do_call c st = Some (r, st1)" "fds_inv st1"
    "set_call (fds_capacity st) c (set (watched st)) = (r, set (watched st1))"
    using do_call_outcome [OF Cons.prems, of c] by blast
  show ?case using Cons.IH [OF c(2)] c frame_capacity [OF c(1)] by auto
qed

lemma init_fds:
  assumes "fds_state__init s = (Inr st, s')"
  shows "fds_inv st \<and> watched st = [] \<and> fds_capacity st = DEFAULT_FDS_CAPACITY \<and> live s' = live s + 2"
  using assms alloc_object_frame
  by (fastforce simp: fds_state__init_def fds_inv_def watched_def split: prod.splits bool.splits)

section \<open>Properties\<close>

definition example_fds :: Fds where
  "example_fds = \<lparr>fds_capacity = 3, fds_length = 2,
     fds = [\<lparr>pfd = 3, events = 0x2001, revents = 0\<rparr>, \<lparr>pfd = 7, events = 0x2001, revents = 0\<rparr>,
            \<lparr>pfd = 0, events = 0, revents = 0\<rparr>]\<rparr>"

lemma example_fds_inv: "fds_inv example_fds"
  by (simp add: example_fds_def fds_inv_def watched_def)

text \<open>
  \<open>fd_state__watch\<close> on every branch: a full list refuses with -1, also a descriptor that it
  watches already; otherwise a known descriptor (or the complement of one) changes nothing,
  and a new one is appended behind the others. The array is never left, and each descriptor
  is watched at most once.
\<close>

theorem watch_correct:
  assumes "fds_inv st"
  shows "\<exists>r st'. fd_state__watch st fd = Some (r, st') \<and> fds_inv st' \<and>
    (if fds_length st \<ge> fds_capacity st then r = - 1 \<and> st' = st
     else if fd \<in> set (watched st) \<or> NOT fd \<in> set (watched st) then r = 0 \<and> st' = st
     else r = 0 \<and> watched st' = watched st @ [fd])"
  using assms ws.add_full [OF assms, of fd] ws.add_known [OF assms, of fd] ws.add_new [OF assms, of fd]
  unfolding fds_room_def
  by (cases "fds_length st < fds_capacity st";
      cases "fd \<in> set (watched st) \<or> NOT fd \<in> set (watched st)") auto

theorem watch_correct_witness:
  "\<exists>st'. fd_state__watch example_fds 9 = Some (0, st') \<and> watched st' = [3, 7, 9]"
  using watch_correct [OF example_fds_inv, of 9]
  by (auto simp: example_fds_def watched_def not_int_def)

text \<open>
  \<open>fd_state__unwatch\<close> always returns 0; afterwards the descriptor is not watched and all
  others still are, and the first entry, which is the server's, stays first unless it is the
  one that goes.
\<close>

theorem unwatch_correct:
  assumes "fds_inv st"
  shows "\<exists>st'. fd_state__unwatch st fd = Some (0, st') \<and> fds_inv st' \<and>
    set (watched st') = set (watched st) - {fd} \<and>
    (fd \<noteq> hd (watched st) \<longrightarrow> hd (watched st') = hd (watched st))"
  using ws.del_total [OF assms, of fd] by blast

theorem unwatch_correct_witness:
  "\<exists>st'. fd_state__unwatch example_fds 7 = Some (0, st') \<and> set (watched st') = {3}"
  using unwatch_correct [OF example_fds_inv, of 7] by (auto simp: example_fds_def watched_def)

text \<open>
  C21. After \<open>fds_state__init\<close>, every sequence of calls with any descriptors runs without leaving
  the array, and is the same sequence on a set that holds at most \<open>DEFAULT_FDS_CAPACITY\<close>
  descriptors, the results included: watching is refused with -1 on a full list, even for a
  descriptor that is watched already; otherwise it adds a descriptor of which neither itself nor its
  complement is watched, and else changes nothing; unwatching removes the one descriptor.
\<close>

theorem watch_calls_refine_set:
  assumes "fds_state__init s = (Inr st, s')"
  shows "\<exists>rs st'. watch_calls cs st = Some (rs, st') \<and> fds_inv st' \<and>
    set_calls DEFAULT_FDS_CAPACITY cs {} = (rs, set (watched st'))"
  using watch_calls_outcome [of st cs] init_fds [OF assms] by auto

theorem watch_calls_refine_set_witness:
  "\<exists>st st'. fds_state__init \<lparr>mallocs = [], junk = (\<lambda>_. 0), live = 0, pending = [], reads = [],
        sink = [], writes = []\<rparr> = (Inr st, st') \<and>
     (\<exists>st2. watch_calls [Watch 3, Watch 5, Watch 3, Unwatch 5, Watch 8, Watch (- 9)] st =
          Some ([0, 0, 0, 0, 0, 0], st2) \<and>
        set (watched st2) = {3, 8})"
proof -
  let ?s = "\<lparr>mallocs = [], junk = (\<lambda>_. 0), live = 0, pending = [], reads = [],
        sink = [], writes = []\<rparr>"
  let ?cs = "[Watch 3, Watch 5, Watch 3, Unwatch 5, Watch 8, Watch (- 9)]"
  obtain st s' where i: "fds_state__init ?s = (Inr st, s')"
    by (simp add: fds_state__init_def alloc_object_def)
  have "set_calls DEFAULT_FDS_CAPACITY ?cs {} = ([0, 0, 0, 0, 0, 0], {3, 8})"
    by (auto simp: DEFAULT_FDS_CAPACITY_def not_int_def card_insert_if)
  then show ?thesis using watch_calls_refine_set [OF i, of ?cs] i by auto
qed

end
