(* ===== verification/Sds.thy ===== *)
theory Sds
  imports Posix
begin

text \<open>
  Dynamic strings, \<open>commons/src/sds/sds.c\<close> and \<open>commons/include/sds.h\<close>. An \<open>sds\<close> points behind
  one of five headers; the object is modelled by its header type, the \<open>len\<close> and \<open>alloc\<close> fields
  and the bytes from the pointer to the end of the allocation. Lengths are \<open>size_t\<close> words, and a
  store into a header field keeps only the bits of the field. A NULL pointer is \<open>None\<close>.
\<close>

section \<open>Headers\<close>

datatype sds_type = SDS_TYPE_5 | SDS_TYPE_8 | SDS_TYPE_16 | SDS_TYPE_32 | SDS_TYPE_64

record sds =
  type_of_sds :: sds_type
  hdr_len :: size_t
  hdr_alloc :: size_t
  sds_buf :: "byte list"

fun sdsHdrSize :: "sds_type \<Rightarrow> size_t" where
  "sdsHdrSize SDS_TYPE_5 = 1"
| "sdsHdrSize SDS_TYPE_8 = 3"
| "sdsHdrSize SDS_TYPE_16 = 5"
| "sdsHdrSize SDS_TYPE_32 = 9"
| "sdsHdrSize SDS_TYPE_64 = 17"

text \<open>The bits of the length field; for type 5 the upper five bits of the flags.\<close>

fun len_bits :: "sds_type \<Rightarrow> nat" where
  "len_bits SDS_TYPE_5 = 5"
| "len_bits SDS_TYPE_8 = 8"
| "len_bits SDS_TYPE_16 = 16"
| "len_bits SDS_TYPE_32 = 32"
| "len_bits SDS_TYPE_64 = 64"

definition sdsReqType :: "size_t \<Rightarrow> sds_type" where
  "sdsReqType string_size =
     (if string_size < 2 ^ 5 then SDS_TYPE_5
      else if string_size < 2 ^ 8 then SDS_TYPE_8
      else if string_size < 2 ^ 16 then SDS_TYPE_16
      else if string_size < 2 ^ 32 then SDS_TYPE_32
      else SDS_TYPE_64)"

definition sdslen :: "sds \<Rightarrow> size_t" where
  "sdslen s = hdr_len s"

definition sdsalloc :: "sds \<Rightarrow> size_t" where
  "sdsalloc s = (if type_of_sds s = SDS_TYPE_5 then hdr_len s else hdr_alloc s)"

definition sdsavail :: "sds \<Rightarrow> size_t" where
  "sdsavail s =
     (case type_of_sds s of
        SDS_TYPE_5 \<Rightarrow> 0
      | SDS_TYPE_32 \<Rightarrow> take_bit 32 (hdr_alloc s - hdr_len s)
      | _ \<Rightarrow> hdr_alloc s - hdr_len s)"

definition sdssetlen :: "sds \<Rightarrow> size_t \<Rightarrow> sds" where
  "sdssetlen s newlen = s\<lparr>hdr_len := take_bit (len_bits (type_of_sds s)) newlen\<rparr>"

definition sdsinclen :: "sds \<Rightarrow> size_t \<Rightarrow> sds" where
  "sdsinclen s inc = s\<lparr>hdr_len := take_bit (len_bits (type_of_sds s)) (hdr_len s + inc)\<rparr>"

definition sdssetalloc :: "sds \<Rightarrow> size_t \<Rightarrow> sds" where
  "sdssetalloc s newlen =
     (if type_of_sds s = SDS_TYPE_5 then s
      else s\<lparr>hdr_alloc := take_bit (len_bits (type_of_sds s)) newlen\<rparr>)"

section \<open>The allocator\<close>

text \<open>The names that \<open>sdsalloc.h\<close> gives to the functions of the C library, and the wrappers for
  other programs at the end of \<open>sds.c\<close>. Of a block that \<open>realloc\<close> gets, \<open>old\<close> is what lies behind
  the header: the bytes that fit the new size stay, the block may move.\<close>

definition s_malloc :: "size_t \<Rightarrow> os \<Rightarrow> byte list option \<times> os" where
  "s_malloc n s = malloc n s"

definition s_realloc :: "byte list \<Rightarrow> size_t \<Rightarrow> size_t \<Rightarrow> os \<Rightarrow> byte list option \<times> os" where
  "s_realloc old hdrlen n s =
     (case malloc n s of
        (None, s1) \<Rightarrow> (None, s1)
      | (Some blk, s1) \<Rightarrow>
          (let new = drop (unat hdrlen) blk
           in (Some (take (length new) old @ drop (length old) new), c_free (Some old) s1)))"

definition s_free :: "'a option \<Rightarrow> os \<Rightarrow> os" where
  "s_free p s = c_free p s"

definition sds_malloc :: "size_t \<Rightarrow> os \<Rightarrow> byte list option \<times> os" where
  "sds_malloc n s = s_malloc n s"

definition sds_realloc :: "byte list \<Rightarrow> size_t \<Rightarrow> size_t \<Rightarrow> os \<Rightarrow> byte list option \<times> os" where
  "sds_realloc old hdrlen n s = s_realloc old hdrlen n s"

definition sds_free :: "'a option \<Rightarrow> os \<Rightarrow> os" where
  "sds_free p s = s_free p s"

declare s_malloc_def [simp] s_free_def [simp]

section \<open>Creation and release\<close>

text \<open>The \<open>init\<close> argument: NULL, the marker \<open>SDS_NOINIT\<close>, or a pointer to these bytes.\<close>

datatype init_arg = InitNULL | SDS_NOINIT | InitBytes "byte list"

definition sdsnewlen :: "init_arg \<Rightarrow> size_t \<Rightarrow> os \<Rightarrow> (sds option \<times> os) option" where
  "sdsnewlen init initlen s =
     (let type0 = sdsReqType initlen;
          type = (if type0 = SDS_TYPE_5 \<and> initlen = 0 then SDS_TYPE_8 else type0);
          hdrlen = sdsHdrSize type
      in
      case s_malloc (hdrlen + initlen + 1) s of
        (None, s1) \<Rightarrow> Some (None, s1)
      | (Some sh, s1) \<Rightarrow>
          do {
            sh1 \<leftarrow> (if init = InitNULL
                   then mem_store sh 0 (replicate (unat (hdrlen + initlen + 1)) 0) else Some sh);
            buf \<leftarrow> (if unat hdrlen \<le> length sh1 then Some (drop (unat hdrlen) sh1) else None);
            buf1 \<leftarrow> (case init of
                     InitBytes bs \<Rightarrow>
                       if initlen \<noteq> 0
                       then do { src \<leftarrow> mem_load bs 0 (unat initlen); mem_store buf 0 src }
                       else Some buf
                   | _ \<Rightarrow> Some buf);
            buf2 \<leftarrow> mem_store buf1 (unat initlen) [0];
            Some (Some \<lparr>type_of_sds = type, hdr_len = take_bit (len_bits type) initlen,
                        hdr_alloc = take_bit (len_bits type) initlen, sds_buf = buf2\<rparr>, s1)
          })"

definition sdsempty :: "os \<Rightarrow> (sds option \<times> os) option" where
  "sdsempty s = sdsnewlen (InitBytes [0]) 0 s"

text \<open>\<open>strlen\<close> finds the first NUL of the bytes behind the pointer.\<close>

definition strlen :: "byte list \<Rightarrow> size_t option" where
  "strlen bs = map_option of_nat (find_byte 0 bs)"

definition sdsnew :: "byte list option \<Rightarrow> os \<Rightarrow> (sds option \<times> os) option" where
  "sdsnew init s =
     (case init of
        None \<Rightarrow> sdsnewlen InitNULL 0 s
      | Some bs \<Rightarrow> do { initlen \<leftarrow> strlen bs; sdsnewlen (InitBytes bs) initlen s })"

fun sdsdup :: "sds option \<Rightarrow> os \<Rightarrow> (sds option \<times> os) option" where
  "sdsdup None s = None"
| "sdsdup (Some str) s = sdsnewlen (InitBytes (sds_buf str)) (sdslen str) s"

definition sdsfree :: "sds option \<Rightarrow> os \<Rightarrow> os" where
  "sdsfree str s = s_free str s"

definition sdsupdatelen :: "sds \<Rightarrow> sds option" where
  "sdsupdatelen str = do { reallen \<leftarrow> strlen (sds_buf str); Some (sdssetlen str reallen) }"

definition sdsclear :: "sds \<Rightarrow> sds option" where
  "sdsclear str =
     do {
       b \<leftarrow> mem_store (sds_buf (sdssetlen str 0)) 0 [0];
       Some ((sdssetlen str 0)\<lparr>sds_buf := b\<rparr>)
     }"

definition sdsAllocSize :: "sds \<Rightarrow> size_t" where
  "sdsAllocSize str = sdsHdrSize (type_of_sds str) + sdsalloc str + 1"

section \<open>Growing and shrinking\<close>

text \<open>What a function that may reallocate returns: a failed \<open>assert\<close>, NULL, or the string.\<close>

datatype sds_result = Aborted | NoMemory | Str sds

definition SDS_MAX_PREALLOC :: size_t where
  "SDS_MAX_PREALLOC = 1024 * 1024"

definition sdsMakeRoomFor :: "sds \<Rightarrow> size_t \<Rightarrow> os \<Rightarrow> (sds_result \<times> os) option" where
  "sdsMakeRoomFor str addlen s =
     (let avail = sdsavail str; oldtype = type_of_sds str in
      if avail \<ge> addlen then Some (Str str, s)
      else
        (let len = sdslen str;
             reqlen = len + addlen;
             newlen = (if reqlen < SDS_MAX_PREALLOC then reqlen * 2 else reqlen + SDS_MAX_PREALLOC);
             type0 = sdsReqType newlen;
             type = (if type0 = SDS_TYPE_5 then SDS_TYPE_8 else type0);
             hdrlen = sdsHdrSize type
         in
         if \<not> hdrlen + newlen + 1 > reqlen then Some (Aborted, s)
         else if oldtype = type then
           (case s_realloc (sds_buf str) hdrlen (hdrlen + newlen + 1) s of
              (None, s1) \<Rightarrow> Some (NoMemory, s1)
            | (Some b, s1) \<Rightarrow> Some (Str (sdssetalloc (str\<lparr>sds_buf := b\<rparr>) newlen), s1))
         else
           (case s_malloc (hdrlen + newlen + 1) s of
              (None, s1) \<Rightarrow> Some (NoMemory, s1)
            | (Some sh, s1) \<Rightarrow>
                do {
                  src \<leftarrow> mem_load (sds_buf str) 0 (unat (len + 1));
                  b \<leftarrow> mem_store (drop (unat hdrlen) sh) 0 src;
                  let new = sdssetlen \<lparr>type_of_sds = type, hdr_len = 0, hdr_alloc = 0, sds_buf = b\<rparr> len
                  in Some (Str (sdssetalloc new newlen), s_free (Some str) s1)
                })))"

definition sdsRemoveFreeSpace :: "sds \<Rightarrow> os \<Rightarrow> (sds_result \<times> os) option" where
  "sdsRemoveFreeSpace str s =
     (let oldtype = type_of_sds str; oldhdrlen = sdsHdrSize oldtype; len = sdslen str;
          avail = sdsavail str
      in
      if avail = 0 then Some (Str str, s)
      else
        (let type = sdsReqType len; hdrlen = sdsHdrSize type in
         if oldtype = type \<or> type \<noteq> SDS_TYPE_5 \<and> type \<noteq> SDS_TYPE_8 then
           (case s_realloc (sds_buf str) oldhdrlen (oldhdrlen + len + 1) s of
              (None, s1) \<Rightarrow> Some (NoMemory, s1)
            | (Some b, s1) \<Rightarrow> Some (Str (sdssetalloc (str\<lparr>sds_buf := b\<rparr>) len), s1))
         else
           (case s_malloc (hdrlen + len + 1) s of
              (None, s1) \<Rightarrow> Some (NoMemory, s1)
            | (Some sh, s1) \<Rightarrow>
                do {
                  src \<leftarrow> mem_load (sds_buf str) 0 (unat (len + 1));
                  b \<leftarrow> mem_store (drop (unat hdrlen) sh) 0 src;
                  let new = sdssetlen \<lparr>type_of_sds = type, hdr_len = 0, hdr_alloc = 0, sds_buf = b\<rparr> len
                  in Some (Str (sdssetalloc new len), s_free (Some str) s1)
                })))"

text \<open>\<open>incr\<close> is a \<open>ssize_t\<close>; where the code casts it to \<open>unsigned int\<close> only 32 bits of it
  are compared. The difference of two narrow fields is an \<open>int\<close>. The new length is read back
  from the header, but for type 5, where it is the sum.\<close>

definition incr_allowed :: "sds \<Rightarrow> int \<Rightarrow> bool" where
  "incr_allowed str incr =
     (let len = int (unat (hdr_len str)); free = int (unat (sdsavail str));
          gap = int (unat (hdr_alloc str)) - int (unat (hdr_len str));
          low32 = (\<lambda>x. x mod 2 ^ 32)
      in
      case type_of_sds str of
        SDS_TYPE_5 \<Rightarrow> incr > 0 \<and> len + incr < 32 \<or> incr < 0 \<and> len \<ge> low32 (- incr)
      | SDS_TYPE_8 \<Rightarrow> incr \<ge> 0 \<and> gap \<ge> incr \<or> incr < 0 \<and> len \<ge> low32 (- incr)
      | SDS_TYPE_16 \<Rightarrow> incr \<ge> 0 \<and> gap \<ge> incr \<or> incr < 0 \<and> len \<ge> low32 (- incr)
      | SDS_TYPE_32 \<Rightarrow> incr \<ge> 0 \<and> free \<ge> low32 incr \<or> incr < 0 \<and> len \<ge> low32 (- incr)
      | SDS_TYPE_64 \<Rightarrow> incr \<ge> 0 \<and> free \<ge> incr \<or> incr < 0 \<and> len \<ge> - incr)"

definition sdsIncrLen :: "sds \<Rightarrow> int \<Rightarrow> sds_result option" where
  "sdsIncrLen str incr =
     (if \<not> incr_allowed str incr then Some Aborted
      else
        (let str1 = sdsinclen str (of_int incr);
             len = (if type_of_sds str = SDS_TYPE_5 then hdr_len str + of_int incr else sdslen str1)
         in
         do {
           b \<leftarrow> mem_store (sds_buf str1) (unat len) [0];
           Some (Str (str1\<lparr>sds_buf := b\<rparr>))
         }))"

definition sdsgrowzero :: "sds \<Rightarrow> size_t \<Rightarrow> os \<Rightarrow> (sds_result \<times> os) option" where
  "sdsgrowzero str len s =
     (let curlen = sdslen str in
      if len \<le> curlen then Some (Str str, s)
      else
        do {
          (r, s1) \<leftarrow> sdsMakeRoomFor str (len - curlen) s;
          (case r of
             Str str1 \<Rightarrow>
               do {
                 b \<leftarrow> mem_store (sds_buf str1) (unat curlen) (replicate (unat (len - curlen + 1)) 0);
                 Some (Str (sdssetlen (str1\<lparr>sds_buf := b\<rparr>) len), s1)
               }
           | _ \<Rightarrow> Some (r, s1))
        })"

text \<open>\<open>t\<close> are the bytes behind the source pointer.\<close>

definition sdscatlen :: "sds \<Rightarrow> byte list \<Rightarrow> size_t \<Rightarrow> os \<Rightarrow> (sds_result \<times> os) option" where
  "sdscatlen str t len s =
     (let curlen = sdslen str in
      do {
        (r, s1) \<leftarrow> sdsMakeRoomFor str len s;
        (case r of
           Str str1 \<Rightarrow>
             do {
               src \<leftarrow> mem_load t 0 (unat len);
               b \<leftarrow> mem_store (sds_buf str1) (unat curlen) src;
               let str2 = sdssetlen (str1\<lparr>sds_buf := b\<rparr>) (curlen + len) in
               do {
                 b2 \<leftarrow> mem_store (sds_buf str2) (unat (curlen + len)) [0];
                 Some (Str (str2\<lparr>sds_buf := b2\<rparr>), s1)
               }
             }
         | _ \<Rightarrow> Some (r, s1))
      })"

definition sdscat :: "sds \<Rightarrow> byte list \<Rightarrow> os \<Rightarrow> (sds_result \<times> os) option" where
  "sdscat str t s = do { n \<leftarrow> strlen t; sdscatlen str t n s }"

definition sdscatsds :: "sds \<Rightarrow> sds \<Rightarrow> os \<Rightarrow> (sds_result \<times> os) option" where
  "sdscatsds str t s = sdscatlen str (sds_buf t) (sdslen t) s"

definition sdscpylen :: "sds \<Rightarrow> byte list \<Rightarrow> size_t \<Rightarrow> os \<Rightarrow> (sds_result \<times> os) option" where
  "sdscpylen str t len s =
     do {
       (r, s1) \<leftarrow> (if sdsalloc str < len then sdsMakeRoomFor str (len - sdslen str) s
                  else Some (Str str, s));
       (case r of
          Str str1 \<Rightarrow>
            do {
              src \<leftarrow> mem_load t 0 (unat len);
              b \<leftarrow> mem_store (sds_buf str1) 0 src;
              b2 \<leftarrow> mem_store b (unat len) [0];
              Some (Str (sdssetlen (str1\<lparr>sds_buf := b2\<rparr>) len), s1)
            }
        | _ \<Rightarrow> Some (r, s1))
     }"

definition sdscpy :: "sds \<Rightarrow> byte list \<Rightarrow> os \<Rightarrow> (sds_result \<times> os) option" where
  "sdscpy str t s = do { n \<leftarrow> strlen t; sdscpylen str t n s }"

section \<open>Well-formed strings and their content\<close>

definition sds_content :: "sds \<Rightarrow> byte list" where
  "sds_content str = take (unat (sdslen str)) (sds_buf str)"

definition sds_shape :: "sds \<Rightarrow> bool" where
  "sds_shape str \<longleftrightarrow>
     unat (sdslen str) \<le> unat (sdsalloc str) \<and>
     unat (sdsalloc str) < length (sds_buf str) \<and>
     take_bit (len_bits (type_of_sds str)) (sdslen str) = sdslen str \<and>
     take_bit (len_bits (type_of_sds str)) (sdsalloc str) = sdsalloc str \<and>
     unat (sdsHdrSize (type_of_sds str)) + length (sds_buf str) < 2 ^ 64"

text \<open>A string is closed with a NUL behind its bytes.\<close>

definition sds_inv :: "sds \<Rightarrow> bool" where
  "sds_inv str \<longleftrightarrow>
     unat (sdslen str) \<le> unat (sdsalloc str) \<and>
     unat (sdsalloc str) < length (sds_buf str) \<and>
     sds_buf str ! unat (sdslen str) = 0 \<and>
     take_bit (len_bits (type_of_sds str)) (sdslen str) = sdslen str \<and>
     take_bit (len_bits (type_of_sds str)) (sdsalloc str) = sdsalloc str \<and>
     unat (sdsHdrSize (type_of_sds str)) + length (sds_buf str) < 2 ^ 64"

lemma sds_inv_iff: "sds_inv str \<longleftrightarrow> sds_shape str \<and> sds_buf str ! unat (sdslen str) = 0"
  by (auto simp: sds_inv_def sds_shape_def)

lemma hdr_size_bounds: "0 < unat (sdsHdrSize t) \<and> unat (sdsHdrSize t) \<le> 17"
  by (cases t) simp_all

lemma take_bit_size_iff: "take_bit k (n :: size_t) = n \<longleftrightarrow> unat n < 2 ^ k"
  by (metis take_bit_nat_eq_self_iff unsigned_take_bit_eq word_unat_eq_iff)

lemma req_type_fits [simp]: "take_bit (len_bits (sdsReqType n)) n = n"
  using unat_less_size [of n]
  by (auto simp: sdsReqType_def take_bit_size_iff word_less_nat_alt)

lemma req_type_5: "sdsReqType n = SDS_TYPE_5 \<Longrightarrow> take_bit 8 n = n"
  by (auto simp: sdsReqType_def take_bit_size_iff word_less_nat_alt split: if_splits)

lemma content_length: "sds_inv str \<Longrightarrow> length (sds_content str) = unat (sdslen str)"
  by (simp add: sds_content_def sds_inv_def)

lemma alloc_size_fits:
  assumes "unat n \<le> 2 ^ 64 - 19"
  shows "unat (sdsHdrSize t + n + 1) = unat (sdsHdrSize t) + unat n + 1"
proof -
  have "unat (sdsHdrSize t + n) = unat (sdsHdrSize t) + unat n"
    using assms hdr_size_bounds [of t] by (intro unat_add_size) simp
  then show ?thesis using assms hdr_size_bounds [of t] by (subst unat_add_size) simp_all
qed

text \<open>The bytes that a new string starts with.\<close>

fun init_content :: "init_arg \<Rightarrow> nat \<Rightarrow> byte list \<Rightarrow> bool" where
  "init_content InitNULL n c \<longleftrightarrow> c = replicate n 0"
| "init_content SDS_NOINIT n c \<longleftrightarrow> length c = n"
| "init_content (InitBytes bs) n c \<longleftrightarrow> c = take n bs"

fun init_available :: "init_arg \<Rightarrow> nat \<Rightarrow> bool" where
  "init_available (InitBytes bs) n \<longleftrightarrow> n \<le> length bs"
| "init_available _ n \<longleftrightarrow> True"

lemma sdsnewlen_outcome:
  assumes small: "unat n \<le> 2 ^ 64 - 19" and avail: "init_available init (unat n)"
  shows "\<exists>r s'. sdsnewlen init n s = Some (r, s') \<and>
    (mallocs_ok s \<longrightarrow> mallocs_ok s') \<and>
    (case r of
       None \<Rightarrow> live s' = live s \<and> \<not> mallocs_ok s
     | Some str \<Rightarrow> live s' = live s + 1 \<and> sds_inv str \<and> sdslen str = n \<and> sdsalloc str = n \<and>
         type_of_sds str = (if n = 0 then SDS_TYPE_8 else sdsReqType n) \<and>
         init_content init (unat n) (sds_content str))"
proof -
  define type where "type = (if sdsReqType n = SDS_TYPE_5 \<and> n = 0 then SDS_TYPE_8 else sdsReqType n)"
  let ?h = "sdsHdrSize type"
  have type: "type = (if n = 0 then SDS_TYPE_8 else sdsReqType n)"
    by (auto simp: type_def sdsReqType_def)
  have fits: "take_bit (len_bits type) n = n" by (auto simp: type)
  have tot: "unat (?h + n + 1) = unat ?h + unat n + 1" using alloc_size_fits [OF small] .
  obtain b s1 where m: "malloc (?h + n + 1) s = (b, s1)" by fastforce
  show ?thesis
  proof (cases b)
    case None
    then have "sdsnewlen init n s = Some (None, s1)"
      using m by (simp add: sdsnewlen_def type_def [symmetric] Let_def)
    with None m malloc_None malloc_ok [OF _ m] show ?thesis by auto
  next
    case (Some sh)
    have sh: "length sh = unat ?h + unat n + 1" "live s1 = live s + 1"
      using m Some malloc_Some tot by auto
    define sh1 where "sh1 = (if init = InitNULL then replicate (unat ?h + unat n + 1) 0 else sh)"
    define buf where "buf = drop (unat ?h) sh1"
    have l1: "length buf = unat n + 1" using sh by (simp add: buf_def sh1_def)
    define buf1 where "buf1 = (case init of InitBytes bs \<Rightarrow> take (unat n) bs @ drop (unat n) buf | _ \<Rightarrow> buf)"
    have l2: "length buf1 = unat n + 1" using l1 avail by (auto simp: buf1_def split: init_arg.splits)
    let ?str = "\<lparr>type_of_sds = type, hdr_len = n, hdr_alloc = n, sds_buf = take (unat n) buf1 @ [0]\<rparr>"
    have s1: "(if init = InitNULL then mem_store sh 0 (replicate (unat (?h + n + 1)) 0) else Some sh)
        = Some sh1"
      using sh tot by (simp add: sh1_def mem_simps)
    have s1': "(if unat ?h \<le> length sh1 then Some (drop (unat ?h) sh1) else None) = Some buf"
      using sh by (simp add: buf_def sh1_def)
    have s2: "(case init of InitBytes bs \<Rightarrow>
          if n \<noteq> 0 then do { src \<leftarrow> mem_load bs 0 (unat n); mem_store buf 0 src } else Some buf
        | _ \<Rightarrow> Some buf) = Some buf1"
      using avail l1 by (auto simp: buf1_def mem_simps unat_eq_0 split: init_arg.splits)
    have s3: "mem_store buf1 (unat n) [0] = Some (take (unat n) buf1 @ [0])"
      using l2 by (simp add: mem_simps)
    have run: "sdsnewlen init n s = Some (Some ?str, s1)"
      unfolding sdsnewlen_def s_malloc_def Let_def type_def [symmetric] m Some
      by (simp only: prod.case option.case s1 s1' s2 s3 fits bind.bind_lunit)
    have "init_content init (unat n) (sds_content ?str)"
      using l2 avail sh
      by (cases init)
        (simp_all add: sds_content_def sdslen_def buf1_def buf_def sh1_def del: replicate.simps)
    moreover have "sds_inv ?str"
      using l2 fits tot unat_less_size [of "?h + n + 1"]
      by (auto simp: sds_inv_def sdslen_def sdsalloc_def nth_append)
    ultimately show ?thesis
      using run sh(2) malloc_ok [OF _ m] type by (auto simp: sdslen_def sdsalloc_def)
  qed
qed

lemma sdsdup_outcome:
  assumes "sds_inv str" and "unat (sdslen str) \<le> 2 ^ 64 - 19"
  shows "\<exists>r s'. sdsdup (Some str) s = Some (r, s') \<and>
    (mallocs_ok s \<longrightarrow> mallocs_ok s') \<and>
    (case r of
       None \<Rightarrow> live s' = live s \<and> \<not> mallocs_ok s
     | Some c \<Rightarrow> live s' = live s + 1 \<and> sds_inv c \<and> sds_content c = sds_content str)"
proof -
  have "init_available (InitBytes (sds_buf str)) (unat (sdslen str))"
    using assms(1) by (simp add: sds_inv_def)
  from sdsnewlen_outcome [OF assms(2) this, of s] obtain r s' where
    r: "sdsnewlen (InitBytes (sds_buf str)) (sdslen str) s = Some (r, s')"
    "mallocs_ok s \<longrightarrow> mallocs_ok s'"
    "case r of None \<Rightarrow> live s' = live s \<and> \<not> mallocs_ok s
     | Some c \<Rightarrow> live s' = live s + 1 \<and> sds_inv c \<and> sdslen c = sdslen str \<and> sdsalloc c = sdslen str \<and>
         type_of_sds c = (if sdslen str = 0 then SDS_TYPE_8 else sdsReqType (sdslen str)) \<and>
         init_content (InitBytes (sds_buf str)) (unat (sdslen str)) (sds_content c)" by blast
  have "case r of None \<Rightarrow> live s' = live s \<and> \<not> mallocs_ok s
     | Some c \<Rightarrow> live s' = live s + 1 \<and> sds_inv c \<and> sds_content c = sds_content str"
    using r(3) by (cases r) (simp_all add: sds_content_def [of str])
  with r(1,2) show ?thesis by (intro exI [of _ r] exI [of _ s']) simp
qed

section \<open>Growing\<close>

lemma shape_avail:
  "sds_shape str \<Longrightarrow> unat (sdsavail str) = unat (sdsalloc str) - unat (sdslen str)"
  by (cases "type_of_sds str")
    (auto simp: sds_shape_def sdsavail_def sdsalloc_def sdslen_def unat_sub_fits
      unsigned_take_bit_eq take_bit_nat_eq_self_iff take_bit_size_iff)

lemma avail_unat:
  "sds_inv str \<Longrightarrow> unat (sdsavail str) = unat (sdsalloc str) - unat (sdslen str)"
  by (simp add: sds_inv_iff shape_avail)

lemma req_type_less: "unat n < 2 ^ len_bits (sdsReqType n)"
  using req_type_fits [of n] unfolding take_bit_size_iff .

lemma shape_new_buffer:
  assumes "type_of_sds new = t" and "sdslen new = n" and "sdsalloc new = a"
    and "unat a < 2 ^ len_bits t" and "unat n \<le> unat a"
    and "unat a < length (sds_buf new)" and "unat (sdsHdrSize t) + length (sds_buf new) < 2 ^ 64"
  shows "sds_shape new"
  using assms by (simp add: sds_shape_def take_bit_size_iff)

text \<open>A buffer that begins like the old one and holds its length has its content.\<close>

lemma same_front:
  assumes "sds_shape new" and "sdslen new = sdslen str"
    and "take (unat (sdslen str) + 1) (sds_buf new) = take (unat (sdslen str) + 1) (sds_buf str)"
    and "sds_inv str"
  shows "sds_inv new \<and> sds_content new = sds_content str"
proof -
  let ?n = "unat (sdslen str)"
  have "sds_buf new ! ?n = take (?n + 1) (sds_buf new) ! ?n" by simp
  also have "\<dots> = sds_buf str ! ?n" unfolding assms(3) by simp
  finally have z: "sds_buf new ! ?n = 0" using assms(4) by (simp add: sds_inv_iff)
  have "take ?n (sds_buf new) = take ?n (sds_buf str)"
    using arg_cong [OF assms(3), of "take ?n"] by simp
  then show ?thesis using z assms(1,2) by (simp add: sds_inv_iff sds_content_def)
qed

lemma realloc_outcome:
  assumes "s_realloc old h (h + n + 1) s = (r, s')" and "unat (h + n + 1) = unat h + unat n + 1"
  shows "live s' = live s \<and> (mallocs_ok s \<longrightarrow> mallocs_ok s') \<and>
    (case r of None \<Rightarrow> \<not> mallocs_ok s
     | Some b \<Rightarrow> length b = unat n + 1 \<and>
         (\<forall>k \<le> length old. k \<le> unat n + 1 \<longrightarrow> take k b = take k old))"
proof -
  obtain blk s1 where m: "malloc (h + n + 1) s = (blk, s1)" by fastforce
  show ?thesis
  proof (cases blk)
    case None
    with assms(1) m malloc_None malloc_ok [OF _ m] show ?thesis
      by (auto simp: s_realloc_def)
  next
    case (Some d)
    have len: "length d = unat h + unat n + 1" "live s1 = live s + 1"
      using m Some malloc_Some assms(2) by auto
    have r: "r = Some (take (unat n + 1) old @ drop (length old) (drop (unat h) d))"
      "s' = c_free (Some old) s1"
      using assms(1) m Some len by (auto simp: s_realloc_def)
    show ?thesis using r len malloc_ok [OF _ m] by (auto simp: min_def)
  qed
qed

definition make_room_post :: "sds \<Rightarrow> nat \<Rightarrow> os \<Rightarrow> sds_result \<Rightarrow> os \<Rightarrow> bool" where
  "make_room_post str need s r s' \<longleftrightarrow>
     live s' = live s \<and> (mallocs_ok s \<longrightarrow> mallocs_ok s') \<and>
     (case r of
        Aborted \<Rightarrow> False
      | NoMemory \<Rightarrow> \<not> mallocs_ok s
      | Str c \<Rightarrow> sds_inv c \<and> sds_content c = sds_content str \<and> sdslen c = sdslen str \<and>
          need \<le> unat (sdsalloc c))"

text \<open>
  The two ways to a new block for \<open>n\<close> bytes: \<open>realloc\<close> under the same header, and a copy under a
  new one. What lies in the buffer up to the NUL is kept; neither depends on it.
\<close>

definition reblocked :: "sds \<Rightarrow> size_t \<Rightarrow> sds \<Rightarrow> bool" where
  "reblocked str n new \<longleftrightarrow>
     sds_shape new \<and> sdslen new = sdslen str \<and> sdsalloc new = n \<and>
     take (unat (sdslen str) + 1) (sds_buf new) = take (unat (sdslen str) + 1) (sds_buf str)"

lemma header_block_bound:
  "unat (sdsHdrSize t + n + 1) = unat (sdsHdrSize t) + unat n + 1 \<Longrightarrow>
     unat (sdsHdrSize t) + (unat n + 1) < 2 ^ 64"
  using unat_less_size [of "sdsHdrSize t + n + 1"] by simp

lemma realloc_string:
  assumes str: "sds_shape str" "type_of_sds str \<noteq> SDS_TYPE_5"
    and n: "unat (sdslen str) \<le> unat n" "unat n < 2 ^ len_bits (type_of_sds str)"
    and tot: "unat (sdsHdrSize (type_of_sds str) + n + 1) = unat (sdsHdrSize (type_of_sds str)) + unat n + 1"
    and re: "s_realloc (sds_buf str) (sdsHdrSize (type_of_sds str)) (sdsHdrSize (type_of_sds str) + n + 1) s =
      (r, s')"
  shows "live s' = live s \<and> (mallocs_ok s \<longrightarrow> mallocs_ok s') \<and>
    (case r of None \<Rightarrow> \<not> mallocs_ok s
     | Some b \<Rightarrow> reblocked str n (sdssetalloc (str\<lparr>sds_buf := b\<rparr>) n))"
proof (cases r)
  case None
  with realloc_outcome [OF re tot] show ?thesis by simp
next
  case (Some b)
  let ?new = "sdssetalloc (str\<lparr>sds_buf := b\<rparr>) n"
  have lt: "unat (sdslen str) < length (sds_buf str)" using str(1) by (simp add: sds_shape_def)
  have b: "length b = unat n + 1"
    "take (unat (sdslen str) + 1) b = take (unat (sdslen str) + 1) (sds_buf str)"
    "live s' = live s \<and> (mallocs_ok s \<longrightarrow> mallocs_ok s')"
    using realloc_outcome [OF re tot] lt n(1) unfolding Some by simp_all
  have new: "type_of_sds ?new = type_of_sds str" "sdslen ?new = sdslen str" "sds_buf ?new = b"
    "sdsalloc ?new = n"
    using str(2) n(2) by (simp_all add: sdssetalloc_def sdslen_def sdsalloc_def take_bit_size_iff)
  have "sds_shape ?new"
    using new b(1) header_block_bound [OF tot] by (intro shape_new_buffer [OF new(1,2,4) n(2,1)]) simp_all
  then show ?thesis using new b Some by (simp add: reblocked_def)
qed

lemma copy_string:
  assumes str: "sds_shape str" and n: "unat (sdslen str) \<le> unat n" "unat n < 2 ^ len_bits t"
    and t5: "t = SDS_TYPE_5 \<Longrightarrow> n = sdslen str"
    and tot: "unat (sdsHdrSize t + n + 1) = unat (sdsHdrSize t) + unat n + 1"
    and m: "malloc (sdsHdrSize t + n + 1) s = (Some sh, s1)"
  shows "\<exists>src b. mem_load (sds_buf str) 0 (unat (sdslen str + 1)) = Some src \<and>
    mem_store (drop (unat (sdsHdrSize t)) sh) 0 src = Some b \<and>
    reblocked str n (sdssetalloc
      (sdssetlen \<lparr>type_of_sds = t, hdr_len = 0, hdr_alloc = 0, sds_buf = b\<rparr> (sdslen str)) n) \<and>
    live (c_free (Some str) s1) = live s \<and> (mallocs_ok s \<longrightarrow> mallocs_ok (c_free (Some str) s1))"
proof -
  let ?len = "sdslen str" and ?h = "unat (sdsHdrSize t)"
  have sh: "length sh = ?h + unat n + 1" "live s1 = live s + 1" using m malloc_Some tot by auto
  have lt: "unat ?len < length (sds_buf str)" using str by (simp add: sds_shape_def)
  have l1: "unat (?len + 1) = unat ?len + 1"
    using header_block_bound [OF tot] n(1) by (subst unat_add_size) simp_all
  let ?src = "take (unat ?len + 1) (sds_buf str)"
  let ?b = "?src @ drop (unat ?len + 1) (drop ?h sh)"
  let ?new = "sdssetalloc (sdssetlen \<lparr>type_of_sds = t, hdr_len = 0, hdr_alloc = 0, sds_buf = ?b\<rparr> ?len) n"
  have ld: "mem_load (sds_buf str) 0 (unat (?len + 1)) = Some ?src" using lt l1 by (simp add: mem_simps)
  have st: "mem_store (drop ?h sh) 0 ?src = Some ?b" using lt n(1) sh by (simp add: mem_simps)
  have fit: "take_bit (len_bits t) ?len = ?len" "take_bit (len_bits t) n = n"
    using n by (simp_all add: take_bit_size_iff)
  have new: "type_of_sds ?new = t" "sdslen ?new = ?len" "sds_buf ?new = ?b" "sdsalloc ?new = n"
    using fit t5 by (cases "t = SDS_TYPE_5"; simp add: sdssetalloc_def sdssetlen_def sdslen_def sdsalloc_def)+
  have "length ?b = unat n + 1" using sh lt n(1) by simp
  then have "sds_shape ?new"
    using new header_block_bound [OF tot] by (intro shape_new_buffer [OF new(1,2,4) n(2,1)]) simp_all
  then show ?thesis
    using ld st new lt sh(2) malloc_ok [OF _ m] by (simp add: reblocked_def)
qed

definition room_kept :: "sds \<Rightarrow> nat \<Rightarrow> os \<Rightarrow> sds_result \<Rightarrow> os \<Rightarrow> bool" where
  "room_kept str need s r s' \<longleftrightarrow>
     live s' = live s \<and> (mallocs_ok s \<longrightarrow> mallocs_ok s') \<and>
     (case r of
        Aborted \<Rightarrow> False
      | NoMemory \<Rightarrow> \<not> mallocs_ok s
      | Str c \<Rightarrow> sds_shape c \<and> sdslen c = sdslen str \<and> need \<le> unat (sdsalloc c) \<and>
          take (unat (sdslen str) + 1) (sds_buf c) = take (unat (sdslen str) + 1) (sds_buf str))"

text \<open>The size that \<open>sdsMakeRoomFor\<close> asks for.\<close>

definition grown :: "size_t \<Rightarrow> size_t" where
  "grown req = (if req < SDS_MAX_PREALLOC then req * 2 else req + SDS_MAX_PREALLOC)"

lemma grown_bounds:
  assumes "unat req \<le> 2 ^ 63"
  shows "unat req \<le> unat (grown req) \<and> unat (grown req) \<le> 2 ^ 63 + 2 ^ 20"
proof -
  have "unat (req * 2) = unat req + unat req" if "req < SDS_MAX_PREALLOC"
    using that unat_add_size [of req req]
    by (simp add: word_less_nat_alt SDS_MAX_PREALLOC_def mult_2_right)
  moreover have "unat (req + SDS_MAX_PREALLOC) = unat req + 1048576"
    using assms unat_add_size [of req SDS_MAX_PREALLOC] by (simp add: SDS_MAX_PREALLOC_def)
  ultimately show ?thesis
    using assms by (auto simp: grown_def SDS_MAX_PREALLOC_def word_less_nat_alt)
qed

text \<open>The sizes that follow from it: the header is wide enough, and no sum wraps around.\<close>

lemma grown_sizes:
  assumes "unat (sdslen str) + unat addlen \<le> 2 ^ 63"
    and new: "newlen = grown (sdslen str + addlen)"
    and type: "type = (if sdsReqType newlen = SDS_TYPE_5 then SDS_TYPE_8 else sdsReqType newlen)"
  shows "unat (sdslen str) + unat addlen \<le> unat newlen" and "type \<noteq> SDS_TYPE_5"
    and "unat (sdsHdrSize type + newlen + 1) = unat (sdsHdrSize type) + unat newlen + 1"
    and "sdsHdrSize type + newlen + 1 > sdslen str + addlen" and "unat newlen < 2 ^ len_bits type"
proof -
  have req: "unat (sdslen str + addlen) = unat (sdslen str) + unat addlen"
    using assms(1) by (intro unat_add_size) simp
  then have b: "unat (sdslen str) + unat addlen \<le> unat newlen" "unat newlen \<le> 2 ^ 63 + 2 ^ 20"
    using assms(1) grown_bounds [of "sdslen str + addlen"] by (simp_all add: new)
  then show tot: "unat (sdsHdrSize type + newlen + 1) = unat (sdsHdrSize type) + unat newlen + 1"
    by (intro alloc_size_fits) simp
  show "sdsHdrSize type + newlen + 1 > sdslen str + addlen"
    using tot b(1) req by (simp add: word_less_nat_alt)
  show "unat newlen < 2 ^ len_bits type"
    using req_type_less [of newlen] req_type_5 [of newlen] by (auto simp: type take_bit_size_iff)
  show "unat (sdslen str) + unat addlen \<le> unat newlen" "type \<noteq> SDS_TYPE_5" using b type by simp_all
qed

lemma make_room_shape:
  assumes inv: "sds_shape str" and need: "unat (sdslen str) + unat addlen \<le> 2 ^ 63"
  shows "\<exists>r s'. sdsMakeRoomFor str addlen s = Some (r, s') \<and>
    room_kept str (unat (sdslen str) + unat addlen) s r s'"
proof (cases "sdsavail str \<ge> addlen")
  case True
  then show ?thesis
    using shape_avail [OF inv] inv
    by (auto simp: sdsMakeRoomFor_def room_kept_def word_le_nat_alt sds_shape_def)
next
  case False
  let ?len = "sdslen str" and ?req = "sdslen str + addlen"
  define newlen where "newlen = grown ?req"
  define type where
    "type = (if sdsReqType newlen = SDS_TYPE_5 then SDS_TYPE_8 else sdsReqType newlen)"
  let ?h = "sdsHdrSize type"
  note sizes = grown_sizes [OF need newlen_def type_def]
  note new = sizes(1) and t5 = sizes(2) and tot = sizes(3) and no_abort = sizes(4) and fits = sizes(5)
  have le: "unat ?len \<le> unat newlen" using new by simp
  note unf = sdsMakeRoomFor_def Let_def newlen_def [unfolded grown_def, symmetric] type_def [symmetric]
  show ?thesis
  proof (cases "type_of_sds str = type")
    case True
    obtain r s' where re: "s_realloc (sds_buf str) ?h (?h + newlen + 1) s = (r, s')" by fastforce
    have "sdsMakeRoomFor str addlen s = Some (case r of None \<Rightarrow> NoMemory
        | Some b \<Rightarrow> Str (sdssetalloc (str\<lparr>sds_buf := b\<rparr>) newlen), s')"
      unfolding unf using False True no_abort re by (cases r) simp_all
    then show ?thesis
      using realloc_string [OF inv, of newlen s r s'] True t5 le fits tot re new
      by (cases r) (auto simp: room_kept_def reblocked_def)
  next
    case other: False
    obtain blk s1 where m: "malloc (?h + newlen + 1) s = (blk, s1)" by fastforce
    show ?thesis
    proof (cases blk)
      case None
      then have "sdsMakeRoomFor str addlen s = Some (NoMemory, s1)"
        unfolding unf using False other no_abort m by simp
      with m None malloc_None malloc_ok [OF _ m] show ?thesis by (auto simp: room_kept_def)
    next
      case (Some sh)
      obtain src b where c: "mem_load (sds_buf str) 0 (unat (?len + 1)) = Some src"
        "mem_store (drop (unat ?h) sh) 0 src = Some b"
        "reblocked str newlen (sdssetalloc
           (sdssetlen \<lparr>type_of_sds = type, hdr_len = 0, hdr_alloc = 0, sds_buf = b\<rparr> ?len) newlen)"
        "live (c_free (Some str) s1) = live s" "mallocs_ok s \<longrightarrow> mallocs_ok (c_free (Some str) s1)"
        using copy_string [OF inv le fits _ tot m [unfolded Some]] t5 by blast
      have "sdsMakeRoomFor str addlen s = Some (Str (sdssetalloc
           (sdssetlen \<lparr>type_of_sds = type, hdr_len = 0, hdr_alloc = 0, sds_buf = b\<rparr> ?len) newlen),
           c_free (Some str) s1)"
        unfolding unf using False other no_abort m Some c(1,2) by simp
      then show ?thesis using c(3-5) new by (simp add: room_kept_def reblocked_def)
    qed
  qed
qed

lemma make_room_outcome:
  assumes inv: "sds_inv str" and need: "unat (sdslen str) + unat addlen \<le> 2 ^ 63"
  shows "\<exists>r s'. sdsMakeRoomFor str addlen s = Some (r, s') \<and>
    make_room_post str (unat (sdslen str) + unat addlen) s r s'"
proof -
  have "sds_shape str" using inv by (simp add: sds_inv_iff)
  from make_room_shape [OF this need] obtain r s' where r: "sdsMakeRoomFor str addlen s = Some (r, s')"
    "room_kept str (unat (sdslen str) + unat addlen) s r s'" by blast
  then have "make_room_post str (unat (sdslen str) + unat addlen) s r s'"
    using same_front [OF _ _ _ inv] by (cases r) (auto simp: room_kept_def make_room_post_def)
  with r(1) show ?thesis by blast
qed

section \<open>Rewriting the buffer\<close>

text \<open>A new length within the allocation, over a buffer with a NUL there.\<close>

lemma setlen_outcome:
  assumes inv: "sds_inv str" and len: "length b = length (sds_buf str)"
    and n: "unat n \<le> unat (sdsalloc str)" and z: "b ! unat n = 0"
  shows "sds_inv (sdssetlen (str\<lparr>sds_buf := b\<rparr>) n) \<and>
    sds_content (sdssetlen (str\<lparr>sds_buf := b\<rparr>) n) = take (unat n) b \<and>
    sdslen (sdssetlen (str\<lparr>sds_buf := b\<rparr>) n) = n"
proof -
  have "unat (sdsalloc str) < 2 ^ len_bits (type_of_sds str)"
    using inv by (simp add: sds_inv_def take_bit_size_iff)
  then have "take_bit (len_bits (type_of_sds str)) n = n"
    using n by (simp add: take_bit_size_iff)
  then show ?thesis
    using assms by (auto simp: sds_inv_def sdssetlen_def sdslen_def sdsalloc_def sds_content_def)
qed

lemma alloc_lt_buf: "sds_inv str \<Longrightarrow> unat (sdsalloc str) < length (sds_buf str)"
  by (simp add: sds_inv_def)

lemma content_prefix:
  "sds_inv str \<Longrightarrow> take (unat (sdslen str)) (sds_buf str) = sds_content str"
  by (simp add: sds_content_def)

lemma store_at_end:
  assumes "sds_inv str" and "unat (sdslen str) + length src < length (sds_buf str)"
  shows "mem_store (sds_buf str) (unat (sdslen str)) src =
    Some (sds_content str @ src @ drop (unat (sdslen str) + length src) (sds_buf str))"
  using assms by (simp add: mem_simps content_prefix)

definition grow_post :: "os \<Rightarrow> byte list \<Rightarrow> sds_result \<Rightarrow> os \<Rightarrow> bool" where
  "grow_post s c r s' \<longleftrightarrow>
     live s' = live s \<and> (mallocs_ok s \<longrightarrow> mallocs_ok s') \<and>
     (case r of
        Aborted \<Rightarrow> False
      | NoMemory \<Rightarrow> \<not> mallocs_ok s
      | Str str \<Rightarrow> sds_inv str \<and> sds_content str = c)"

text \<open>What is stored behind the content and closed with a NUL has been appended.\<close>

lemma append_bytes:
  assumes inv: "sds_inv str" and fit: "unat (sdslen str) + length src \<le> unat (sdsalloc str)"
    and n: "unat n = unat (sdslen str) + length src"
    and b: "length b = length (sds_buf str)" "take (unat n) b = sds_content str @ src"
      "b ! unat n = 0"
  shows "sds_inv (sdssetlen (str\<lparr>sds_buf := b\<rparr>) n) \<and>
    sds_content (sdssetlen (str\<lparr>sds_buf := b\<rparr>) n) = sds_content str @ src"
  using setlen_outcome [OF inv b(1) _ b(3)] fit n b(2) by simp

lemma catlen_outcome:
  assumes inv: "sds_inv str" and src: "unat len \<le> length t"
    and need: "unat (sdslen str) + unat len \<le> 2 ^ 63"
  shows "\<exists>r s'. sdscatlen str t len s = Some (r, s') \<and>
    grow_post s (sds_content str @ take (unat len) t) r s'"
proof -
  obtain r s1 where m: "sdsMakeRoomFor str len s = Some (r, s1)"
    "make_room_post str (unat (sdslen str) + unat len) s r s1"
    using make_room_outcome [OF inv need] by blast
  show ?thesis
  proof (cases r)
    case (Str c)
    have c: "sds_inv c" "sds_content c = sds_content str" "sdslen c = sdslen str"
      "unat (sdslen str) + unat len \<le> unat (sdsalloc c)"
      using m(2) Str by (simp_all add: make_room_post_def)
    let ?src = "take (unat len) t"
    let ?n = "sdslen str + len"
    have n: "unat ?n = unat (sdslen c) + length ?src"
      using need src c(3) unat_add_size [of "sdslen str" len] by simp
    have room: "unat (sdslen c) + length ?src < length (sds_buf c)"
      using c alloc_lt_buf [OF c(1)] src by simp
    define b where "b = sds_content c @ ?src @ drop (unat ?n) (sds_buf c)"
    have st: "mem_store (sds_buf c) (unat (sdslen str)) ?src = Some b"
      using store_at_end [OF c(1) room] c(3) n by (simp add: b_def)
    have lb: "length b = length (sds_buf c)" "unat ?n < length b"
      using room n content_length [OF c(1)] by (simp_all add: b_def)
    let ?str2 = "sdssetlen (c\<lparr>sds_buf := b\<rparr>) ?n"
    define b2 where "b2 = take (unat ?n) b @ [0] @ drop (unat ?n + 1) b"
    have st2: "mem_store (sds_buf ?str2) (unat ?n) [0] = Some b2"
      using lb by (simp add: b2_def mem_simps sdssetlen_def)
    have eq: "?str2\<lparr>sds_buf := b2\<rparr> = sdssetlen (c\<lparr>sds_buf := b2\<rparr>) ?n"
      by (simp add: sdssetlen_def)
    have "sds_inv (sdssetlen (c\<lparr>sds_buf := b2\<rparr>) ?n) \<and>
        sds_content (sdssetlen (c\<lparr>sds_buf := b2\<rparr>) ?n) = sds_content c @ ?src"
    proof (rule append_bytes [OF c(1) _ n])
      show "unat (sdslen c) + length ?src \<le> unat (sdsalloc c)" using c src by simp
      show "length b2 = length (sds_buf c)" "b2 ! unat ?n = 0"
        using lb by (simp_all add: b2_def nth_append)
      have "take (unat ?n) b = sds_content c @ ?src"
        using n content_length [OF c(1)] src by (simp add: b_def min_absorb2)
      moreover have "take (unat ?n) b2 = take (unat ?n) b" using lb by (simp add: b2_def)
      ultimately show "take (unat ?n) b2 = sds_content c @ ?src" by simp
    qed
    moreover have "sdscatlen str t len s = Some (Str (?str2\<lparr>sds_buf := b2\<rparr>), s1)"
      using m(1) Str src st st2 by (simp add: sdscatlen_def Let_def mem_simps)
    ultimately show ?thesis
      using m(2) Str c(2) unfolding eq by (simp add: grow_post_def make_room_post_def)
  qed (use m in \<open>auto simp: sdscatlen_def grow_post_def make_room_post_def Let_def\<close>)
qed

lemma growzero_outcome:
  assumes inv: "sds_inv str" and need: "unat len \<le> 2 ^ 63"
  shows "\<exists>r s'. sdsgrowzero str len s = Some (r, s') \<and>
    grow_post s (sds_content str @ replicate (unat len - unat (sdslen str)) 0) r s'"
proof (cases "len \<le> sdslen str")
  case True
  with inv show ?thesis
    by (auto simp: sdsgrowzero_def grow_post_def word_le_nat_alt)
next
  case False
  let ?cur = "unat (sdslen str)"
  have d: "unat (len - sdslen str) = unat len - ?cur" "?cur < unat len"
    using False by (simp_all add: word_le_nat_alt unat_sub_fits)
  have d1: "unat (len - sdslen str + 1) = unat len - ?cur + 1"
    using d need unat_add_size [of "len - sdslen str" 1] by simp
  obtain r s1 where m: "sdsMakeRoomFor str (len - sdslen str) s = Some (r, s1)"
    "make_room_post str (unat len) s r s1"
    using make_room_outcome [OF inv, of "len - sdslen str" s] d need by auto
  show ?thesis
  proof (cases r)
    case (Str c)
    have c: "sds_inv c" "sds_content c = sds_content str" "sdslen c = sdslen str"
      "unat len \<le> unat (sdsalloc c)"
      using m(2) Str by (simp_all add: make_room_post_def)
    let ?zs = "replicate (unat len - ?cur) (0 :: byte)"
    let ?src = "?zs @ [0]"
    have room: "unat (sdslen c) + length ?zs < length (sds_buf c)"
      using c alloc_lt_buf [OF c(1)] d by simp
    define b where "b = sds_content c @ ?zs @ [0] @ drop (unat len + 1) (sds_buf c)"
    have "replicate (unat len - ?cur + 1) (0 :: byte) = ?src" by (simp add: replicate_append_same)
    moreover have "mem_store (sds_buf c) (unat (sdslen c)) ?src = Some b"
      using room c(3) d content_prefix [OF c(1)] by (simp add: mem_simps b_def)
    ultimately have st: "mem_store (sds_buf c) ?cur (replicate (unat (len - sdslen str + 1)) 0) = Some b"
      unfolding d1 c(3) by simp
    have "sds_inv (sdssetlen (c\<lparr>sds_buf := b\<rparr>) len) \<and>
        sds_content (sdssetlen (c\<lparr>sds_buf := b\<rparr>) len) = sds_content c @ ?zs"
    proof (rule append_bytes [OF c(1)])
      show "unat (sdslen c) + length ?zs \<le> unat (sdsalloc c)" "unat len = unat (sdslen c) + length ?zs"
        using c d by simp_all
      show "length b = length (sds_buf c)" "b ! unat len = 0" "take (unat len) b = sds_content c @ ?zs"
        using room c d content_length [OF c(1)] by (simp_all add: b_def nth_append)
    qed
    moreover have "sdsgrowzero str len s = Some (Str (sdssetlen (c\<lparr>sds_buf := b\<rparr>) len), s1)"
      using m(1) Str st False by (simp add: sdsgrowzero_def Let_def)
    ultimately show ?thesis
      using m(2) Str c(2) by (simp add: grow_post_def make_room_post_def)
  qed (use m False in \<open>auto simp: sdsgrowzero_def grow_post_def make_room_post_def Let_def\<close>)
qed

lemma cpylen_outcome:
  assumes inv: "sds_inv str" and src: "unat len \<le> length t" and need: "unat len \<le> 2 ^ 63"
  shows "\<exists>r s'. sdscpylen str t len s = Some (r, s') \<and> grow_post s (take (unat len) t) r s'"
proof -
  have "\<exists>r s1. (if sdsalloc str < len then sdsMakeRoomFor str (len - sdslen str) s
      else Some (Str str, s)) = Some (r, s1) \<and> make_room_post str (unat len) s r s1"
  proof (cases "sdsalloc str < len")
    case True
    have le: "unat (sdslen str) \<le> unat len"
      using True inv by (simp add: sds_inv_def word_less_nat_alt)
    then have "unat (len - sdslen str) = unat len - unat (sdslen str)" by (simp add: unat_sub_fits)
    then show ?thesis
      using make_room_outcome [OF inv, of "len - sdslen str" s] need True le by simp
  next
    case False
    with inv show ?thesis by (simp add: make_room_post_def word_less_nat_alt)
  qed
  then obtain r s1 where m: "(if sdsalloc str < len then sdsMakeRoomFor str (len - sdslen str) s
      else Some (Str str, s)) = Some (r, s1)" "make_room_post str (unat len) s r s1" by blast
  show ?thesis
  proof (cases r)
    case (Str c)
    have c: "sds_inv c" "unat len \<le> unat (sdsalloc c)"
      using m(2) Str by (simp_all add: make_room_post_def)
    let ?src = "take (unat len) t"
    have room: "unat len < length (sds_buf c)" using c alloc_lt_buf [OF c(1)] by simp
    define b where "b = ?src @ [0] @ drop (unat len + 1) (sds_buf c)"
    have st: "mem_store (sds_buf c) 0 ?src = Some (?src @ drop (unat len) (sds_buf c))"
      "mem_store (?src @ drop (unat len) (sds_buf c)) (unat len) [0] = Some b"
      using room src by (simp_all add: mem_simps b_def)
    have "sds_inv (sdssetlen (c\<lparr>sds_buf := b\<rparr>) len) \<and>
        sds_content (sdssetlen (c\<lparr>sds_buf := b\<rparr>) len) = ?src"
      using setlen_outcome [OF c(1), of b len] room src c(2) by (simp add: b_def nth_append)
    moreover have "sdscpylen str t len s = Some (Str (sdssetlen (c\<lparr>sds_buf := b\<rparr>) len), s1)"
      using Str src st unfolding sdscpylen_def m(1) by (simp add: mem_simps)
    ultimately show ?thesis
      using m(2) Str by (simp add: grow_post_def make_room_post_def)
  next
    case NoMemory
    with m(2) show ?thesis unfolding sdscpylen_def m(1) by (simp add: grow_post_def make_room_post_def)
  next
    case Aborted
    with m(2) show ?thesis by (simp add: make_room_post_def)
  qed
qed

end
