(* ===== verification/SdsNumbers.thy ===== *)
theory SdsNumbers
  imports Sds CText
begin

text \<open>
  Numbers as strings in \<open>sds.c\<close>: \<open>sdsll2str\<close> and \<open>sdsull2str\<close>, which write digits from the
  right into a buffer of \<open>SDS_LLSTR_SIZE\<close> bytes and turn them around in place, and
  \<open>sdsfromlonglong\<close>.
\<close>

section \<open>The model\<close>

definition SDS_LLSTR_SIZE :: nat where
  "SDS_LLSTR_SIZE = 21"

definition LLONG_MIN :: int where
  "LLONG_MIN = - 9223372036854775808"

definition LLONG_MAX :: int where
  "LLONG_MAX = 9223372036854775807"

lemma unat_div_ten: "unat (v div 10 :: 64 word) = unat v div 10"
  by (simp add: unat_div)

text \<open>The \<open>do\<close> loop that writes the digits, the lowest first.\<close>

function put_digits :: "byte list \<Rightarrow> nat \<Rightarrow> 64 word \<Rightarrow> (byte list \<times> nat) option" where
  "put_digits buf p v =
     (case mem_store buf p [48 + ucast (v mod 10)] of
        None \<Rightarrow> None
      | Some b \<Rightarrow> if v div 10 \<noteq> 0 then put_digits b (p + 1) (v div 10) else Some (b, p + 1))"
  by pat_completeness auto

termination
proof (relation "measure (\<lambda>(buf, p, v). unat v)", goal_cases)
  case 1
  then show ?case by simp
next
  case (2 buf p v b)
  then have "unat v div 10 \<noteq> 0" using unat_div_ten [of v] by (metis unat_eq_0)
  then show ?case by (simp add: unat_div_ten)
qed

text \<open>The loop that swaps the ends until they meet.\<close>

function reverse_loop :: "byte list \<Rightarrow> nat \<Rightarrow> nat \<Rightarrow> byte list option" where
  "reverse_loop buf s p =
     (if s < p then
        (case (mem_load buf s 1, mem_load buf p 1) of
           (Some aux, Some c) \<Rightarrow>
             (case mem_store buf s c of
                None \<Rightarrow> None
              | Some b1 \<Rightarrow>
                  (case mem_store b1 p aux of
                     None \<Rightarrow> None
                   | Some b2 \<Rightarrow> reverse_loop b2 (s + 1) (p - 1)))
         | _ \<Rightarrow> None)
      else Some buf)"
  by pat_completeness auto
termination by (relation "measure (\<lambda>(buf, s, p). p - s)") auto

declare put_digits.simps [simp del] reverse_loop.simps [simp del]

definition sdsll2str :: "byte list \<Rightarrow> int \<Rightarrow> (nat \<times> byte list) option" where
  "sdsll2str s value =
     (let v = (if value < 0 then (if value \<noteq> LLONG_MIN then of_int (- value) else of_int LLONG_MAX + 1)
               else of_int value) :: 64 word
      in
      do {
        (b, p) \<leftarrow> put_digits s 0 v;
        (b1, p1) \<leftarrow> (if value < 0 then do { b' \<leftarrow> mem_store b p [45]; Some (b', p + 1) } else Some (b, p));
        b2 \<leftarrow> mem_store b1 p1 [0];
        b3 \<leftarrow> reverse_loop b2 0 (p1 - 1);
        Some (p1, b3)
      })"

definition sdsull2str :: "byte list \<Rightarrow> 64 word \<Rightarrow> (nat \<times> byte list) option" where
  "sdsull2str s v =
     do {
       (b, p) \<leftarrow> put_digits s 0 v;
       b2 \<leftarrow> mem_store b p [0];
       b3 \<leftarrow> reverse_loop b2 0 (p - 1);
       Some (p, b3)
     }"

text \<open>The array on the stack holds anything.\<close>

definition sdsfromlonglong :: "int \<Rightarrow> os \<Rightarrow> (sds option \<times> os) option" where
  "sdsfromlonglong value s =
     do {
       (len, buf) \<leftarrow> sdsll2str (map (junk s) [0..<SDS_LLSTR_SIZE]) value;
       sdsnewlen (InitBytes buf) (of_nat len) s
     }"

section \<open>The digits\<close>

lemma digit_byte: "d < 10 \<Longrightarrow> (of_char (digit_char d) :: byte) = 48 + of_nat d"
  using of_nat_of_char [of "digit_char d", where 'a = byte] digit_char_code [of d] by simp

lemma digit_of_word: "48 + ucast (v mod 10) = (of_char (digit_char (unat v mod 10)) :: byte)" for v :: "64 word"
proof -
  have "unat (v mod 10) = unat v mod 10" by (simp add: unat_mod)
  then have "ucast (v mod 10) = (of_nat (unat v mod 10) :: byte)"
    using of_nat_unat [of "v mod 10", where 'a = byte] by simp
  then show ?thesis by (simp add: digit_byte)
qed

lemma decimal_last: "10 \<le> n \<Longrightarrow> decimal n = decimal (n div 10) @ [digit_char (n mod 10)]"
  by (subst decimal.simps) simp

lemma decimal_digit: "n < 10 \<Longrightarrow> decimal n = [digit_char n]"
  by (subst decimal.simps) simp

lemma put_digits_outcome:
  "p + length (decimal (unat v)) \<le> length buf \<Longrightarrow>
     put_digits buf p v =
       Some (take p buf @ rev (bytes_of (decimal (unat v))) @ drop (p + length (decimal (unat v))) buf,
             p + length (decimal (unat v)))"
proof (induction buf p v rule: put_digits.induct)
  case (1 buf p v)
  let ?c = "of_char (digit_char (unat v mod 10)) :: byte"
  let ?b = "take p buf @ ?c # drop (p + 1) buf"
  have ne: "decimal (unat v) \<noteq> []" using decimal_digits by blast
  then have "p < length buf" using "1.prems" by (cases "decimal (unat v)") auto
  then have st: "mem_store buf p [48 + ucast (v mod 10)] = Some ?b"
    unfolding digit_of_word by (simp add: mem_simps)
  show ?case
  proof (cases "v div 10 = 0")
    case True
    then have "unat v div 10 = 0" using unat_div_ten [of v] by simp
    then have "unat v < 10" by simp
    then show ?thesis
      using True st "1.prems" by (simp add: put_digits.simps [of buf p v] decimal_digit bytes_of_def)
  next
    case False
    then have "unat v div 10 \<noteq> 0" using unat_div_ten [of v] by (metis unat_eq_0)
    then have d: "decimal (unat v) = decimal (unat (v div 10)) @ [digit_char (unat v mod 10)]"
      using decimal_last [of "unat v"] unat_div_ten [of v] by simp
    have "put_digits ?b (p + 1) (v div 10) =
      Some (take (p + 1) ?b @ rev (bytes_of (decimal (unat (v div 10)))) @
              drop (p + 1 + length (decimal (unat (v div 10)))) ?b,
            p + 1 + length (decimal (unat (v div 10))))"
      using "1.prems" d by (intro "1.IH" [OF st False]) simp
    moreover have "take (p + 1) ?b = take p buf @ [?c]" using \<open>p < length buf\<close> by simp
    moreover have "drop (p + 1 + k) ?b = drop (p + 1 + k) buf" for k
      using \<open>p < length buf\<close> by (simp add: add.commute [of k])
    ultimately show ?thesis
      using False st d by (simp add: put_digits.simps [of buf p v] bytes_of_def)
  qed
qed

lemma split_ends:
  assumes "s < p" and "p < length buf"
  shows "\<exists>A a mid z Z. buf = A @ a # mid @ z # Z \<and> s = length A \<and> p = Suc (length A + length mid)"
proof -
  have 1: "buf = take s buf @ buf ! s # drop (Suc s) buf" using assms by (intro id_take_nth_drop) simp
  have 2: "drop (Suc s) buf = take (p - Suc s) (drop (Suc s) buf) @ drop (Suc s) buf ! (p - Suc s) #
      drop (Suc (p - Suc s)) (drop (Suc s) buf)"
    using assms by (intro id_take_nth_drop) simp
  show ?thesis
    using 1 2 assms
    by (intro exI [of _ "take s buf"] exI [of _ "buf ! s"] exI [of _ "take (p - Suc s) (drop (Suc s) buf)"]
        exI [of _ "drop (Suc s) buf ! (p - Suc s)"] exI [of _ "drop (Suc (p - Suc s)) (drop (Suc s) buf)"]) simp
qed

lemma reverse_loop_outcome:
  "s \<le> p + 1 \<Longrightarrow> p < length buf \<Longrightarrow>
     reverse_loop buf s p = Some (take s buf @ rev (take (p + 1 - s) (drop s buf)) @ drop (p + 1) buf)"
proof (induction buf s p rule: reverse_loop.induct)
  case (1 buf s p)
  show ?case
  proof (cases "s < p")
    case True
    obtain A a mid z Z where buf: "buf = A @ a # mid @ z # Z" "s = length A" "p = Suc (length A + length mid)"
      using split_ends [OF True "1.prems"(2)] by blast
    let ?b = "A @ z # mid @ a # Z"
    have ld: "mem_load buf s 1 = Some [a]" "mem_load buf p 1 = Some [z]" by (simp_all add: buf mem_load_def)
    have st: "mem_store buf s [z] = Some (A @ z # mid @ z # Z)" "mem_store (A @ z # mid @ z # Z) p [a] = Some ?b"
      by (simp_all add: buf mem_store_def)
    have "reverse_loop buf s p = reverse_loop ?b (s + 1) (p - 1)"
      using True ld st by (simp add: reverse_loop.simps [of buf s p])
    also have "\<dots> =
        Some (take (s + 1) ?b @ rev (take (p - 1 + 1 - (s + 1)) (drop (s + 1) ?b)) @ drop (p - 1 + 1) ?b)"
      using buf by (intro "1.IH" [OF True _ _ _ st]) (simp_all add: mem_load_def)
    finally show ?thesis by (simp add: buf)
  next
    case False
    then consider "s = p" | "s = p + 1" using "1.prems" by linarith
    then show ?thesis
    proof cases
      case 1
      have d: "drop p buf = buf ! p # drop (p + 1) buf"
        using "1.prems" by (simp add: Cons_nth_drop_Suc)
      then have "take p buf @ rev (take (p + 1 - p) (drop p buf)) @ drop (p + 1) buf = take p buf @ drop p buf"
        by simp
      then show ?thesis using 1 by (simp add: reverse_loop.simps [of buf p p])
    next
      case 2
      then show ?thesis using False by (simp add: reverse_loop.simps [of buf "Suc p" p])
    qed
  qed
qed

section \<open>Numbers\<close>

text \<open>The text of a signed number.\<close>

definition signed_text :: "int \<Rightarrow> string" where
  "signed_text v = (if v < 0 then CHR ''-'' # decimal (nat (- v)) else decimal (nat v))"

lemma bytes_of_length [simp]: "length (bytes_of s) = length s"
  by (simp add: bytes_of_def)

lemma turn_around:
  assumes "p < length buf" and "0 < p" and "take p buf = rev ds" and "length ds = p"
  shows "\<exists>b. mem_store buf p [0] = Some b \<and>
    reverse_loop b 0 (p - 1) = Some (ds @ 0 # drop (p + 1) buf)"
proof -
  let ?b = "rev ds @ 0 # drop (p + 1) buf"
  have st: "mem_store buf p [0] = Some ?b" using assms by (simp add: mem_store_def)
  have "reverse_loop ?b 0 (p - 1) =
      Some (take 0 ?b @ rev (take (p - 1 + 1 - 0) (drop 0 ?b)) @ drop (p - 1 + 1) ?b)"
    using assms by (intro reverse_loop_outcome) simp_all
  then have "reverse_loop ?b 0 (p - 1) = Some (ds @ 0 # drop (p + 1) buf)" using assms(2,4) by simp
  with st show ?thesis by blast
qed

lemma put_digits_start:
  assumes "length (decimal (unat v)) \<le> length buf"
  shows "put_digits buf 0 v = Some (rev (bytes_of (decimal (unat v))) @ drop (length (decimal (unat v))) buf,
    length (decimal (unat v)))"
  using put_digits_outcome [of 0 v buf] assms by simp

lemma ull2str_outcome:
  assumes "SDS_LLSTR_SIZE \<le> length s"
  shows "sdsull2str s v = Some (length (decimal (unat v)),
    bytes_of (decimal (unat v)) @ 0 # drop (length (decimal (unat v)) + 1) s)"
proof -
  let ?d = "bytes_of (decimal (unat v))" and ?n = "length (decimal (unat v))"
  have "unat v < 10 ^ 20" using unat_less_size [of v] by simp
  then have n: "?n \<le> 20" "0 < ?n" using decimal_length [of "unat v" 20] decimal_digits [of "unat v"] by auto
  let ?b = "rev ?d @ drop ?n s"
  have pd: "put_digits s 0 v = Some (?b, ?n)"
    using put_digits_start [of v s] n assms by (simp add: SDS_LLSTR_SIZE_def)
  obtain b where "mem_store ?b ?n [0] = Some b" "reverse_loop b 0 (?n - 1) = Some (?d @ 0 # drop (?n + 1) ?b)"
    using turn_around [of ?n ?b ?d] n assms by (auto simp: SDS_LLSTR_SIZE_def)
  moreover have "drop (?n + 1) ?b = drop (?n + 1) s" by simp
  ultimately show ?thesis using pd by (simp add: sdsull2str_def)
qed

lemma ll2str_outcome:
  assumes "SDS_LLSTR_SIZE \<le> length s" and v: "LLONG_MIN \<le> value" "value \<le> LLONG_MAX"
  shows "sdsll2str s value = Some (length (signed_text value),
      bytes_of (signed_text value) @ 0 # drop (length (signed_text value) + 1) s) \<and>
    length (signed_text value) < SDS_LLSTR_SIZE"
proof -
  define w where "w = ((if value < 0 then (if value \<noteq> LLONG_MIN then of_int (- value) else of_int LLONG_MAX + 1)
               else of_int value) :: 64 word)"
  have uw: "unat w = nat \<bar>value\<bar>"
  proof -
    have "w = of_int \<bar>value\<bar>" by (auto simp: w_def LLONG_MIN_def LLONG_MAX_def)
    moreover have "0 \<le> \<bar>value\<bar>" "\<bar>value\<bar> < 2 ^ 64" using v by (auto simp: LLONG_MIN_def LLONG_MAX_def)
    ultimately show ?thesis
      by (simp add: unsigned_of_int take_bit_int_eq_self nat_take_bit_eq)
  qed
  let ?ds = "decimal (nat \<bar>value\<bar>)"
  let ?d = "bytes_of ?ds" and ?n = "length ?ds"
  have "nat \<bar>value\<bar> < 10 ^ 19" using v by (auto simp: LLONG_MIN_def LLONG_MAX_def)
  then have n: "?n \<le> 19" "0 < ?n"
    using decimal_length [of "nat \<bar>value\<bar>" 19] decimal_digits [of "nat \<bar>value\<bar>"] by auto
  let ?b = "rev ?d @ drop ?n s"
  have len: "20 < length s" using assms(1) by (simp add: SDS_LLSTR_SIZE_def)
  have pd: "put_digits s 0 w = Some (?b, ?n)"
    using put_digits_start [of w s] n len unfolding uw by simp
  show ?thesis
  proof (cases "value < 0")
    case True
    then have t: "signed_text value = CHR ''-'' # ?ds" by (simp add: signed_text_def)
    then have tb: "bytes_of (signed_text value) = 45 # ?d" by (simp add: bytes_of_def)
    let ?b1 = "rev ?d @ 45 # drop (?n + 1) s"
    have m: "mem_store ?b ?n [45] = Some ?b1" using n len by (simp add: mem_store_def)
    have l1: "?n + 1 < length ?b1" using n len by simp
    obtain b where "mem_store ?b1 (?n + 1) [0] = Some b"
      "reverse_loop b 0 (?n + 1 - 1) = Some ((45 # ?d) @ 0 # drop (?n + 1 + 1) ?b1)"
      using turn_around [OF l1, of "45 # ?d"] by auto
    moreover have "drop (?n + 1 + 1) ?b1 = drop (?n + 1 + 1) s" by simp
    ultimately show ?thesis
      using True pd m n unfolding sdsll2str_def Let_def w_def [symmetric] tb
      by (simp add: t SDS_LLSTR_SIZE_def)
  next
    case False
    then have t: "signed_text value = ?ds" by (simp add: signed_text_def)
    obtain b where "mem_store ?b ?n [0] = Some b" "reverse_loop b 0 (?n - 1) = Some (?d @ 0 # drop (?n + 1) ?b)"
      using turn_around [of ?n ?b ?d] n len by auto
    moreover have "drop (?n + 1) ?b = drop (?n + 1) s" by simp
    ultimately show ?thesis
      using False pd n unfolding sdsll2str_def Let_def w_def [symmetric]
      by (simp add: t SDS_LLSTR_SIZE_def)
  qed
qed

lemma strtol_signed:
  assumes "LLONG_MIN \<le> v" and "v \<le> LLONG_MAX"
  shows "strtol (signed_text v) = (v, [])"
proof (cases "v < 0")
  case True
  have tw: "takeWhile is_digit (decimal (nat (- v))) = decimal (nat (- v))"
    "dropWhile is_digit (decimal (nat (- v))) = []"
    using takeWhile_all [of is_digit "decimal (nat (- v))"] decimal_digits [of "nat (- v)"] by simp_all
  show ?thesis
    using True assms decimal_digits [of "nat (- v)"]
    by (simp add: strtol_def signed_text_def is_space_def LONG_MIN_def LONG_MAX_def LLONG_MIN_def
        Let_def tw)
next
  case False
  then show ?thesis
    using strtol_decimal [of "[]" "nat v"] assms
    by (simp add: signed_text_def LONG_MAX_def LLONG_MAX_def)
qed

text \<open>The characters of a byte string.\<close>

definition string_of :: "byte list \<Rightarrow> string" where
  "string_of bs = map (\<lambda>b. char_of (unat b)) bs"

lemma string_of_bytes [simp]: "string_of (bytes_of s) = s"
proof -
  have "char_of (unat (of_char c :: byte)) = c" for c :: char
  proof -
    have "(of_char c :: byte) = of_nat (of_char c)"
      using of_nat_of_char [of c, where 'a = byte] by simp
    moreover have "unat (of_nat (of_char c) :: byte) = (of_char c :: nat)"
      unfolding unat_of_nat by (simp add: take_bit_nat_eq_self)
    ultimately show ?thesis by simp
  qed
  then show ?thesis by (simp add: string_of_def bytes_of_def o_def)
qed

end
