(* ===== verification/SdsText.thy ===== *)
theory SdsText
  imports SdsNumbers ByteSearch
begin

text \<open>
  The functions of \<open>sds.c\<close> that build strings out of others or take them apart:
  \<open>sdscatvprintf\<close>, \<open>sdsjoin\<close>, \<open>sdsjoinsds\<close>, \<open>sdssplitlen\<close>, \<open>sdscatrepr\<close>, \<open>sdssplitargs\<close>. Most of
  them do not look at the result of an append, so the pointer they go on with may be NULL.
\<close>

section \<open>Counters\<close>

text \<open>
  The functions count their strings with an \<open>int\<close>. The counters below are never negative; one
  that would pass \<open>INT_MAX\<close> is a signed overflow, which has no defined outcome.
\<close>

definition INT_MAX :: nat where
  "INT_MAX = 2147483647"

section \<open>Appending through a pointer\<close>

text \<open>A string pointer and the heap. Using a NULL pointer has no defined outcome; a failed
  \<open>assert\<close> ends the process, so nothing follows it either.\<close>

type_synonym string_ptr = "sds option \<times> os"

definition on_string :: "(sds \<Rightarrow> os \<Rightarrow> (sds_result \<times> os) option) \<Rightarrow> string_ptr \<Rightarrow> string_ptr option" where
  "on_string f q =
     (case q of
        (None, s) \<Rightarrow> None
      | (Some str, s) \<Rightarrow>
          do {
            (r, s1) \<leftarrow> f str s;
            (case r of
               Str x \<Rightarrow> Some (Some x, s1)
             | NoMemory \<Rightarrow> Some (None, s1)
             | Aborted \<Rightarrow> None)
          })"

text \<open>\<open>sdscatlen\<close> of these bytes.\<close>

definition cat_bytes :: "byte list \<Rightarrow> string_ptr \<Rightarrow> string_ptr option" where
  "cat_bytes bs = on_string (\<lambda>str. sdscatlen str bs (of_nat (length bs)))"

section \<open>Formatted output\<close>

text \<open>
  \<open>sdscatvprintf\<close> for a format of \<open>fmt_len\<close> bytes that \<open>vsnprintf\<close> expands to \<open>formatted\<close>, or
  refuses: the array of 1024 bytes or a larger block first, then a block of the right size.
\<close>

definition sdscatvprintf :: "sds \<Rightarrow> size_t \<Rightarrow> byte list option \<Rightarrow> os \<Rightarrow> (sds_result \<times> os) option" where
  "sdscatvprintf str fmt_len formatted s =
     (let buflen0 = fmt_len * 2;
          on_heap = buflen0 > 1024;
          buflen = (if on_heap then buflen0 else 1024);
          (buf, s1) = (if on_heap then malloc buflen0 s else (Some [], s));
          release = (\<lambda>h. if on_heap then c_free buf h else h)
      in
      if buf = None then Some (NoMemory, s1)
      else
        (case formatted of
           None \<Rightarrow> Some (NoMemory, release s1)
         | Some txt \<Rightarrow>
             if length txt \<ge> unat buflen then
               (case malloc (of_nat (length txt) + 1) (release s1) of
                  (None, s2) \<Rightarrow> Some (NoMemory, s2)
                | (Some buf2, s2) \<Rightarrow>
                    do {
                      (t, s3) \<leftarrow> sdscatlen str txt (of_nat (length txt)) s2;
                      Some (t, c_free (Some buf2) s3)
                    })
             else
               do {
                 (t, s2) \<leftarrow> sdscatlen str txt (of_nat (length txt)) s1;
                 Some (t, release s2)
               }))"

definition sdscatprintf :: "sds \<Rightarrow> size_t \<Rightarrow> byte list option \<Rightarrow> os \<Rightarrow> (sds_result \<times> os) option" where
  "sdscatprintf str fmt_len formatted s = sdscatvprintf str fmt_len formatted s"

section \<open>Joining\<close>

fun join_loop :: "sds list \<Rightarrow> byte list \<Rightarrow> size_t \<Rightarrow> string_ptr \<Rightarrow> string_ptr option" where
  "join_loop [] sep seplen q = Some q"
| "join_loop (t # ts) sep seplen q =
     do {
       q1 \<leftarrow> on_string (\<lambda>str. sdscatsds str t) q;
       q2 \<leftarrow> (if ts \<noteq> [] then on_string (\<lambda>str. sdscatlen str sep seplen) q1 else Some q1);
       join_loop ts sep seplen q2
     }"

text \<open>\<open>argc\<close>, the length of the list, is an \<open>int\<close>.\<close>

definition sdsjoinsds :: "sds list \<Rightarrow> byte list \<Rightarrow> size_t \<Rightarrow> os \<Rightarrow> string_ptr option" where
  "sdsjoinsds argv sep seplen s =
     (if INT_MAX < length argv then None
      else do { q \<leftarrow> sdsempty s; join_loop argv sep seplen q })"

fun join_cstrings :: "byte list list \<Rightarrow> byte list \<Rightarrow> string_ptr \<Rightarrow> string_ptr option" where
  "join_cstrings [] sep q = Some q"
| "join_cstrings (t # ts) sep q =
     do {
       q1 \<leftarrow> on_string (\<lambda>str. sdscat str t) q;
       q2 \<leftarrow> (if ts \<noteq> [] then on_string (\<lambda>str. sdscat str sep) q1 else Some q1);
       join_cstrings ts sep q2
     }"

definition sdsjoin :: "byte list list \<Rightarrow> byte list \<Rightarrow> os \<Rightarrow> string_ptr option" where
  "sdsjoin argv sep s =
     (if INT_MAX < length argv then None
      else do { q \<leftarrow> sdsempty s; join_cstrings argv sep q })"

section \<open>Splitting\<close>

text \<open>\<open>realloc\<close> of the array of tokens.\<close>

definition realloc_array :: "os \<Rightarrow> bool \<times> os" where
  "realloc_array s =
     (case alloc_object s of
        (False, s1) \<Rightarrow> (False, s1)
      | (True, s1) \<Rightarrow> (True, c_free (Some ()) s1))"

text \<open>The loop of \<open>sdssplitlen\<close>: whether it came to its end, the start of the last token, the
  slots of the array and the tokens so far, whose number is \<open>elements\<close>. A token is stored inside
  the array only. \<open>elements + 2\<close> and \<open>slots *= 2\<close> are calculated as \<open>int\<close>; where the first does not
  overflow, neither does the later \<open>elements++\<close>.\<close>

function split_loop ::
    "byte list \<Rightarrow> nat \<Rightarrow> byte list \<Rightarrow> nat \<Rightarrow> nat \<Rightarrow> nat \<Rightarrow> nat \<Rightarrow> sds list \<Rightarrow> os \<Rightarrow>
       (bool \<times> nat \<times> nat \<times> sds list \<times> os) option" where
  "split_loop s len sep seplen j start slots tokens h =
     (if j + (seplen - 1) < len then
        (if INT_MAX < length tokens + 2 \<or> slots < length tokens + 2 \<and> INT_MAX < 2 * slots then None
         else
         let grow = slots < length tokens + 2;
             (ok, h1) = (if grow then realloc_array h else (True, h));
             slots1 = (if grow then 2 * slots else slots)
         in
         if \<not> ok then Some (False, start, slots, tokens, h1)
         else
           (case (mem_load s j seplen, mem_load sep 0 seplen) of
              (Some here, Some sep_bytes) \<Rightarrow>
                if here = sep_bytes then
                  (case sdsnewlen (InitBytes (drop start s)) (of_nat (j - start)) h1 of
                     None \<Rightarrow> None
                   | Some (None, h2) \<Rightarrow> Some (False, start, slots1, tokens, h2)
                   | Some (Some token, h2) \<Rightarrow>
                       if length tokens < slots1 then
                         split_loop s len sep seplen (j + (seplen - 1) + 1) (j + seplen) slots1
                           (tokens @ [token]) h2
                       else None)
                else split_loop s len sep seplen (j + 1) start slots1 tokens h1
            | _ \<Rightarrow> None))
      else Some (True, start, slots, tokens, h))"
  by pat_completeness auto
termination
  by (relation "measure (\<lambda>(s, len, sep, seplen, j, start, slots, tokens, h). len - j)") auto

declare split_loop.simps [simp del]

definition sdsfreesplitres :: "sds list option \<Rightarrow> os \<Rightarrow> os" where
  "sdsfreesplitres tokens s =
     (case tokens of
        None \<Rightarrow> s
      | Some ts \<Rightarrow> c_free (Some ()) (fold (\<lambda>t. sdsfree (Some t)) (rev ts) s))"

text \<open>The label \<open>cleanup\<close>.\<close>

definition split_cleanup :: "sds list \<Rightarrow> os \<Rightarrow> os" where
  "split_cleanup tokens s = c_free (Some ()) (fold (\<lambda>t. sdsfree (Some t)) tokens s)"

definition sdssplitlen ::
    "byte list \<Rightarrow> int \<Rightarrow> byte list \<Rightarrow> int \<Rightarrow> os \<Rightarrow> (sds list option \<times> os) option" where
  "sdssplitlen s len sep seplen h =
     (if seplen < 1 \<or> len \<le> 0 then Some (None, h)
      else
        case alloc_object h of
          (False, h1) \<Rightarrow> Some (None, h1)
        | (True, h1) \<Rightarrow>
            do {
              (finished, start, slots, tokens, h2) \<leftarrow> split_loop s (nat len) sep (nat seplen) 0 0 5 [] h1;
              if \<not> finished then Some (None, split_cleanup tokens h2)
              else
                do {
                  (token, h3) \<leftarrow> sdsnewlen (InitBytes (drop start s)) (of_nat (nat len - start)) h2;
                  (case token of
                     None \<Rightarrow> Some (None, split_cleanup tokens h3)
                   | Some t \<Rightarrow>
                       if length tokens < slots \<and> length tokens < INT_MAX then Some (Some (tokens @ [t]), h3)
                       else None)
                }
            })"

section \<open>Quoting\<close>

definition isprint :: "byte \<Rightarrow> bool" where
  "isprint c \<longleftrightarrow> 32 \<le> c \<and> c \<le> 126"

definition isspace :: "byte \<Rightarrow> bool" where
  "isspace c \<longleftrightarrow> c = 32 \<or> 9 \<le> c \<and> c \<le> 13"

text \<open>A digit of \<open>%x\<close>.\<close>

definition hex_char :: "byte \<Rightarrow> byte" where
  "hex_char d = (if d < 10 then 48 + d else 87 + d)"

text \<open>One round of the loop of \<open>sdscatrepr\<close>; the formats are \<open>"\\\\%c"\<close>, \<open>"%c"\<close> and \<open>"\\\\x%02x"\<close>.\<close>

definition repr_step :: "byte \<Rightarrow> string_ptr \<Rightarrow> string_ptr option" where
  "repr_step c q =
     (if c = 92 \<or> c = 34 then on_string (\<lambda>str. sdscatvprintf str 3 (Some [92, c])) q
      else if c = 10 then cat_bytes [92, 110] q
      else if c = 13 then cat_bytes [92, 114] q
      else if c = 9 then cat_bytes [92, 116] q
      else if c = 7 then cat_bytes [92, 97] q
      else if c = 8 then cat_bytes [92, 98] q
      else if isprint c then on_string (\<lambda>str. sdscatvprintf str 2 (Some [c])) q
      else on_string (\<lambda>str. sdscatvprintf str 6 (Some [92, 120, hex_char (c div 16), hex_char (c mod 16)])) q)"

fun repr_loop :: "byte list \<Rightarrow> string_ptr \<Rightarrow> string_ptr option" where
  "repr_loop [] q = Some q"
| "repr_loop (c # cs) q = do { q1 \<leftarrow> repr_step c q; repr_loop cs q1 }"

definition sdscatrepr :: "sds \<Rightarrow> byte list \<Rightarrow> size_t \<Rightarrow> os \<Rightarrow> string_ptr option" where
  "sdscatrepr str p len s =
     do {
       bs \<leftarrow> mem_load p 0 (unat len);
       q1 \<leftarrow> cat_bytes [34] (Some str, s);
       q2 \<leftarrow> repr_loop bs q1;
       cat_bytes [34] q2
     }"

section \<open>Arguments\<close>

definition is_hex_digit :: "byte \<Rightarrow> bool" where
  "is_hex_digit c \<longleftrightarrow> 48 \<le> c \<and> c \<le> 57 \<or> 97 \<le> c \<and> c \<le> 102 \<or> 65 \<le> c \<and> c \<le> 70"

definition hex_digit_to_int :: "byte \<Rightarrow> byte" where
  "hex_digit_to_int c =
     (if 48 \<le> c \<and> c \<le> 57 then c - 48
      else if 97 \<le> c \<and> c \<le> 102 then c - 87
      else if 65 \<le> c \<and> c \<le> 70 then c - 55
      else 0)"

definition unescape :: "byte \<Rightarrow> byte" where
  "unescape c =
     (if c = 110 then 10 else if c = 114 then 13 else if c = 116 then 9
      else if c = 98 then 8 else if c = 97 then 7 else c)"

text \<open>\<open>*(p + i)\<close>, the characters from \<open>p\<close> on without their terminating NUL.\<close>

definition peek :: "byte list \<Rightarrow> nat \<Rightarrow> byte" where
  "peek p i = (if i < length p then p ! i else 0)"

lemma peek_nonzero: "peek p 0 \<noteq> 0 \<Longrightarrow> p \<noteq> []"
  by (auto simp: peek_def)

text \<open>The flags \<open>inq\<close> and \<open>insq\<close> of which at most one is set.\<close>

datatype qmode = Unquoted | InQuotes | InSingle

text \<open>The loop that gets one token: \<open>False\<close> for the jump to \<open>err\<close>, else the rest behind the token.\<close>

function read_token :: "qmode \<Rightarrow> byte list \<Rightarrow> string_ptr \<Rightarrow> (bool \<times> byte list \<times> string_ptr) option" where
  "read_token InQuotes p q =
     (if peek p 0 = 92 \<and> peek p 1 = 120 \<and> is_hex_digit (peek p 2) \<and> is_hex_digit (peek p 3) then
        (case cat_bytes [hex_digit_to_int (peek p 2) * 16 + hex_digit_to_int (peek p 3)] q of
           None \<Rightarrow> None
         | Some q1 \<Rightarrow> read_token InQuotes (drop 4 p) q1)
      else if peek p 0 = 92 \<and> peek p 1 \<noteq> 0 then
        (case cat_bytes [unescape (peek p 1)] q of
           None \<Rightarrow> None
         | Some q1 \<Rightarrow> read_token InQuotes (drop 2 p) q1)
      else if peek p 0 = 34 then
        (if peek p 1 \<noteq> 0 \<and> \<not> isspace (peek p 1) then Some (False, p, q) else Some (True, drop 1 p, q))
      else if peek p 0 = 0 then Some (False, p, q)
      else
        (case cat_bytes [peek p 0] q of
           None \<Rightarrow> None
         | Some q1 \<Rightarrow> read_token InQuotes (drop 1 p) q1))"
| "read_token InSingle p q =
     (if peek p 0 = 92 \<and> peek p 1 = 39 then
        (case cat_bytes [39] q of None \<Rightarrow> None | Some q1 \<Rightarrow> read_token InSingle (drop 2 p) q1)
      else if peek p 0 = 39 then
        (if peek p 1 \<noteq> 0 \<and> \<not> isspace (peek p 1) then Some (False, p, q) else Some (True, drop 1 p, q))
      else if peek p 0 = 0 then Some (False, p, q)
      else
        (case cat_bytes [peek p 0] q of
           None \<Rightarrow> None
         | Some q1 \<Rightarrow> read_token InSingle (drop 1 p) q1))"
| "read_token Unquoted p q =
     (if peek p 0 \<in> {32, 10, 13, 9, 0} then Some (True, drop 1 p, q)
      else if peek p 0 = 34 then read_token InQuotes (drop 1 p) q
      else if peek p 0 = 39 then read_token InSingle (drop 1 p) q
      else
        (case cat_bytes [peek p 0] q of
           None \<Rightarrow> None
         | Some q1 \<Rightarrow> read_token Unquoted (drop 1 p) q1))"
  by pat_completeness auto
termination
proof (relation "measure (\<lambda>(m, p, q). length p)", goal_cases)
  case (2 p q a)
  then have "peek p 0 = 92" by blast
  then show ?case using peek_nonzero [of p] by simp
next
  case (3 p q a)
  then have "peek p 0 = 92" by blast
  then show ?case using peek_nonzero [of p] by simp
next
  case (4 p q a)
  then show ?case using peek_nonzero [of p] by simp
next
  case (5 p q a)
  then have "peek p 0 = 92" by blast
  then show ?case using peek_nonzero [of p] by simp
next
  case (6 p q a)
  then show ?case using peek_nonzero [of p] by simp
next
  case (7 p q)
  then show ?case using peek_nonzero [of p] by simp
next
  case (8 p q)
  then show ?case using peek_nonzero [of p] by simp
next
  case (9 p q a)
  then show ?case using peek_nonzero [of p] by simp
qed simp

declare read_token.simps [simp del]

text \<open>A token ends behind where it starts.\<close>

definition behind :: "byte list \<Rightarrow> byte list \<Rightarrow> bool" where
  "behind p rest \<longleftrightarrow> (\<exists>k > 0. rest = drop k p)"

lemma behind_drop: "0 < k \<Longrightarrow> behind p (drop k p)"
  by (auto simp: behind_def)

lemma behind_further: "behind (drop k p) rest \<Longrightarrow> behind p rest"
  by (force simp: behind_def)

lemma behind_shorter: "behind p rest \<Longrightarrow> p \<noteq> [] \<Longrightarrow> length rest < length p"
  by (auto simp: behind_def)

lemma read_token_rest: "read_token m p q = Some (True, rest, q') \<Longrightarrow> behind p rest"
proof (induction m p q rule: read_token.induct)
  case (1 p q)
  then show ?case
    unfolding read_token.simps(1) [of p q]
    by (simp only: split: if_splits option.splits) (auto intro: behind_drop behind_further)
next
  case (2 p q)
  then show ?case
    unfolding read_token.simps(2) [of p q]
    by (simp only: split: if_splits option.splits) (auto intro: behind_drop behind_further)
next
  case (3 p q)
  then show ?case
    unfolding read_token.simps(3) [of p q]
    by (simp only: split: if_splits option.splits) (auto intro: behind_drop behind_further)
qed

text \<open>\<open>realloc\<close> of the vector of \<open>n\<close> tokens, which is NULL as long as there is none.\<close>

definition realloc_vector :: "nat \<Rightarrow> os \<Rightarrow> bool \<times> os" where
  "realloc_vector n s = (if n = 0 then alloc_object s else realloc_array s)"

text \<open>The label \<open>err\<close>.\<close>

definition args_err :: "sds option list \<Rightarrow> sds option \<Rightarrow> os \<Rightarrow> os" where
  "args_err vec current s =
     sdsfree current (c_free (if vec = [] then None else Some ()) (fold sdsfree (rev vec) s))"

text \<open>The outer loop. Each token starts with a new \<open>current\<close>, which may be NULL; storing into a
  NULL vector has no defined outcome, nor has \<open>(*argc) + 1\<close> when \<open>*argc\<close>, the length of the vector,
  is \<open>INT_MAX\<close>.\<close>

function args_loop :: "byte list \<Rightarrow> sds option list \<Rightarrow> os \<Rightarrow> (sds option list option \<times> os) option" where
  "args_loop p vec s =
     (let p1 = dropWhile isspace p in
      if peek p1 0 = 0 then
        (if vec = [] then
           (case alloc_object s of
              (True, s1) \<Rightarrow> Some (Some [], s1)
            | (False, s1) \<Rightarrow> Some (None, s1))
         else Some (Some vec, s))
      else
        (case sdsempty s of
           None \<Rightarrow> None
         | Some q \<Rightarrow>
             (case read_token Unquoted p1 q of
                None \<Rightarrow> None
              | Some (ok, rest, current, s1) \<Rightarrow>
                  if ok then
                    (if INT_MAX < length vec + 1 then None
                     else case realloc_vector (length vec) s1 of
                       (False, s2) \<Rightarrow> None
                     | (True, s2) \<Rightarrow> args_loop rest (vec @ [current]) s2)
                  else Some (None, args_err vec current s1))))"
  by pat_completeness auto
termination
proof (relation "measure (\<lambda>(p, vec, s). length p)", goal_cases)
  case 1
  then show ?case by simp
next
  case (2 p vec s p1 q x ok y rest z current s1)
  then have "read_token Unquoted p1 q = Some (True, rest, (current, s1))" "p1 \<noteq> []"
    using peek_nonzero [of p1] by (auto simp: prod_eq_iff)
  then have "length rest < length p1" using read_token_rest behind_shorter by blast
  also have "\<dots> \<le> length p" using 2(1) by (simp add: length_dropWhile_le)
  finally show ?case by simp
qed

declare args_loop.simps [simp del]

text \<open>\<open>line\<close> are the bytes behind the pointer.\<close>

definition sdssplitargs :: "byte list \<Rightarrow> os \<Rightarrow> (sds option list option \<times> os) option" where
  "sdssplitargs line s = do { n \<leftarrow> find_byte 0 line; args_loop (take n line) [] s }"

end
