(* ===== verification/SdsOps.thy ===== *)
theory SdsOps
  imports Sds
begin

text \<open>
  The operations of \<open>sds.c\<close> that work inside the buffer of one string: \<open>sdstrim\<close>,
  \<open>sdsrange\<close>, the case conversions, \<open>sdsmapchars\<close>, and the comparison of two strings.
\<close>

section \<open>Trimming\<close>

text \<open>\<open>strchr(cset, c)\<close> looks at the terminating NUL too.\<close>

definition strchr_found :: "byte list \<Rightarrow> byte \<Rightarrow> bool option" where
  "strchr_found cset c = do { n \<leftarrow> find_byte 0 cset; Some (c \<in> set (take (n + 1) cset)) }"

text \<open>The two loops; \<open>e\<close> is one more than the code's \<open>ep\<close>.\<close>

function trim_left :: "byte list \<Rightarrow> byte list \<Rightarrow> nat \<Rightarrow> nat \<Rightarrow> nat option" where
  "trim_left cset buf sp n =
     (if sp < n then
        (case mem_load buf sp 1 of
           None \<Rightarrow> None
         | Some bs \<Rightarrow>
             (case strchr_found cset (hd bs) of
                None \<Rightarrow> None
              | Some found \<Rightarrow> if found then trim_left cset buf (sp + 1) n else Some sp))
      else Some sp)"
  by pat_completeness auto
termination by (relation "measure (\<lambda>(cset, buf, sp, n). n - sp)") auto

function trim_right :: "byte list \<Rightarrow> byte list \<Rightarrow> nat \<Rightarrow> nat \<Rightarrow> nat option" where
  "trim_right cset buf sp e =
     (if e > sp + 1 then
        (case mem_load buf (e - 1) 1 of
           None \<Rightarrow> None
         | Some bs \<Rightarrow>
             (case strchr_found cset (hd bs) of
                None \<Rightarrow> None
              | Some found \<Rightarrow> if found then trim_right cset buf sp (e - 1) else Some e))
      else Some e)"
  by pat_completeness auto
termination by (relation "measure (\<lambda>(cset, buf, sp, e). e)") auto

declare trim_left.simps [simp del] trim_right.simps [simp del]

definition sdstrim :: "sds \<Rightarrow> byte list \<Rightarrow> sds option" where
  "sdstrim str cset =
     do {
       sp \<leftarrow> trim_left cset (sds_buf str) 0 (unat (sdslen str));
       e \<leftarrow> trim_right cset (sds_buf str) sp (unat (sdslen str));
       let len = e - sp in
       do {
         b \<leftarrow> (if sp \<noteq> 0 then mem_move (sds_buf str) 0 sp len else Some (sds_buf str));
         b2 \<leftarrow> mem_store b len [0];
         Some (sdssetlen (str\<lparr>sds_buf := b2\<rparr>) (of_nat len))
       }
     }"

section \<open>Ranges\<close>

text \<open>Conversion of a \<open>size_t\<close> sum to \<open>ssize_t\<close>; the signed difference of two \<open>ssize_t\<close> has no
  defined value when it does not fit.\<close>

definition SSIZE_MAX :: int where
  "SSIZE_MAX = 9223372036854775807"

definition to_ssize :: "size_t \<Rightarrow> int" where
  "to_ssize w = sint w"

definition sdsrange :: "sds \<Rightarrow> int \<Rightarrow> int \<Rightarrow> sds option" where
  "sdsrange str start stop =
     (let len = sdslen str in
      if len = 0 then Some str
      else
        (let start1 = (if start < 0 then max 0 (to_ssize (len + of_int start)) else start);
             end1 = (if stop < 0 then max 0 (to_ssize (len + of_int stop)) else stop)
         in
         if \<not> start1 > end1 \<and> end1 - start1 + 1 > SSIZE_MAX then None
         else
           (let newlen0 = (if start1 > end1 then 0 else end1 - start1 + 1);
                newlen = (if newlen0 \<noteq> 0 then
                            if start1 \<ge> to_ssize len then 0
                            else if end1 \<ge> to_ssize len then to_ssize len - 1 - start1 + 1
                            else newlen0
                          else newlen0)
            in
            do {
              b \<leftarrow> (if start1 \<noteq> 0 \<and> newlen \<noteq> 0
                   then mem_move (sds_buf str) 0 (nat start1) (nat newlen) else Some (sds_buf str));
              b2 \<leftarrow> mem_store b (nat newlen) [0];
              Some (sdssetlen (str\<lparr>sds_buf := b2\<rparr>) (of_int newlen))
            })))"

section \<open>Byte by byte\<close>

text \<open>The loop \<open>s[j] = f(s[j])\<close> from \<open>j\<close> on for \<open>k\<close> bytes.\<close>

fun update_bytes :: "(byte \<Rightarrow> byte option) \<Rightarrow> byte list \<Rightarrow> nat \<Rightarrow> nat \<Rightarrow> byte list option" where
  "update_bytes f buf j 0 = Some buf"
| "update_bytes f buf j (Suc k) =
     do {
       c \<leftarrow> mem_load buf j 1;
       c' \<leftarrow> f (hd c);
       buf1 \<leftarrow> mem_store buf j [c'];
       update_bytes f buf1 (j + 1) k
     }"

text \<open>\<open>tolower\<close> and \<open>toupper\<close> of the C locale.\<close>

definition to_lower :: "byte \<Rightarrow> byte" where
  "to_lower c = (if 65 \<le> c \<and> c \<le> 90 then c + 32 else c)"

definition to_upper :: "byte \<Rightarrow> byte" where
  "to_upper c = (if 97 \<le> c \<and> c \<le> 122 then c - 32 else c)"

definition sdstolower :: "sds \<Rightarrow> sds option" where
  "sdstolower str =
     do {
       b \<leftarrow> update_bytes (\<lambda>c. Some (to_lower c)) (sds_buf str) 0 (unat (sdslen str));
       Some (str\<lparr>sds_buf := b\<rparr>)
     }"

definition sdstoupper :: "sds \<Rightarrow> sds option" where
  "sdstoupper str =
     do {
       b \<leftarrow> update_bytes (\<lambda>c. Some (to_upper c)) (sds_buf str) 0 (unat (sdslen str));
       Some (str\<lparr>sds_buf := b\<rparr>)
     }"

text \<open>The inner loop of \<open>sdsmapchars\<close>: the first match from index \<open>i\<close> on, \<open>k\<close> entries left.\<close>

fun map_char :: "byte list \<Rightarrow> byte list \<Rightarrow> nat \<Rightarrow> nat \<Rightarrow> byte \<Rightarrow> byte option" where
  "map_char froms tos i 0 c = Some c"
| "map_char froms tos i (Suc k) c =
     do {
       f \<leftarrow> mem_load froms i 1;
       if c = hd f then do { t \<leftarrow> mem_load tos i 1; Some (hd t) }
       else map_char froms tos (i + 1) k c
     }"

definition sdsmapchars :: "sds \<Rightarrow> byte list \<Rightarrow> byte list \<Rightarrow> size_t \<Rightarrow> sds option" where
  "sdsmapchars str froms tos setlen =
     do {
       b \<leftarrow> update_bytes (map_char froms tos 0 (unat setlen)) (sds_buf str) 0 (unat (sdslen str));
       Some (str\<lparr>sds_buf := b\<rparr>)
     }"

section \<open>Comparison\<close>

text \<open>The sign of \<open>memcmp\<close>, the only thing the standard says of its result.\<close>

fun memcmp :: "byte list \<Rightarrow> byte list \<Rightarrow> int" where
  "memcmp (x # xs) (y # ys) = (if x < y then - 1 else if y < x then 1 else memcmp xs ys)"
| "memcmp _ _ = 0"

definition sdscmp :: "sds \<Rightarrow> sds \<Rightarrow> int option" where
  "sdscmp s1 s2 =
     (let l1 = sdslen s1; l2 = sdslen s2; minlen = (if l1 < l2 then l1 else l2) in
      do {
        a \<leftarrow> mem_load (sds_buf s1) 0 (unat minlen);
        b \<leftarrow> mem_load (sds_buf s2) 0 (unat minlen);
        (let cmp = memcmp a b in
         Some (if cmp = 0 then (if l1 > l2 then 1 else if l1 < l2 then - 1 else 0) else cmp))
      })"

section \<open>Lemmas\<close>

text \<open>A string whose buffer is rewritten in place and cut to \<open>n\<close> bytes.\<close>

lemma cut_outcome:
  assumes inv: "sds_inv str" and n: "n \<le> unat (sdslen str)" and b: "length b = length (sds_buf str)"
  shows "\<exists>b2. mem_store b n [0] = Some b2 \<and> sds_inv (sdssetlen (str\<lparr>sds_buf := b2\<rparr>) (of_nat n)) \<and>
    sds_content (sdssetlen (str\<lparr>sds_buf := b2\<rparr>) (of_nat n)) = take n b"
proof -
  have len: "n < length b" "n \<le> unat (sdsalloc str)" using inv n b by (auto simp: sds_inv_def)
  have u: "unat (of_nat n :: size_t) = n"
    using n unat_less_size [of "sdslen str"] by (simp add: unat_of_nat_size)
  define b2 where "b2 = take n b @ 0 # drop (n + 1) b"
  have "mem_store b n [0] = Some b2" using len by (simp add: mem_simps b2_def)
  moreover have "length b2 = length (sds_buf str)" "b2 ! n = 0" "take n b2 = take n b"
    using len b by (simp_all add: b2_def nth_append)
  ultimately show ?thesis
    using setlen_outcome [OF inv, of b2 "of_nat n"] u len by auto
qed

text \<open>The bytes that \<open>sdstrim\<close> removes at the ends: those of the set, and NUL.\<close>

definition trimmed :: "byte list \<Rightarrow> byte \<Rightarrow> bool" where
  "trimmed cset c \<longleftrightarrow> c \<in> set (takeWhile (\<lambda>x. x \<noteq> 0) cset) \<or> c = 0"

lemma strchr_found_eq: "0 \<in> set cset \<Longrightarrow> strchr_found cset c = Some (trimmed cset c)"
proof -
  assume "0 \<in> set cset"
  then obtain n where n: "find_byte 0 cset = Some n" using find_byte_None [of 0 cset] by auto
  have "take (n + 1) cset = takeWhile (\<lambda>x. x \<noteq> 0) cset @ [0]"
    using find_byte_takeWhile [OF n] n by (simp add: take_Suc_conv_app_nth find_byte_Some)
  then show ?thesis using n by (simp add: strchr_found_def trimmed_def disj_commute)
qed

lemma trim_left_outcome:
  "0 \<in> set cset \<Longrightarrow> n \<le> length buf \<Longrightarrow> sp \<le> n \<Longrightarrow>
     trim_left cset buf sp n =
       Some (sp + length (takeWhile (trimmed cset) (take (n - sp) (drop sp buf))))"
proof (induction cset buf sp n rule: trim_left.induct)
  case (1 cset buf sp n)
  show ?case
  proof (cases "sp < n")
    case True
    let ?rest = "take (n - (sp + 1)) (drop (sp + 1) buf)"
    have d: "take (n - sp) (drop sp buf) = buf ! sp # ?rest"
      using True "1.prems" by (simp add: Cons_nth_drop_Suc [symmetric] take_Cons' Suc_diff_Suc)
    have ld: "mem_load buf sp 1 = Some [buf ! sp]"
      using True "1.prems" by (simp add: mem_load_def take_Suc_conv_app_nth hd_drop_conv_nth Cons_nth_drop_Suc [symmetric])
    note f = strchr_found_eq [OF "1.prems"(1), of "buf ! sp"]
    show ?thesis
    proof (cases "trimmed cset (buf ! sp)")
      case t: True
      then have "trim_left cset buf (sp + 1) n =
          Some (sp + 1 + length (takeWhile (trimmed cset) ?rest))"
        using "1.IH" [OF True ld, of True] f "1.prems" True by simp
      then show ?thesis using True ld f t unfolding d by (simp add: trim_left.simps [of cset buf sp n])
    next
      case False
      then show ?thesis using True ld f unfolding d by (simp add: trim_left.simps [of cset buf sp n])
    qed
  next
    case False
    with "1.prems" show ?thesis by (simp add: trim_left.simps)
  qed
qed

lemma trim_right_outcome:
  "0 \<in> set cset \<Longrightarrow> e \<le> length buf \<Longrightarrow> sp \<le> e \<Longrightarrow> sp < e \<longrightarrow> \<not> trimmed cset (buf ! sp) \<Longrightarrow>
     trim_right cset buf sp e =
       Some (sp + length (dropWhile (trimmed cset) (rev (take (e - sp) (drop sp buf)))))"
proof (induction cset buf sp e rule: trim_right.induct)
  case (1 cset buf sp e)
  show ?case
  proof (cases "e > sp + 1")
    case True
    let ?front = "take (e - 1 - sp) (drop sp buf)" and ?c = "buf ! (e - 1)"
    have "take (Suc (e - 1 - sp)) (drop sp buf) = ?front @ [?c]"
      using True "1.prems" by (subst take_Suc_conv_app_nth) simp_all
    then have d: "rev (take (e - sp) (drop sp buf)) = ?c # rev ?front"
      using True by (simp add: Suc_diff_Suc)
    have ld: "mem_load buf (e - 1) 1 = Some [?c]"
      using True "1.prems" by (simp add: mem_load_def take_Suc_conv_app_nth hd_drop_conv_nth Cons_nth_drop_Suc [symmetric])
    note f = strchr_found_eq [OF "1.prems"(1), of ?c]
    show ?thesis
    proof (cases "trimmed cset ?c")
      case t: True
      then have "trim_right cset buf sp (e - 1) =
          Some (sp + length (dropWhile (trimmed cset) (rev ?front)))"
        using "1.IH" [OF True ld, of True] f "1.prems" True by simp
      then show ?thesis using True ld f t unfolding d by (simp add: trim_right.simps [of cset buf sp e])
    next
      case False
      then show ?thesis
        using True ld f "1.prems" unfolding d by (simp add: trim_right.simps [of cset buf sp e])
    qed
  next
    case False
    show ?thesis
    proof (cases "sp < e")
      case True
      then have "take (e - sp) (drop sp buf) = [buf ! sp]"
        using False "1.prems" by (simp add: take_Suc_conv_app_nth hd_drop_conv_nth Cons_nth_drop_Suc [symmetric]
            take_Cons')
      then show ?thesis using False True "1.prems" by (simp add: trim_right.simps [of cset buf sp e])
    next
      case e: False
      then have "sp = e" using "1.prems"(3) by simp
      then show ?thesis by (simp add: trim_right.simps [of cset buf e e])
    qed
  qed
qed

text \<open>What is left between the two ends.\<close>

definition trim :: "('a \<Rightarrow> bool) \<Rightarrow> 'a list \<Rightarrow> 'a list" where
  "trim p xs = rev (dropWhile p (rev (dropWhile p xs)))"

lemma trim_take: "take (length (dropWhile p (rev ys))) ys = rev (dropWhile p (rev ys))"
  by (simp add: dropWhile_eq_drop rev_drop)

text \<open>The part of \<open>k\<close> bytes from \<open>a\<close> is moved to the front, when it is not there, and ended.\<close>

lemma kept_outcome:
  assumes inv: "sds_inv str" and k: "k \<le> unat (sdslen str)"
    and m: "m \<Longrightarrow> a + k \<le> unat (sdslen str)" "\<not> m \<Longrightarrow> a = 0 \<or> k = 0"
  shows "\<exists>b b2. (if m then mem_move (sds_buf str) 0 a k else Some (sds_buf str)) = Some b \<and>
    mem_store b k [0] = Some b2 \<and>
    sds_inv (sdssetlen (str\<lparr>sds_buf := b2\<rparr>) (of_nat k)) \<and>
    sds_content (sdssetlen (str\<lparr>sds_buf := b2\<rparr>) (of_nat k)) = take k (drop a (sds_content str))"
proof -
  let ?n = "unat (sdslen str)" and ?buf = "sds_buf str"
  have n: "?n < length ?buf" using inv by (simp add: sds_inv_def)
  define b where "b = (if m then take k (drop a ?buf) @ drop k ?buf else ?buf)"
  have "(if m then mem_move ?buf 0 a k else Some ?buf) = Some b"
    using k m(1) n by (auto simp: b_def mem_simps)
  moreover have b: "length b = length ?buf" "take k b = take k (drop a ?buf)"
    using k m n by (auto simp: b_def min_absorb1)
  moreover have "take k (drop a ?buf) = take k (drop a (sds_content str))"
    using k m by (cases m) (auto simp: sds_content_def drop_take min_absorb1)
  ultimately show ?thesis using cut_outcome [OF inv k b(1)] by auto
qed

lemma trim_outcome:
  assumes inv: "sds_inv str" and cset: "0 \<in> set cset"
  shows "\<exists>str'. sdstrim str cset = Some str' \<and> sds_inv str' \<and>
    sds_content str' = trim (trimmed cset) (sds_content str)"
proof -
  let ?n = "unat (sdslen str)" and ?buf = "sds_buf str" and ?P = "trimmed cset"
  let ?c = "sds_content str"
  have n: "?n < length ?buf" using inv by (simp add: sds_inv_def)
  have c: "?c = take ?n ?buf" by (simp add: sds_content_def)
  define sp where "sp = length (takeWhile ?P ?c)"
  have sp: "trim_left cset ?buf 0 ?n = Some sp"
    using trim_left_outcome [OF cset, of ?n ?buf 0] n by (simp add: sp_def c)
  have le: "sp \<le> ?n" using length_takeWhile_le [of ?P ?c] n by (simp add: sp_def c)
  have rest: "take (?n - sp) (drop sp ?buf) = dropWhile ?P ?c"
    unfolding dropWhile_eq_drop sp_def [symmetric] unfolding c by (simp add: drop_take)
  have first: "sp < ?n \<longrightarrow> \<not> ?P (?buf ! sp)"
    using nth_length_takeWhile [of ?P ?c] n by (simp add: sp_def c)
  let ?len = "length (dropWhile ?P (rev (dropWhile ?P ?c)))"
  have e: "trim_right cset ?buf sp ?n = Some (sp + ?len)"
    using trim_right_outcome [OF cset _ le first] n rest by simp
  have len: "?len \<le> ?n - sp"
    using length_dropWhile_le [of ?P "rev (dropWhile ?P ?c)"] arg_cong [OF rest, of length] n by simp
  have tk: "take ?len (drop sp ?c) = trim ?P ?c"
    using trim_take [of ?P "dropWhile ?P ?c"]
    by (simp add: trim_def dropWhile_eq_drop [of ?P ?c] sp_def)
  have mv: "sp \<noteq> 0 \<Longrightarrow> sp + ?len \<le> ?n" "\<not> sp \<noteq> 0 \<Longrightarrow> sp = 0 \<or> ?len = 0" using le len by simp_all
  obtain b b2 where b2: "(if sp \<noteq> 0 then mem_move ?buf 0 sp ?len else Some ?buf) = Some b"
    "mem_store b ?len [0] = Some b2"
    "sds_inv (sdssetlen (str\<lparr>sds_buf := b2\<rparr>) (of_nat ?len))"
    "sds_content (sdssetlen (str\<lparr>sds_buf := b2\<rparr>) (of_nat ?len)) = take ?len (drop sp ?c)"
    using kept_outcome [OF inv le_trans [OF len diff_le_self] mv] by blast
  have "sdstrim str cset = Some (sdssetlen (str\<lparr>sds_buf := b2\<rparr>) (of_nat ?len))"
    using sp e b2(1,2) unfolding sdstrim_def by simp
  with b2(3,4) tk show ?thesis by (simp only: option.inject) blast
qed

text \<open>The range of \<open>sdsrange\<close>: negative indices count from the end.\<close>

definition from_end :: "int \<Rightarrow> int \<Rightarrow> int" where
  "from_end len i = (if i < 0 then max 0 (len + i) else i)"

lemma to_ssize_small:
  assumes "int (unat w) + i < 9223372036854775808" and "- 9223372036854775808 \<le> int (unat w) + i"
  shows "to_ssize (w + of_int i) = int (unat w) + i"
proof -
  have "w + of_int i = (of_int (int (unat w) + i) :: size_t)" by simp
  then have "to_ssize (w + of_int i) = signed_take_bit 63 (int (unat w) + i)"
    by (simp add: to_ssize_def sint_sbintrunc' del: of_int_add)
  then show ?thesis using assms by (simp add: signed_take_bit_int_eq_self)
qed

text \<open>How many bytes stay, and that they are the range of the specification.\<close>

definition range_size :: "nat \<Rightarrow> int \<Rightarrow> int \<Rightarrow> int" where
  "range_size n a z =
     (if a > z then 0 else if a \<ge> int n then 0 else if z \<ge> int n then int n - a else z - a + 1)"

lemma range_size_bounds:
  assumes "0 \<le> a" and "0 \<le> z"
  shows "0 \<le> range_size n a z" "nat (range_size n a z) \<le> n"
    "range_size n a z \<noteq> 0 \<Longrightarrow> nat a + nat (range_size n a z) \<le> n"
  using assms by (auto simp: range_size_def split: if_splits)

lemma range_size_take:
  assumes "0 \<le> a" and "length xs = n"
  shows "take (nat (z - a + 1)) (drop (nat a) xs) = take (nat (range_size n a z)) (drop (nat a) xs)"
proof -
  consider "a > z \<or> a \<ge> int n" | "a \<le> z" "z < int n" | "a < int n" "int n \<le> z" by linarith
  then show ?thesis
  proof cases
    case 1
    moreover from 1 have "z < a \<or> n \<le> nat a" by linarith
    ultimately show ?thesis using assms(2) by (auto simp: range_size_def)
  next
    case 3
    then have "length (drop (nat a) xs) \<le> nat (z - a + 1)" "length (drop (nat a) xs) \<le> nat (int n - a)"
      using assms by simp_all
    then show ?thesis using 3 by (simp add: range_size_def)
  qed (simp add: range_size_def)
qed

lemma to_ssize_sums:
  assumes "int (unat len) < 2 ^ 62" and "- (2 ^ 62) \<le> i" "i < 2 ^ 62"
  shows "to_ssize len = int (unat len)" "to_ssize (len + of_int i) = int (unat len) + i"
proof -
  have b: "int (unat len) < 4611686018427387904" "- 4611686018427387904 \<le> i" "i < 4611686018427387904"
    using assms by simp_all
  show "to_ssize (len + of_int i) = int (unat len) + i"
    by (rule to_ssize_small; use b in linarith)
  have "to_ssize (len + of_int 0) = int (unat len) + 0"
    by (rule to_ssize_small; use b in linarith)
  then show "to_ssize len = int (unat len)" by simp
qed

lemma range_outcome:
  assumes inv: "sds_inv str" and small: "int (unat (sdslen str)) < 2 ^ 62"
    and start: "- (2 ^ 62) \<le> start" "start < 2 ^ 62" and stop: "- (2 ^ 62) \<le> stop" "stop < 2 ^ 62"
  defines "a \<equiv> from_end (int (unat (sdslen str))) start"
    and "z \<equiv> from_end (int (unat (sdslen str))) stop"
  shows "\<exists>str'. sdsrange str start stop = Some str' \<and> sds_inv str' \<and>
    sds_content str' = take (nat (z - a + 1)) (drop (nat a) (sds_content str))"
proof (cases "sdslen str = 0")
  case True
  then have "sds_content str = []" by (simp add: sds_content_def)
  then show ?thesis using True inv by (simp add: sdsrange_def)
next
  case False
  let ?n = "unat (sdslen str)" and ?buf = "sds_buf str"
  note conv = to_ssize_sums(1) [OF small start] to_ssize_sums(2) [OF small start] to_ssize_sums(2) [OF small stop]
  have ends: "(if start < 0 then max 0 (to_ssize (sdslen str + of_int start)) else start) = a"
    "(if stop < 0 then max 0 (to_ssize (sdslen str + of_int stop)) else stop) = z"
    by (simp_all add: a_def z_def from_end_def conv)
  have az: "0 \<le> a" "0 \<le> z" "z < 2 ^ 62"
    using start stop small by (auto simp: a_def z_def from_end_def)
  define k where "k = range_size ?n a z"
  note k = range_size_bounds [OF az(1,2), of ?n, folded k_def]
  have nk: "a \<noteq> 0 \<and> k \<noteq> 0 \<Longrightarrow> nat a + nat k \<le> ?n" "\<not> (a \<noteq> 0 \<and> k \<noteq> 0) \<Longrightarrow> nat a = 0 \<or> nat k = 0"
    using k by auto
  obtain b b2 where b2: "(if a \<noteq> 0 \<and> k \<noteq> 0 then mem_move ?buf 0 (nat a) (nat k) else Some ?buf) = Some b"
    "mem_store b (nat k) [0] = Some b2"
    "sds_inv (sdssetlen (str\<lparr>sds_buf := b2\<rparr>) (of_nat (nat k)))"
    "sds_content (sdssetlen (str\<lparr>sds_buf := b2\<rparr>) (of_nat (nat k))) = take (nat k) (drop (nat a) (sds_content str))"
    using kept_outcome [OF inv k(2) nk] by blast
  have fine: "\<not> (\<not> a > z \<and> z - a + 1 > SSIZE_MAX)" using az by (simp add: SSIZE_MAX_def)
  have nl: "(let newlen0 = (if a > z then 0 else z - a + 1)
      in if newlen0 \<noteq> 0 then if a \<ge> int ?n then 0 else if z \<ge> int ?n then int ?n - 1 - a + 1 else newlen0
         else newlen0) = k"
    by (simp add: k_def range_size_def Let_def)
  have "sdsrange str start stop = Some (sdssetlen (str\<lparr>sds_buf := b2\<rparr>) (of_int k))"
    using False fine b2(1,2) unfolding sdsrange_def Let_def ends conv(1) nl [unfolded Let_def] by simp
  moreover have "of_int k = (of_nat (nat k) :: size_t)" using k(1) by (simp add: of_nat_nat)
  ultimately show ?thesis
    using b2(3,4) range_size_take [OF az(1) content_length [OF inv], of z] by (simp add: k_def)
qed

lemma update_bytes_outcome:
  "j + k \<le> length buf \<Longrightarrow>
     update_bytes (\<lambda>c. Some (g c)) buf j k = Some (take j buf @ map g (take k (drop j buf)) @ drop (j + k) buf)"
proof (induction k arbitrary: buf j)
  case 0
  then show ?case by simp
next
  case (Suc k)
  let ?b = "take j buf @ g (buf ! j) # drop (Suc j) buf"
  have d: "drop j buf = buf ! j # drop (Suc j) buf" using Suc.prems by (simp add: Cons_nth_drop_Suc)
  have b: "mem_load buf j 1 = Some [buf ! j]" "mem_store buf j [g (buf ! j)] = Some ?b"
    using Suc.prems by (simp_all add: mem_load_def mem_store_def d)
  have "update_bytes (\<lambda>c. Some (g c)) ?b (Suc j) k =
      Some (take (Suc j) ?b @ map g (take k (drop (Suc j) ?b)) @ drop (Suc j + k) ?b)"
    using Suc.prems by (intro Suc.IH) simp_all
  then show ?case
    using b Suc.prems d by (simp add: min_absorb2 add.commute [of k])
qed

text \<open>The bytes of the content are mapped, the rest of the object stays.\<close>

lemma map_outcome:
  assumes inv: "sds_inv str" and f: "\<And>c. f c = Some (g c)"
  shows "\<exists>b. update_bytes f (sds_buf str) 0 (unat (sdslen str)) = Some b \<and>
    sds_inv (str\<lparr>sds_buf := b\<rparr>) \<and> sds_content (str\<lparr>sds_buf := b\<rparr>) = map g (sds_content str)"
proof -
  let ?n = "unat (sdslen str)" and ?buf = "sds_buf str"
  have n: "?n < length ?buf" using inv by (simp add: sds_inv_def)
  let ?b = "map g (take ?n ?buf) @ drop ?n ?buf"
  have "f = (\<lambda>c. Some (g c))" using f by (rule ext)
  then have "update_bytes f ?buf 0 ?n = Some ?b"
    using update_bytes_outcome [of 0 ?n ?buf g] n by simp
  moreover have "sds_inv (str\<lparr>sds_buf := ?b\<rparr>)"
    using inv n
    by (cases "type_of_sds str = SDS_TYPE_5") (simp_all add: sds_inv_def sdslen_def sdsalloc_def nth_append)
  moreover have "sds_content (str\<lparr>sds_buf := ?b\<rparr>) = map g (sds_content str)"
    using n by (simp add: sds_content_def sdslen_def)
  ultimately show ?thesis by blast
qed

text \<open>The first pair of \<open>from\<close> and \<open>to\<close> that matches decides.\<close>

lemma map_char_outcome:
  "i + k \<le> length froms \<Longrightarrow> i + k \<le> length tos \<Longrightarrow>
     map_char froms tos i k c =
       Some (case find (\<lambda>p. fst p = c) (take k (drop i (zip froms tos))) of
               None \<Rightarrow> c | Some p \<Rightarrow> snd p)"
proof (induction k arbitrary: i)
  case 0
  then show ?case by simp
next
  case (Suc k)
  then have l: "mem_load froms i 1 = Some [froms ! i]" "mem_load tos i 1 = Some [tos ! i]"
    by (simp_all add: mem_load_def take_Suc_conv_app_nth hd_drop_conv_nth Cons_nth_drop_Suc [symmetric])
  have d: "drop i (zip froms tos) = (froms ! i, tos ! i) # drop (Suc i) (zip froms tos)"
    using Suc.prems by (subst Cons_nth_drop_Suc [symmetric]) simp_all
  show ?case using Suc.IH [of "Suc i"] Suc.prems l by (simp add: d)
qed

lemma memcmp_equal_length:
  "length a = length b \<Longrightarrow> (memcmp a b = 0 \<longleftrightarrow> a = b) \<and> memcmp b a = - memcmp a b"
proof (induction a b rule: memcmp.induct)
  case (1 x xs y ys)
  then show ?case by auto
qed auto

lemma memcmp_lexord:
  "(memcmp (take n a) (take n b) < 0 \<or> memcmp (take n a) (take n b) = 0 \<and> length a < length b) \<longleftrightarrow>
     ord_class.lexordp a b" if "n = min (length a) (length b)"
  using that
proof (induction a arbitrary: b n)
  case Nil
  then show ?case by (cases b) auto
next
  case (Cons x xs)
  show ?case
  proof (cases b)
    case Nil
    with Cons.prems show ?thesis by simp
  next
    case b: (Cons y ys)
    with Cons.prems have "n = Suc (min (length xs) (length ys))" by simp
    then show ?thesis using Cons.IH [of "min (length xs) (length ys)" ys] b by auto
  qed
qed

lemma cmp_outcome:
  assumes "sds_inv s" and "sds_inv t"
  shows "\<exists>r. sdscmp s t = Some r \<and> (r < 0 \<longleftrightarrow> ord_class.lexordp (sds_content s) (sds_content t)) \<and>
    (r > 0 \<longleftrightarrow> ord_class.lexordp (sds_content t) (sds_content s)) \<and>
    (r = 0 \<longleftrightarrow> sds_content s = sds_content t)"
proof -
  let ?a = "sds_content s" and ?b = "sds_content t"
  let ?n = "min (length ?a) (length ?b)"
  let ?m = "memcmp (take ?n ?a) (take ?n ?b)"
  have l: "length ?a = unat (sdslen s)" "length ?b = unat (sdslen t)"
    "unat (sdslen s) < length (sds_buf s)" "unat (sdslen t) < length (sds_buf t)"
    using assms content_length by (auto simp: sds_inv_def)
  have mn: "unat (if sdslen s < sdslen t then sdslen s else sdslen t) = ?n"
    using l by (simp add: word_less_nat_alt)
  have run: "sdscmp s t = Some (if ?m = 0 then (if length ?a > length ?b then 1
      else if length ?a < length ?b then - 1 else 0) else ?m)"
    using l mn
    by (simp add: sdscmp_def Let_def mem_simps word_less_nat_alt sds_content_def min_absorb1 min_absorb2
        del: length_take)
  have sym: "memcmp (take ?n ?b) (take ?n ?a) = - ?m" "?m = 0 \<longleftrightarrow> take ?n ?a = take ?n ?b"
    using memcmp_equal_length [of "take ?n ?a" "take ?n ?b"] by simp_all
  have lt: "ord_class.lexordp ?a ?b \<longleftrightarrow> ?m < 0 \<or> ?m = 0 \<and> length ?a < length ?b"
    using memcmp_lexord [of ?n ?a ?b] by blast
  have gt: "ord_class.lexordp ?b ?a \<longleftrightarrow> ?m > 0 \<or> ?m = 0 \<and> length ?b < length ?a"
    using memcmp_lexord [of ?n ?b ?a] sym(1) by (simp add: min.commute)
  have eq: "?a = ?b \<longleftrightarrow> ?m = 0 \<and> length ?a = length ?b"
    using sym(2) by (metis min.idem take_all_iff order_refl)
  show ?thesis unfolding run lt gt eq by auto
qed

end
