(* ===== verification/SdsTextProps.thy ===== *)
theory SdsTextProps
  imports SdsText SdsOps
begin

text \<open>
  What the functions of \<open>SdsText\<close> compute: joining, splitting, quoting and reading arguments
  back, each against a definition on lists of bytes, with memory available and with
  allocations that fail.
\<close>

section \<open>Appending\<close>

fun append_all :: "('b \<Rightarrow> 'q \<Rightarrow> 'q option) \<Rightarrow> 'b list \<Rightarrow> 'q \<Rightarrow> 'q option" where
  "append_all put [] q = Some q"
| "append_all put (b # bs) q = do { q1 \<leftarrow> put b q; append_all put bs q1 }"

lemma append_all_part [simp]:
  "append_all put [] = Some"
  "append_all put (b # bs) = (\<lambda>q. do { q1 \<leftarrow> put b q; append_all put bs q1 })"
  by (rule ext; simp)+

declare append_all.simps [simp del]

lemma append_all_snoc: "append_all put (bs @ [b]) q = do { q1 \<leftarrow> append_all put bs q; put b q1 }"
  by (induction bs arbitrary: q) simp_all

text \<open>Something that bytes are appended to: it has room for so many more, holds a text, and
  keeps what is not part of it.\<close>

locale byte_builder =
  fixes put :: "'b list \<Rightarrow> 'q \<Rightarrow> 'q option"
    and room :: "nat \<Rightarrow> 'q \<Rightarrow> bool"
    and built :: "'q \<Rightarrow> 'b list"
    and kept :: "'q \<Rightarrow> 'k"
  assumes put_ok: "room n q \<Longrightarrow> length bs \<le> n \<Longrightarrow>
      \<exists>q'. put bs q = Some q' \<and> room (n - length bs) q' \<and> built q' = built q @ bs \<and> kept q' = kept q"
begin

lemma put_fits:
  assumes "room (length bs + n) q"
  obtains q' where "put bs q = Some q'" and "room n q'" and "built q' = built q @ bs"
    and "kept q' = kept q"
  using put_ok [OF assms, of bs] by auto

lemma append_all_fits:
  "room (length (concat bss) + n) q \<Longrightarrow>
     \<exists>q'. append_all put bss q = Some q' \<and> room n q' \<and> built q' = built q @ concat bss \<and>
       kept q' = kept q"
proof (induction bss arbitrary: q)
  case Nil
  then show ?case by simp
next
  case (Cons bs bss)
  then have "room (length bs + (length (concat bss) + n)) q" by (simp add: add.assoc)
  then obtain q1 where q1: "put bs q = Some q1" "room (length (concat bss) + n) q1"
    "built q1 = built q @ bs" "kept q1 = kept q"
    by (rule put_fits)
  then show ?case using Cons.IH [OF q1(2)] by simp
qed

end

text \<open>The string behind a pointer, with memory available and far from the largest size.\<close>

fun string_room :: "nat \<Rightarrow> string_ptr \<Rightarrow> bool" where
  "string_room n (None, s) \<longleftrightarrow> False"
| "string_room n (Some str, s) \<longleftrightarrow>
     sds_inv str \<and> mallocs_ok s \<and> length (sds_content str) + n \<le> 2 ^ 62"

fun string_content :: "string_ptr \<Rightarrow> byte list" where
  "string_content (None, s) = []"
| "string_content (Some str, s) = sds_content str"

definition string_live :: "string_ptr \<Rightarrow> int" where
  "string_live q = live (snd q)"

lemma sdscatlen_prefix:
  assumes "unat n \<le> length t"
  shows "(\<lambda>str. sdscatlen str t n) = (\<lambda>str. sdscatlen str (take (unat n) t) n)"
proof -
  have "mem_load t 0 (unat n) = mem_load (take (unat n) t) 0 (unat n)"
    using assms by (simp add: mem_load_def)
  then show ?thesis by (simp only: sdscatlen_def [abs_def])
qed

lemma cat_bytes_ok:
  assumes "string_room n q" and "length bs \<le> n"
  shows "\<exists>q'. cat_bytes bs q = Some q' \<and> string_room (n - length bs) q' \<and>
    string_content q' = string_content q @ bs \<and> string_live q' = string_live q"
proof -
  obtain str s where q: "q = (Some str, s)" "sds_inv str" "mallocs_ok s"
    "length (sds_content str) + n \<le> 2 ^ 62"
    using assms(1) by (cases "(n, q)" rule: string_room.cases) auto
  have l: "unat (of_nat (length bs) :: size_t) = length bs"
    using q(4) assms(2) by (intro unat_of_nat_size) simp
  have "unat (sdslen str) + unat (of_nat (length bs) :: size_t) \<le> 2 ^ 63"
    using q(4) assms(2) unfolding l content_length [OF q(2)] by simp
  then obtain r s' where r: "sdscatlen str bs (of_nat (length bs)) s = Some (r, s')"
    "grow_post s (sds_content str @ bs) r s'"
    using catlen_outcome [OF q(2), of "of_nat (length bs)" bs s] l by auto
  then obtain c where c: "r = Str c" "sds_inv c" "sds_content c = sds_content str @ bs"
    "live s' = live s" "mallocs_ok s'"
    using q(3) by (cases r) (auto simp: grow_post_def)
  have "cat_bytes bs q = Some (Some c, s')"
    using r(1) c(1) q(1) by (simp add: cat_bytes_def on_string_def)
  then show ?thesis using c q assms(2) by (simp add: string_live_def)
qed

interpretation sb: byte_builder cat_bytes string_room string_content string_live
  by unfold_locales (rule cat_bytes_ok)

lemma sdsempty_room:
  assumes "mallocs_ok s"
  shows "\<exists>q. sdsempty s = Some q \<and> string_room (2 ^ 62) q \<and> string_content q = [] \<and>
    string_live q = live s + 1"
proof -
  obtain r s' where "sdsempty s = Some (r, s')" "mallocs_ok s'"
    "case r of None \<Rightarrow> live s' = live s \<and> \<not> mallocs_ok s
     | Some str \<Rightarrow> live s' = live s + 1 \<and> sds_inv str \<and> sdslen str = 0"
    using sdsnewlen_outcome [of 0 "InitBytes [0]" s] assms
    by (auto simp: sdsempty_def split: option.splits)
  then show ?thesis using assms by (auto simp: string_live_def sds_content_def split: option.splits)
qed

section \<open>Joining\<close>

fun joined :: "'a list \<Rightarrow> 'a list list \<Rightarrow> 'a list" where
  "joined sep [] = []"
| "joined sep [t] = t"
| "joined sep (t # u # ts) = t @ sep @ joined sep (u # ts)"

fun join_pieces :: "'a list \<Rightarrow> 'a list list \<Rightarrow> 'a list list" where
  "join_pieces sep [] = []"
| "join_pieces sep [t] = [t]"
| "join_pieces sep (t # u # ts) = t # sep # join_pieces sep (u # ts)"

lemma concat_join_pieces [simp]: "concat (join_pieces sep ts) = joined sep ts"
  by (induction sep ts rule: joined.induct) simp_all

lemma append_content:
  assumes "sds_inv t"
  shows "on_string (\<lambda>str. sdscatsds str t) = cat_bytes (sds_content t)"
proof -
  have "(\<lambda>str. sdscatsds str t) = (\<lambda>str. sdscatlen str (sds_buf t) (sdslen t))"
    by (intro ext) (simp add: sdscatsds_def)
  also have "\<dots> = (\<lambda>str. sdscatlen str (sds_content t) (of_nat (length (sds_content t))))"
    using sdscatlen_prefix [of "sdslen t" "sds_buf t"] content_length [OF assms] assms
    by (simp add: sds_content_def sds_inv_def)
  finally show ?thesis by (simp add: cat_bytes_def)
qed

lemma append_cstring:
  assumes "find_byte 0 t = Some n" and "n < 2 ^ 62"
  shows "on_string (\<lambda>str. sdscat str t) = cat_bytes (take n t)"
proof -
  have n: "unat (of_nat n :: size_t) = n" "n < length t"
    using assms by (simp_all add: unat_of_nat_size find_byte_Some)
  have "(\<lambda>str. sdscat str t) = (\<lambda>str. sdscatlen str t (of_nat n))"
    using assms(1) by (intro ext) (simp add: sdscat_def strlen_def)
  then show ?thesis
    using sdscatlen_prefix [of "of_nat n" t] n by (simp add: cat_bytes_def min_absorb2)
qed

lemma join_loop_pieces:
  assumes "unat seplen \<le> length sep"
  shows "\<forall>t \<in> set ts. sds_inv t \<Longrightarrow>
    join_loop ts sep seplen q =
      append_all cat_bytes (join_pieces (take (unat seplen) sep) (map sds_content ts)) q"
proof (induction ts arbitrary: q)
  case Nil
  then show ?case by simp
next
  case (Cons t ts)
  have sep: "on_string (\<lambda>str. sdscatlen str sep seplen) = cat_bytes (take (unat seplen) sep)"
    using assms sdscatlen_prefix [of seplen sep] by (simp add: cat_bytes_def)
  have ih: "join_loop ts sep seplen =
      append_all cat_bytes (join_pieces (take (unat seplen) sep) (map sds_content ts))"
    using Cons by (intro ext) simp
  show ?case
    using Cons.prems ih append_content [of t] sep by (cases ts) simp_all
qed

lemma join_cstrings_pieces:
  assumes "find_byte 0 sep = Some m" and "m < 2 ^ 62"
  shows "\<forall>t \<in> set ts. \<exists>n < 2 ^ 62. find_byte 0 t = Some n \<Longrightarrow>
    join_cstrings ts sep q =
      append_all cat_bytes
        (join_pieces (takeWhile (\<lambda>c. c \<noteq> 0) sep) (map (takeWhile (\<lambda>c. c \<noteq> 0)) ts)) q"
proof (induction ts arbitrary: q)
  case Nil
  then show ?case by simp
next
  case (Cons t ts)
  obtain n where n: "find_byte 0 t = Some n" "n < 2 ^ 62" using Cons.prems by auto
  have "take n t = takeWhile (\<lambda>c. c \<noteq> 0) t" "take m sep = takeWhile (\<lambda>c. c \<noteq> 0) sep"
    using find_byte_takeWhile [OF n(1)] find_byte_takeWhile [OF assms(1)] by simp_all
  moreover have "join_cstrings ts sep =
      append_all cat_bytes (join_pieces (takeWhile (\<lambda>c. c \<noteq> 0) sep) (map (takeWhile (\<lambda>c. c \<noteq> 0)) ts))"
    using Cons by (intro ext) simp
  ultimately show ?case
    using append_cstring [OF n] append_cstring [OF assms] by (cases ts) simp_all
qed

lemma join_outcome:
  assumes "mallocs_ok s" and "length (concat bss) \<le> 2 ^ 62"
    and "\<And>q. f q = append_all cat_bytes bss q"
  shows "\<exists>str s'. do { q \<leftarrow> sdsempty s; f q } = Some (Some str, s') \<and> sds_inv str \<and>
    sds_content str = concat bss \<and> live s' = live s + 1 \<and> mallocs_ok s'"
proof -
  obtain q where q: "sdsempty s = Some q" "string_room (2 ^ 62) q" "string_content q = []"
    "string_live q = live s + 1"
    using sdsempty_room [OF assms(1)] by blast
  have "string_room (length (concat bss) + (2 ^ 62 - length (concat bss))) q"
    using q(2) assms(2) by simp
  from sb.append_all_fits [OF this] obtain q' where
    "append_all cat_bytes bss q = Some q'" "string_room (2 ^ 62 - length (concat bss)) q'"
    "string_content q' = concat bss" "string_live q' = live s + 1"
    using q by auto
  then show ?thesis
    using q(1) assms(3)
    by (cases "(0 :: nat, q')" rule: string_room.cases) (auto simp: string_live_def)
qed

lemma joinsds_outcome:
  assumes "mallocs_ok s" and "unat seplen \<le> length sep" and "\<forall>t \<in> set ts. sds_inv t"
    and "length (joined (take (unat seplen) sep) (map sds_content ts)) \<le> 2 ^ 62"
    and "length ts \<le> INT_MAX"
  shows "\<exists>str s'. sdsjoinsds ts sep seplen s = Some (Some str, s') \<and> sds_inv str \<and>
    sds_content str = joined (take (unat seplen) sep) (map sds_content ts) \<and>
    live s' = live s + 1 \<and> mallocs_ok s'"
proof -
  have "join_loop ts sep seplen = append_all cat_bytes (join_pieces (take (unat seplen) sep) (map sds_content ts))"
    by (intro ext join_loop_pieces [OF assms(2,3)])
  then show ?thesis
    using join_outcome [OF assms(1), of "join_pieces (take (unat seplen) sep) (map sds_content ts)"] assms(4,5)
    by (simp add: sdsjoinsds_def)
qed

section \<open>Splitting\<close>

text \<open>The pieces between the leftmost separators.\<close>

function split_on :: "'a list \<Rightarrow> 'a list \<Rightarrow> 'a list list" where
  "split_on sep s =
     (if sep = [] then [s]
      else case memmem sep s of
             None \<Rightarrow> [s]
           | Some i \<Rightarrow> take i s # split_on sep (drop (i + length sep) s))"
  by pat_completeness auto
termination
proof (relation "measure (\<lambda>(sep, s). length s)", goal_cases)
  case 1
  then show ?case by simp
next
  case (2 sep s i)
  then show ?case using mm.search_fits [of sep s i] by (cases sep) auto
qed

declare split_on.simps [simp del]

lemma split_on_None: "memmem sep s = None \<Longrightarrow> split_on sep s = [s]"
  by (simp add: split_on.simps)

lemma split_on_Some:
  "sep \<noteq> [] \<Longrightarrow> memmem sep s = Some i \<Longrightarrow>
     split_on sep s = take i s # split_on sep (drop (i + length sep) s)"
  by (simp add: split_on.simps)

lemma split_on_nonempty: "split_on sep s \<noteq> []"
  by (simp add: split_on.simps split: option.split)

text \<open>Joining the pieces gives the text back, and no piece contains the separator.\<close>

lemma joined_Cons: "ts \<noteq> [] \<Longrightarrow> joined sep (t # ts) = t @ sep @ joined sep ts"
  by (cases ts) simp_all

lemma join_split: "joined sep (split_on sep s) = s"
proof (induction sep s rule: split_on.induct)
  case (1 sep s)
  show ?case
  proof (cases "sep = [] \<or> memmem sep s = None")
    case True
    then show ?thesis by (auto simp: split_on.simps)
  next
    case False
    then obtain i where i: "sep \<noteq> []" "memmem sep s = Some i" by auto
    have "drop i s = sep @ drop (i + length sep) s"
      using mm.search_bytes [OF i(2)] by (metis append_take_drop_id drop_drop add.commute)
    moreover have "joined sep (split_on sep s) = take i s @ sep @ drop (i + length sep) s"
      using 1 i by (simp add: split_on_Some joined_Cons split_on_nonempty)
    ultimately show ?thesis by (metis append_take_drop_id)
  qed
qed

lemma no_separator_inside:
  assumes "memmem sep s = Some i" and "sep \<noteq> []"
  shows "\<not> occurs_at sep (take i s) j"
proof
  assume occ: "occurs_at sep (take i s) j"
  then have "j < i" using assms(2) by (cases sep) (auto simp: occurs_at_def)
  moreover have "occurs_at sep s j"
    using mm.occurs_append [OF occ, of "drop i s"] by simp
  ultimately show False using assms(1) by (simp add: memmem_Some)
qed

lemma split_pieces:
  "sep \<noteq> [] \<Longrightarrow> t \<in> set (split_on sep s) \<Longrightarrow> \<not> occurs_at sep t j"
proof (induction sep s rule: split_on.induct)
  case (1 sep s)
  show ?case
  proof (cases "memmem sep s")
    case None
    then show ?thesis using 1 memmem_None [of sep s] by (auto simp: split_on_None)
  next
    case (Some i)
    then show ?thesis
      using 1 no_separator_inside [OF Some] by (auto simp: split_on_Some)
  qed
qed


lemma realloc_array_frame:
  assumes "realloc_array h = (ok, h')"
  shows "live h' = live h \<and> (mallocs_ok h \<longrightarrow> mallocs_ok h' \<and> ok)"
proof -
  obtain b h1 where a: "alloc_object h = (b, h1)" by fastforce
  show ?thesis
    using assms a alloc_object_frame [OF a] alloc_object_ok [OF _ a]
    by (cases b) (auto simp: realloc_array_def)
qed

lemma piece_outcome:
  assumes "start \<le> j" and "j \<le> length s" and "j < 2 ^ 63"
  shows "\<exists>r h'. sdsnewlen (InitBytes (drop start s)) (of_nat (j - start)) h = Some (r, h') \<and>
    (mallocs_ok h \<longrightarrow> mallocs_ok h' \<and> r \<noteq> None) \<and>
    (case r of
       None \<Rightarrow> live h' = live h
     | Some t \<Rightarrow> live h' = live h + 1 \<and> sds_inv t \<and> sds_content t = take (j - start) (drop start s))"
proof -
  have u: "unat (of_nat (j - start) :: size_t) = j - start"
    using assms(3) by (intro unat_of_nat_size) simp
  have "unat (of_nat (j - start) :: size_t) \<le> 2 ^ 64 - 19"
    "init_available (InitBytes (drop start s)) (unat (of_nat (j - start) :: size_t))"
    using assms unfolding u by simp_all
  from sdsnewlen_outcome [OF this, of h] show ?thesis
    unfolding u by (fastforce split: option.splits)
qed

text \<open>The loop, from a state in which no separator starts between \<open>start\<close> and \<open>j\<close>.\<close>

definition split_post ::
    "byte list \<Rightarrow> byte list \<Rightarrow> nat \<Rightarrow> sds list \<Rightarrow> os \<Rightarrow> (bool \<times> nat \<times> nat \<times> sds list \<times> os) \<Rightarrow> bool" where
  "split_post sep s start0 tokens h r =
     (case r of (finished, start, slots, tokens', h') \<Rightarrow>
        (mallocs_ok h \<longrightarrow> mallocs_ok h' \<and> finished) \<and>
        (\<exists>new. tokens' = tokens @ new \<and> list_all sds_inv new \<and>
           live h' = live h + int (length new) \<and>
           (finished \<longrightarrow> length tokens' < slots \<and> start \<le> length s \<and>
              split_on sep (drop start0 s) = map sds_content new @ [drop start s])))"

lemma split_post_same:
  "split_post sep s start tokens h1 r \<Longrightarrow> live h1 = live h \<Longrightarrow> (mallocs_ok h \<longrightarrow> mallocs_ok h1) \<Longrightarrow>
     split_post sep s start tokens h r"
  by (auto simp: split_post_def split: prod.splits)

lemma split_post_token:
  assumes "split_post sep s start1 (tokens @ [t]) h1 r" and "live h1 = live h + 1"
    and "mallocs_ok h \<longrightarrow> mallocs_ok h1" and "sds_inv t"
    and "split_on sep (drop start s) = sds_content t # split_on sep (drop start1 s)"
  shows "split_post sep s start tokens h r"
proof -
  obtain finished st slots tokens' h' where r: "r = (finished, st, slots, tokens', h')"
    by (cases r) auto
  obtain new where new: "tokens' = (tokens @ [t]) @ new" "list_all sds_inv new"
    "live h' = live h1 + int (length new)"
    "finished \<longrightarrow> length tokens' < slots \<and> st \<le> length s \<and>
       split_on sep (drop start1 s) = map sds_content new @ [drop st s]"
    "mallocs_ok h1 \<longrightarrow> mallocs_ok h' \<and> finished"
    using assms(1) by (auto simp: split_post_def r)
  show ?thesis
    unfolding split_post_def r prod.case
    using new assms by (intro conjI exI [of _ "t # new"]) auto
qed

text \<open>A separator that starts at \<open>j\<close> and nowhere before it ends the piece.\<close>

lemma first_separator:
  assumes "\<forall>i < j - start. \<not> occurs_at sep (drop start s) i" and "occurs_at sep s j"
    and "start \<le> j" and "sep \<noteq> []"
  shows "split_on sep (drop start s) = take (j - start) (drop start s) # split_on sep (drop (j + length sep) s)"
proof -
  have "occurs_at sep (drop start s) (j - start)"
    using assms(2,3) mm.occurs_drop [of start s sep "j - start"] by (auto simp: occurs_at_def)
  then have "memmem sep (drop start s) = Some (j - start)"
    using assms(1) by (simp add: memmem_Some)
  from split_on_Some [OF assms(4) this] show ?thesis using assms(3) by simp
qed

text \<open>Where no separator starts at \<open>j\<close>, or none can start any more.\<close>

lemma no_separator_here:
  assumes "\<forall>i < j - start. \<not> occurs_at sep (drop start s) i" and "start \<le> j"
    and "take (length sep) (drop j s) \<noteq> sep"
  shows "\<forall>i < j + 1 - start. \<not> occurs_at sep (drop start s) i"
proof (intro allI impI)
  fix i assume "i < j + 1 - start"
  then consider "i < j - start" | "i = j - start" by linarith
  then show "\<not> occurs_at sep (drop start s) i"
    using assms by cases (auto simp: occurs_at_def)
qed

lemma no_separator_left:
  assumes "\<forall>i < j - start. \<not> occurs_at sep (drop start s) i" and "start \<le> j"
    and "sep \<noteq> []" and "length s < j + length sep"
  shows "split_on sep (drop start s) = [drop start s]"
proof (rule split_on_None, unfold memmem_None, rule allI)
  fix i
  show "\<not> occurs_at sep (drop start s) i"
    using assms by (cases "i < j - start") (auto simp: occurs_at_def)
qed

text \<open>The array has 5, 10, 20 and so on up to \<open>MAX_SLOTS\<close> slots; twice as many are more than an \<open>int\<close>
  can count. Below \<open>MAX_SLOTS\<close> tokens the counters do not overflow.\<close>

definition MAX_SLOTS :: nat where
  "MAX_SLOTS = 1342177280"

definition slots_reached :: "nat \<Rightarrow> bool" where
  "slots_reached slots \<longleftrightarrow> (\<exists>k \<le> 28. slots = 5 * 2 ^ k)"

lemma slots_reached_5: "slots_reached 5"
  by (auto simp: slots_reached_def intro: exI [of _ 0])

lemma slots_double:
  assumes "slots_reached slots" and "slots < n" and "n \<le> MAX_SLOTS"
  shows "slots_reached (2 * slots) \<and> 2 * slots \<le> INT_MAX"
proof -
  obtain k where k: "k \<le> 28" "slots = 5 * 2 ^ k" using assms(1) by (auto simp: slots_reached_def)
  have "(5 :: nat) * 2 ^ 28 = MAX_SLOTS" by (simp add: MAX_SLOTS_def)
  then have "k < 28" using k assms(2,3) by (cases "k = 28") auto
  then have "slots_reached (2 * slots)" unfolding slots_reached_def k(2) by (intro exI [of _ "Suc k"]) simp
  moreover have "(2 :: nat) ^ k \<le> 2 ^ 27" using \<open>k < 28\<close> by (intro power_increasing) simp_all
  then have "2 * slots \<le> INT_MAX" by (simp add: k(2) INT_MAX_def)
  ultimately show ?thesis by simp
qed

text \<open>The array is grown when there is not room for the next token and the last one.\<close>

lemma grow_array:
  assumes "(if slots < length tokens + 2 then realloc_array h else (True, h)) = (ok, h1)"
    and "length tokens < slots" and "slots_reached slots" and "length tokens + 1 < MAX_SLOTS"
  defines "slots1 \<equiv> if slots < length tokens + 2 then 2 * slots else slots"
  shows "live h1 = live h \<and> (mallocs_ok h \<longrightarrow> mallocs_ok h1 \<and> ok) \<and>
    length tokens + 1 < slots1 \<and> slots_reached slots1 \<and>
    \<not> (INT_MAX < length tokens + 2 \<or> slots < length tokens + 2 \<and> INT_MAX < 2 * slots)"
proof -
  have "length tokens + 2 \<le> INT_MAX" using assms(4) by (simp add: INT_MAX_def MAX_SLOTS_def)
  then show ?thesis
    using assms realloc_array_frame [of h ok h1] slots_double [OF assms(3), of "length tokens + 2"]
    by (auto split: if_splits)
qed

text \<open>One round with a separator at \<open>j\<close>: the piece before it becomes a token, or there is no memory
  for it.\<close>

lemma split_round_hit:
  assumes sep: "0 < seplen" "seplen \<le> length sep0" "sep = take seplen sep0"
    and src: "len \<le> length s0" "len < 2 ^ 63" "s = take len s0"
    and g: "(if slots < length tokens + 2 then realloc_array h else (True, h)) = (True, h1)"
    and slots1: "slots1 = (if slots < length tokens + 2 then 2 * slots else slots)" "length tokens + 1 < slots1"
    and int: "\<not> (INT_MAX < length tokens + 2 \<or> slots < length tokens + 2 \<and> INT_MAX < 2 * slots)"
    and j: "start \<le> j" "j + seplen \<le> len" "take seplen (drop j s) = sep"
    and none: "\<forall>i < j - start. \<not> occurs_at sep (drop start s) i"
  shows "(\<exists>h2. split_loop s0 len sep0 seplen j start slots tokens h = Some (False, start, slots1, tokens, h2) \<and>
      live h2 = live h1 \<and> \<not> mallocs_ok h1) \<or>
    (\<exists>token h2. split_loop s0 len sep0 seplen j start slots tokens h =
        split_loop s0 len sep0 seplen (j + seplen) (j + seplen) slots1 (tokens @ [token]) h2 \<and>
      live h2 = live h1 + 1 \<and> (mallocs_ok h1 \<longrightarrow> mallocs_ok h2) \<and> sds_inv token \<and>
      split_on sep (drop start s) = sds_content token # split_on sep (drop (j + seplen) s))"
proof -
  have ld: "mem_load s0 j seplen = Some sep" "mem_load sep0 0 seplen = Some sep"
    using j(2,3) src(1) sep by (simp_all add: mem_load_def src(3) drop_take min_absorb1)
  have cond: "j + (seplen - 1) < len" using j(2) sep(1) by simp
  obtain t h2 where p: "sdsnewlen (InitBytes (drop start s0)) (of_nat (j - start)) h1 = Some (t, h2)"
    "mallocs_ok h1 \<longrightarrow> mallocs_ok h2 \<and> t \<noteq> None"
    "case t of None \<Rightarrow> live h2 = live h1
     | Some t \<Rightarrow> live h2 = live h1 + 1 \<and> sds_inv t \<and> sds_content t = take (j - start) (drop start s0)"
    using piece_outcome [of start j s0 h1] j src by auto
  note step = split_loop.simps [of s0 len sep0 seplen j start slots tokens h, unfolded Let_def if_not_P [OF int],
      unfolded g prod.case, folded slots1(1)]
  show ?thesis
  proof (cases t)
    case None
    then show ?thesis using cond ld p by (simp add: step)
  next
    case (Some token)
    have "occurs_at sep s j" using j sep src by (simp add: occurs_at_def)
    moreover have "sep \<noteq> []" "length sep = seplen" using sep by auto
    ultimately have "split_on sep (drop start s) = take (j - start) (drop start s) # split_on sep (drop (j + seplen) s)"
      using first_separator [OF none _ j(1)] by simp
    then have "split_on sep (drop start s) = sds_content token # split_on sep (drop (j + seplen) s)"
      using p(3) Some j by (simp add: src(3) drop_take min_absorb1)
    moreover have "split_loop s0 len sep0 seplen j start slots tokens h =
        split_loop s0 len sep0 seplen (j + seplen) (j + seplen) slots1 (tokens @ [token]) h2"
      using cond Some ld p(1) slots1(2) sep(1) by (simp add: step)
    moreover have "live h2 = live h1 + 1" "mallocs_ok h1 \<longrightarrow> mallocs_ok h2" "sds_inv token"
      using p(2,3) Some by simp_all
    ultimately show ?thesis by blast
  qed
qed

lemma split_loop_outcome:
  assumes sep: "0 < seplen" "seplen \<le> length sep0" "sep = take seplen sep0"
    and src: "len \<le> length s0" "len < 2 ^ 63" "s = take len s0"
  shows "start \<le> j \<Longrightarrow> j \<le> len \<Longrightarrow> length tokens < slots \<Longrightarrow>
    \<forall>i < j - start. \<not> occurs_at sep (drop start s) i \<Longrightarrow>
    slots_reached slots \<Longrightarrow> length tokens + length (split_on sep (drop start s)) < MAX_SLOTS \<Longrightarrow>
    \<exists>r. split_loop s0 len sep0 seplen j start slots tokens h = Some r \<and>
      split_post sep s start tokens h r"
proof (induction "len - j" arbitrary: j start slots tokens h rule: less_induct)
  case less
  let ?run = "split_loop s0 len sep0 seplen"
  have ls: "length sep = seplen" "sep \<noteq> []" "length s = len" using sep src by auto
  define slots1 where "slots1 = (if slots < length tokens + 2 then 2 * slots else slots)"
  obtain ok h1 where g: "(if slots < length tokens + 2 then realloc_array h else (True, h)) = (ok, h1)"
    by fastforce
  have "0 < length (split_on sep (drop start s))" by (simp add: split_on_nonempty)
  then have room: "length tokens + 1 < MAX_SLOTS" using less.prems(6) by linarith
  note h1 = grow_array [OF g less.prems(3,5) room, folded slots1_def]
  have int: "\<not> (INT_MAX < length tokens + 2 \<or> slots < length tokens + 2 \<and> INT_MAX < 2 * slots)"
    using h1 by blast
  note step = split_loop.simps [of s0 len sep0 seplen j start slots tokens h, unfolded Let_def if_not_P [OF int],
      unfolded g prod.case, folded slots1_def]
  consider "\<not> j + seplen \<le> len" | "j + seplen \<le> len" "\<not> ok"
    | "j + seplen \<le> len" "ok" "take seplen (drop j s) \<noteq> sep"
    | "j + seplen \<le> len" "ok" "take seplen (drop j s) = sep" by blast
  then show ?case
  proof cases
    case 1
    then have "split_on sep (drop start s) = [drop start s]"
      using less.prems ls sep(1) by (intro no_separator_left [of j]) simp_all
    moreover have "\<not> j + (seplen - 1) < len" using 1 sep(1) by arith
    ultimately show ?thesis
      using less.prems ls(3) by (simp add: split_loop.simps split_post_def)
  next
    case 2
    moreover have "j + (seplen - 1) < len" using 2 sep(1) by arith
    ultimately show ?thesis using h1 by (simp add: step split_post_def)
  next
    case 3
    have "\<forall>i < j + 1 - start. \<not> occurs_at sep (drop start s) i"
      using less.prems 3(3) ls(1) by (intro no_separator_here) simp_all
    then have post: "\<exists>r. ?run (j + 1) start slots1 tokens h1 = Some r \<and> split_post sep s start tokens h1 r"
      using less.prems 3(1) sep(1) h1 by (intro less.hyps) simp_all
    have "mem_load s0 j seplen = Some (take seplen (drop j s))" "mem_load sep0 0 seplen = Some sep"
      using 3(1) src(1) sep by (simp_all add: mem_load_def src(3) drop_take min_absorb1)
    moreover have "j + (seplen - 1) < len" using 3(1) sep(1) by arith
    ultimately have "?run j start slots tokens h = ?run (j + 1) start slots1 tokens h1"
      using 3 by (simp add: step)
    then show ?thesis using post split_post_same h1 by auto
  next
    case 4
    have "length tokens + 1 < slots1" using h1 by simp
    note hit = split_round_hit [OF sep src g [simplified 4(2)] slots1_def this int less.prems(1) 4(1,3) less.prems(4)]
    have "\<exists>r. ?run (j + seplen) (j + seplen) slots1 (tokens @ [token]) h2 = Some r \<and>
        split_post sep s (j + seplen) (tokens @ [token]) h2 r"
      if "split_on sep (drop start s) = sds_content token # split_on sep (drop (j + seplen) s)" for token h2
      using h1 4(1) sep(1) less.prems(6) that by (intro less.hyps) simp_all
    with hit show ?thesis
    proof (elim disjE exE conjE, goal_cases)
      case (1 h2)
      then show ?case using h1 by (simp add: split_post_def)
    next
      case (2 token h2)
      then show ?case using h1 split_post_token [of sep s "j + seplen" tokens token h2 _ h start] by simp metis
    qed
  qed
qed

lemma fold_free:
  "live (fold (\<lambda>t. sdsfree (Some t)) ts h) = live h - int (length ts) \<and>
   mallocs_ok (fold (\<lambda>t. sdsfree (Some t)) ts h) = mallocs_ok h"
  by (induction ts arbitrary: h) (simp_all add: sdsfree_def)

lemma split_cleanup_live [simp]: "live (split_cleanup tokens h) = live h - int (length tokens) - 1"
  by (simp add: split_cleanup_def fold_free)

lemma freesplitres_live [simp]:
  "live (sdsfreesplitres tokens h) = (case tokens of None \<Rightarrow> live h | Some ts \<Rightarrow> live h - int (length ts) - 1)"
  by (simp add: sdsfreesplitres_def fold_free split: option.split)

text \<open>All of \<open>sdssplitlen\<close>: the pieces, or NULL when memory runs out, with nothing lost.\<close>

lemma splitlen_outcome:
  assumes sep: "0 < seplen" "nat seplen \<le> length sep0" and len: "0 < len" "nat len \<le> length s0" "len < 2 ^ 63"
    and pieces: "length (split_on (take (nat seplen) sep0) (take (nat len) s0)) < MAX_SLOTS"
  shows "\<exists>r h'. sdssplitlen s0 len sep0 seplen h = Some (r, h') \<and>
    (mallocs_ok h \<longrightarrow> mallocs_ok h' \<and> r \<noteq> None) \<and>
    live (sdsfreesplitres r h') = live h \<and>
    (case r of None \<Rightarrow> True
     | Some ts \<Rightarrow> list_all sds_inv ts \<and>
         map sds_content ts = split_on (take (nat seplen) sep0) (take (nat len) s0))"
proof -
  let ?sep = "take (nat seplen) sep0" and ?s = "take (nat len) s0"
  obtain ok h1 where a: "alloc_object h = (ok, h1)" by fastforce
  note fr = alloc_object_frame [OF a] alloc_object_ok [OF _ a]
  have guard: "\<not> (seplen < 1 \<or> len \<le> 0)" using sep len by simp
  show ?thesis
  proof (cases ok)
    case False
    then show ?thesis
      using a fr guard by (auto simp: sdssplitlen_def sdsfreesplitres_def)
  next
    case okay: True
    have "nat len < 2 ^ 63" using len by simp
    then have "\<exists>r. split_loop s0 (nat len) sep0 (nat seplen) 0 0 5 [] h1 = Some r \<and>
        split_post ?sep ?s 0 [] h1 r"
      using sep len pieces by (intro split_loop_outcome) (simp_all add: slots_reached_5)
    then obtain fin start slots tokens h2 where l:
      "split_loop s0 (nat len) sep0 (nat seplen) 0 0 5 [] h1 = Some (fin, start, slots, tokens, h2)"
      "split_post ?sep ?s 0 [] h1 (fin, start, slots, tokens, h2)"
      by (metis prod_cases5)
    note post = l(2) [unfolded split_post_def prod.case append_Nil, simplified]
    show ?thesis
    proof (cases fin)
      case False
      then have "sdssplitlen s0 len sep0 seplen h = Some (None, split_cleanup tokens h2)"
        using a okay l(1) guard by (simp add: sdssplitlen_def)
      then show ?thesis using post fr okay False by (auto simp: sdsfreesplitres_def)
    next
      case True
      obtain t h3 where p: "sdsnewlen (InitBytes (drop start s0)) (of_nat (nat len - start)) h2 = Some (t, h3)"
        "mallocs_ok h2 \<longrightarrow> mallocs_ok h3 \<and> t \<noteq> None"
        "case t of None \<Rightarrow> live h3 = live h2
         | Some t \<Rightarrow> live h3 = live h2 + 1 \<and> sds_inv t \<and> sds_content t = take (nat len - start) (drop start s0)"
        using piece_outcome [of start "nat len" s0 h2] \<open>nat len < 2 ^ 63\<close> post True len(2) by auto
      show ?thesis
      proof (cases t)
        case None
        then have "sdssplitlen s0 len sep0 seplen h = Some (None, split_cleanup tokens h3)"
          using a okay l(1) guard True p(1) by (simp add: sdssplitlen_def)
        then show ?thesis using post fr okay p None by (auto simp: sdsfreesplitres_def)
      next
        case (Some token)
        have "length tokens + 1 < MAX_SLOTS" using pieces post True by simp
        then have "length tokens < INT_MAX" by (simp add: MAX_SLOTS_def INT_MAX_def)
        then have "sdssplitlen s0 len sep0 seplen h = Some (Some (tokens @ [token]), h3)"
          using Some a okay l(1) guard True p(1) post by (simp add: sdssplitlen_def)
        then show ?thesis
          using post fr okay p Some True by (auto simp: drop_take)
      qed
    qed
  qed
qed

section \<open>Quoting\<close>

text \<open>What \<open>sdscatrepr\<close> writes for a byte.\<close>

definition repr_byte :: "byte \<Rightarrow> byte list" where
  "repr_byte c =
     (if c = 92 \<or> c = 34 then [92, c]
      else if c = 10 then [92, 110]
      else if c = 13 then [92, 114]
      else if c = 9 then [92, 116]
      else if c = 7 then [92, 97]
      else if c = 8 then [92, 98]
      else if isprint c then [c]
      else [92, 120, hex_char (c div 16), hex_char (c mod 16)])"

definition quoted :: "byte list \<Rightarrow> byte list" where
  "quoted bs = 34 # concat (map repr_byte bs) @ [34]"

text \<open>Formatted text that fits the array on the stack is appended as it is.\<close>

lemma printf_small:
  assumes "unat n \<le> 512" and "length bs < 1024"
  shows "on_string (\<lambda>str. sdscatvprintf str n (Some bs)) = cat_bytes bs"
proof -
  have "unat (n * 2) = unat n * 2" using assms(1) by (subst unat_mult_lem [THEN iffD1]) simp_all
  then have "\<not> n * 2 > 1024" using assms(1) by (simp add: word_less_nat_alt)
  then have "sdscatvprintf str n (Some bs) s = sdscatlen str bs (of_nat (length bs)) s" for str s
    using assms(2) by (simp add: sdscatvprintf_def)
  then have "(\<lambda>str. sdscatvprintf str n (Some bs)) = (\<lambda>str. sdscatlen str bs (of_nat (length bs)))"
    by (intro ext)
  then show ?thesis by (simp add: cat_bytes_def)
qed

lemma repr_step_bytes: "repr_step c = cat_bytes (repr_byte c)"
  by (intro ext) (simp add: repr_step_def repr_byte_def printf_small)

lemma repr_loop_bytes: "repr_loop bs q = append_all cat_bytes (map repr_byte bs) q"
proof (induction bs arbitrary: q)
  case Nil
  then show ?case by simp
next
  case (Cons c cs)
  then have "repr_loop cs = append_all cat_bytes (map repr_byte cs)" by (intro ext)
  then show ?case by (simp add: repr_step_bytes)
qed

lemma catrepr_outcome:
  assumes "sds_inv str" and "mallocs_ok s" and "unat len \<le> length p"
    and "length (sds_content str) + length (quoted (take (unat len) p)) \<le> 2 ^ 62"
  shows "\<exists>str' s'. sdscatrepr str p len s = Some (Some str', s') \<and> sds_inv str' \<and>
    sds_content str' = sds_content str @ quoted (take (unat len) p) \<and>
    live s' = live s \<and> mallocs_ok s'"
proof -
  let ?bs = "take (unat len) p"
  let ?parts = "[34] # map repr_byte ?bs @ [[34]]"
  have cc: "concat ?parts = quoted ?bs" by (simp add: quoted_def)
  have run: "sdscatrepr str p len s = append_all cat_bytes ?parts (Some str, s)"
  proof -
    have "append_all cat_bytes (map repr_byte ?bs @ [[34]]) = (\<lambda>q. do { q1 \<leftarrow> repr_loop ?bs q; cat_bytes [34] q1 })"
      by (intro ext) (simp add: append_all_snoc repr_loop_bytes)
    then show ?thesis using assms(3) by (simp add: sdscatrepr_def mem_load_def)
  qed
  have "string_room (length (concat ?parts) + 0) (Some str, s)"
    using assms unfolding cc by simp
  from sb.append_all_fits [OF this] obtain q' where q':
    "append_all cat_bytes ?parts (Some str, s) = Some q'" "string_room 0 q'"
    "string_content q' = sds_content str @ quoted ?bs" "string_live q' = live s"
    unfolding cc by (auto simp: string_live_def)
  then show ?thesis
    using run by (cases "(0 :: nat, q')" rule: string_room.cases) (auto simp: string_live_def)
qed

section \<open>Reading quotes back\<close>

lemma hex_digits:
  "list_all (\<lambda>n. is_hex_digit (hex_char (of_nat n)) \<and> hex_digit_to_int (hex_char (of_nat n)) = of_nat n \<and>
     hex_char (of_nat n) \<noteq> 0) [0..<16]"
  by code_simp

lemma small_word_cases:
  fixes d :: byte
  assumes "d < 16"
  shows "is_hex_digit (hex_char d) \<and> hex_digit_to_int (hex_char d) = d \<and> hex_char d \<noteq> 0"
proof -
  have "unat d \<in> set [0..<16]" using assms by (simp add: word_less_nat_alt)
  then show ?thesis using hex_digits unfolding list_all_iff by (metis of_nat_unat ucast_id)
qed

lemma nibbles:
  fixes c :: byte
  shows "c div 16 < 16" and "c mod 16 < 16" and "(c div 16) * 16 + c mod 16 = c"
proof -
  have "unat c div 16 < 16" using unsigned_less [where w = c and 'a = nat] by simp
  then show "c div 16 < 16" by (simp add: word_less_nat_alt unat_div)
  have "unat c mod 16 < 16" by simp
  then show "c mod 16 < 16" by (simp add: word_less_nat_alt unat_mod)
  show "(c div 16) * 16 + c mod 16 = c" by (rule div_mult_mod_eq)
qed

lemma repr_byte_nonzero: "0 \<notin> set (repr_byte c)"
  using small_word_cases [OF nibbles(1) [of c]] small_word_cases [OF nibbles(2) [of c]]
  by (auto simp: repr_byte_def isprint_def)

lemma read_hex:
  assumes "is_hex_digit a" and "is_hex_digit b"
  shows "read_token InQuotes (92 # 120 # a # b # rest) q =
    do { q1 \<leftarrow> cat_bytes [hex_digit_to_int a * 16 + hex_digit_to_int b] q; read_token InQuotes rest q1 }"
  using assms by (subst read_token.simps) (simp add: peek_def numeral_eq_Suc split: option.split)

lemma read_escape:
  assumes "e \<noteq> 120" and "e \<noteq> 0"
  shows "read_token InQuotes (92 # e # rest) q =
    do { q1 \<leftarrow> cat_bytes [unescape e] q; read_token InQuotes rest q1 }"
  using assms by (subst read_token.simps) (simp add: peek_def numeral_2_eq_2 split: option.split)

lemma read_plain:
  assumes "c \<noteq> 92" and "c \<noteq> 34" and "c \<noteq> 0"
  shows "read_token InQuotes (c # rest) q = do { q1 \<leftarrow> cat_bytes [c] q; read_token InQuotes rest q1 }"
  using assms by (subst read_token.simps) (simp add: peek_def split: option.split)

lemma read_close:
  "rest = [] \<or> isspace (hd rest) \<Longrightarrow> read_token InQuotes (34 # rest) q = Some (True, rest, q)"
  by (subst read_token.simps) (cases rest; simp add: peek_def)

text \<open>One byte is read back from what was written for it.\<close>

lemma read_repr_byte:
  "read_token InQuotes (repr_byte c @ rest) q =
     do { q1 \<leftarrow> cat_bytes [c] q; read_token InQuotes rest q1 }"
proof -
  note hex = small_word_cases [OF nibbles(1) [of c]] small_word_cases [OF nibbles(2) [of c]]
  consider "c = 92" | "c = 34" | "c = 10" | "c = 13" | "c = 9" | "c = 7" | "c = 8"
    | "isprint c" "c \<noteq> 92" "c \<noteq> 34"
    | "c \<notin> {92, 34, 10, 13, 9, 7, 8}" "\<not> isprint c" by blast
  then show ?thesis
  proof cases
    case 8
    then have "repr_byte c = [c]" "c \<noteq> 0" by (auto simp: repr_byte_def isprint_def)
    then show ?thesis using 8 by (simp add: read_plain)
  next
    case 9
    then have "repr_byte c = [92, 120, hex_char (c div 16), hex_char (c mod 16)]"
      by (simp add: repr_byte_def)
    then show ?thesis using hex nibbles(3) [of c] by (simp add: read_hex)
  qed (simp_all add: repr_byte_def read_escape unescape_def)
qed

lemma read_repr:
  "rest = [] \<or> isspace (hd rest) \<Longrightarrow>
     read_token InQuotes (concat (map repr_byte bs) @ 34 # rest) q =
       map_option (\<lambda>q'. (True, rest, q')) (append_all cat_bytes (map (\<lambda>c. [c]) bs) q)"
proof (induction bs arbitrary: q)
  case Nil
  then show ?case by (simp add: read_close)
next
  case (Cons c cs)
  then show ?case
    by (cases "cat_bytes [c] q") (simp_all add: read_repr_byte)
qed

lemma read_quoted:
  assumes "rest = [] \<or> isspace (hd rest)" and "string_room (length bs + n) q"
  shows "\<exists>q'. read_token Unquoted (quoted bs @ rest) q = Some (True, rest, q') \<and> string_room n q' \<and>
    string_content q' = string_content q @ bs \<and> string_live q' = string_live q"
proof -
  have cc: "concat (map (\<lambda>c. [c]) bs) = bs" by (induction bs) simp_all
  have "string_room (length (concat (map (\<lambda>c. [c]) bs)) + n) q" using assms(2) unfolding cc .
  from sb.append_all_fits [OF this] obtain q' where
    "append_all cat_bytes (map (\<lambda>c. [c]) bs) q = Some q'" "string_room n q'"
    "string_content q' = string_content q @ bs" "string_live q' = string_live q"
    unfolding cc by blast
  moreover have "read_token Unquoted (quoted bs @ rest) q =
      read_token InQuotes (concat (map repr_byte bs) @ 34 # rest) q"
    by (subst read_token.simps) (simp add: quoted_def peek_def)
  ultimately show ?thesis using read_repr [OF assms(1)] by simp
qed

section \<open>Arguments\<close>

text \<open>A token of the vector that holds these bytes.\<close>

fun holds :: "sds option \<Rightarrow> byte list \<Rightarrow> bool" where
  "holds None bs \<longleftrightarrow> False"
| "holds (Some str) bs \<longleftrightarrow> sds_inv str \<and> sds_content str = bs"

lemma realloc_vector_ok:
  assumes "mallocs_ok s"
  shows "\<exists>s'. realloc_vector n s = (True, s') \<and> mallocs_ok s' \<and>
    live s' = live s + (if n = 0 then 1 else 0)"
proof (cases "n = 0")
  case True
  obtain b s' where a: "alloc_object s = (b, s')" by fastforce
  show ?thesis
    using True a alloc_object_frame [OF a] alloc_object_ok [OF assms a]
    by (simp add: realloc_vector_def)
next
  case False
  obtain ok s' where "realloc_array s = (ok, s')" by fastforce
  then show ?thesis using False assms realloc_array_frame [of s ok s'] by (simp add: realloc_vector_def)
qed

lemma joined_start:
  "args \<noteq> [] \<Longrightarrow> \<exists>r. joined [32] (map quoted args) = 34 # r"
  by (cases args; cases "tl args") (auto simp: quoted_def)

lemma skip_blanks:
  assumes "b \<in> {[], [32]}"
  shows "dropWhile isspace (b @ joined [32] (map quoted args)) = joined [32] (map quoted args)"
proof -
  have "dropWhile isspace (joined [32] (map quoted args)) = joined [32] (map quoted args)"
    using joined_start [of args] by (cases "args = []") (auto simp: isspace_def)
  then show ?thesis using assms by (auto simp: isspace_def)
qed

lemma args_loop_quoted:
  "mallocs_ok s \<Longrightarrow> \<forall>bs \<in> set args. length bs \<le> 2 ^ 62 \<Longrightarrow> b \<in> {[], [32]} \<Longrightarrow>
     length vec + length args \<le> INT_MAX \<Longrightarrow>
     \<exists>new s'. args_loop (b @ joined [32] (map quoted args)) vec s = Some (Some (vec @ new), s') \<and>
       mallocs_ok s' \<and> list_all2 holds new args \<and>
       live s' = live s + int (length args) + (if vec = [] then 1 else 0)"
proof (induction args arbitrary: b vec s)
  case Nil
  obtain ok s' where a: "alloc_object s = (ok, s')" by fastforce
  show ?case
    using Nil a alloc_object_frame [OF a] alloc_object_ok [OF _ a] skip_blanks [of b "[]"]
    by (subst args_loop.simps) (auto simp: peek_def)
next
  case (Cons bs args)
  define rest where "rest = (if args = [] then [] else [32] @ joined [32] (map quoted args))"
  have p: "joined [32] (map quoted (bs # args)) = quoted bs @ rest"
    by (cases args) (simp_all add: rest_def)
  have r: "rest = [] \<or> isspace (hd rest)" by (simp add: rest_def isspace_def)
  have p0: "peek (quoted bs @ rest) 0 = 34" by (simp add: peek_def quoted_def)
  obtain q where q: "sdsempty s = Some q" "string_room (2 ^ 62) q" "string_content q = []"
    "string_live q = live s + 1"
    using sdsempty_room [OF Cons.prems(1)] by blast
  have "string_room (length bs + (2 ^ 62 - length bs)) q" using q(2) Cons.prems(2) by simp
  from read_quoted [OF r this] obtain q' where q':
    "read_token Unquoted (quoted bs @ rest) q = Some (True, rest, q')"
    "string_room (2 ^ 62 - length bs) q'" "string_content q' = bs" "string_live q' = live s + 1"
    using q by auto
  obtain str s1 where s1: "q' = (Some str, s1)" "sds_inv str" "sds_content str = bs"
    "mallocs_ok s1" "live s1 = live s + 1"
    using q'(2-4) by (cases "(0 :: nat, q')" rule: string_room.cases) (auto simp: string_live_def)
  obtain s2 where s2: "realloc_vector (length vec) s1 = (True, s2)" "mallocs_ok s2"
    "live s2 = live s1 + (if length vec = 0 then 1 else 0)"
    using realloc_vector_ok [OF s1(4)] by blast
  have step: "args_loop (b @ joined [32] (map quoted (bs # args))) vec s =
      args_loop rest (vec @ [Some str]) s2"
    using q(1) q'(1) s1(1) s2(1) p0 skip_blanks [OF Cons.prems(3), of "bs # args"] Cons.prems(4)
    unfolding p by (subst args_loop.simps) simp
  have "rest = (if args = [] then [] else [32]) @ joined [32] (map quoted args)"
    by (simp add: rest_def)
  then have "\<exists>new s'. args_loop rest (vec @ [Some str]) s2 = Some (Some ((vec @ [Some str]) @ new), s') \<and>
      mallocs_ok s' \<and> list_all2 holds new args \<and>
      live s' = live s2 + int (length args) + (if vec @ [Some str] = [] then 1 else 0)"
    using Cons.IH [of s2 "if args = [] then [] else [32]" "vec @ [Some str]"] s2(2) Cons.prems(2,4)
    by simp
  then obtain new s' where n: "args_loop rest (vec @ [Some str]) s2 = Some (Some (vec @ Some str # new), s')"
    "mallocs_ok s'" "list_all2 holds new args" "live s' = live s2 + int (length args)"
    by auto
  show ?case
    unfolding step n(1) using n s1 s2
    by (intro exI [of _ "Some str # new"]) auto
qed

lemma set_joined: "set (joined sep ts) \<subseteq> set sep \<union> \<Union> (set (map set ts))"
  by (induction sep ts rule: joined.induct) auto

lemma repr_no_zero: "0 \<notin> set (joined [32] (map quoted args))"
proof -
  have "0 \<notin> set (quoted bs)" for bs using repr_byte_nonzero by (auto simp: quoted_def)
  then show ?thesis using set_joined [of "[32]" "map quoted args"] by auto
qed

lemma splitargs_quoted:
  assumes "mallocs_ok s" and "\<forall>bs \<in> set args. length bs \<le> 2 ^ 62" and "length args \<le> INT_MAX"
  shows "\<exists>vec s'. sdssplitargs (joined [32] (map quoted args) @ 0 # garbage) s = Some (Some vec, s') \<and>
    mallocs_ok s' \<and> list_all2 holds vec args \<and> live s' = live s + int (length args) + 1"
proof -
  have "find_byte 0 (joined [32] (map quoted args) @ 0 # garbage) =
      Some (length (joined [32] (map quoted args)))"
    using repr_no_zero [of args] by (simp add: find_byte_Some nth_append)
  then show ?thesis
    using args_loop_quoted [OF assms(1,2), of "[]" "[]"] assms(3) by (simp add: sdssplitargs_def)
qed

section \<open>The arguments of any line\<close>

text \<open>
  What a line means, as a parser of lists of bytes, without the NUL. Arguments are separated by
  white space. An argument ends with a blank, a tab or a line end, or with the closing quote of a
  quoted part, behind which there must be white space or nothing. In double quotes a backslash
  starts an escape; in single quotes \<open>\'\<close> stands for a quote and everything else for itself. A
  part without its closing quote is no argument.
\<close>

definition escaped :: "byte \<Rightarrow> byte" where
  "escaped e = (case map_of [(110, 10), (114, 13), (116, 9), (98, 8), (97, 7)] e of Some c \<Rightarrow> c | None \<Rightarrow> e)"

text \<open>The byte that the text behind a backslash stands for, and what follows.\<close>

fun escape :: "byte list \<Rightarrow> (byte \<times> byte list) option" where
  "escape [] = None"
| "escape (e # r) =
     (if e = 120 \<and> 2 \<le> length r \<and> is_hex_digit (r ! 0) \<and> is_hex_digit (r ! 1)
      then Some (hex_digit_to_int (r ! 0) * 16 + hex_digit_to_int (r ! 1), drop 2 r)
      else Some (escaped e, r))"

lemma escape_shorter: "escape p = Some (c, r) \<Longrightarrow> length r < length p"
  by (cases p) (auto split: if_splits)

text \<open>The text up to a closing quote and what follows it.\<close>

function in_double :: "byte list \<Rightarrow> (byte list \<times> byte list) option" where
  "in_double [] = None"
| "in_double (c # p) =
     (if c = 34 then Some ([], p)
      else if c = 92 then
        (case escape p of None \<Rightarrow> None | Some (e, r) \<Rightarrow> map_option (apfst ((#) e)) (in_double r))
      else map_option (apfst ((#) c)) (in_double p))"
  by pat_completeness auto
termination
  by (relation "measure length") (use escape_shorter in \<open>auto dest: less_SucI\<close>)

fun in_single :: "byte list \<Rightarrow> (byte list \<times> byte list) option" where
  "in_single [] = None"
| "in_single (c # p) =
     (if c = 39 then Some ([], p)
      else if c = 92 \<and> p \<noteq> [] \<and> hd p = 39 then map_option (apfst ((#) 39)) (in_single (tl p))
      else map_option (apfst ((#) c)) (in_single p))"

definition closed_quote :: "(byte list \<times> byte list) option \<Rightarrow> (byte list \<times> byte list) option" where
  "closed_quote r =
     (case r of
        None \<Rightarrow> None
      | Some (t, rest) \<Rightarrow> if rest = [] \<or> isspace (hd rest) then Some (t, rest) else None)"

text \<open>One argument and what follows it.\<close>

fun argument :: "byte list \<Rightarrow> (byte list \<times> byte list) option" where
  "argument [] = Some ([], [])"
| "argument (c # p) =
     (if c \<in> {32, 10, 13, 9} then Some ([], p)
      else if c = 34 then closed_quote (in_double p)
      else if c = 39 then closed_quote (in_single p)
      else map_option (apfst ((#) c)) (argument p))"

lemma in_double_shorter: "in_double p = Some (t, rest) \<Longrightarrow> length rest < length p"
proof (induction p arbitrary: t rule: in_double.induct)
  case (2 c p)
  then show ?case by (fastforce dest: escape_shorter split: if_splits option.splits)
qed simp

lemma in_single_shorter: "in_single p = Some (t, rest) \<Longrightarrow> length rest < length p"
proof (induction p arbitrary: t rule: in_single.induct)
  case (2 c p)
  then show ?case by (cases p) (fastforce split: if_splits)+
qed simp

lemma closed_quote_SomeD: "closed_quote r = Some (t, rest) \<Longrightarrow> r = Some (t, rest)"
  by (auto simp: closed_quote_def split: option.splits if_splits)

lemma argument_shorter: "argument p = Some (t, rest) \<Longrightarrow> p \<noteq> [] \<Longrightarrow> length rest < length p"
proof (induction p arbitrary: t rule: argument.induct)
  case (2 c p)
  then show ?case
    by (cases "p = []")
      (fastforce dest!: closed_quote_SomeD in_double_shorter in_single_shorter split: if_splits)+
qed simp

function arguments :: "byte list \<Rightarrow> byte list list option" where
  "arguments p =
     (let p1 = dropWhile isspace p in
      if p1 = [] then Some []
      else case argument p1 of
             None \<Rightarrow> None
           | Some (t, rest) \<Rightarrow> map_option ((#) t) (arguments rest))"
  by pat_completeness auto
termination
proof (relation "measure length", goal_cases)
  case (2 p p1 x t rest)
  then have "length rest < length p1" using argument_shorter by metis
  also have "\<dots> \<le> length p" using 2(1) by (simp add: length_dropWhile_le)
  finally show ?case by simp
qed simp

declare arguments.simps [simp del]

text \<open>The parsers by the characters that the C code looks at.\<close>

lemma unescape_escaped: "unescape e = escaped e"
  by (simp add: unescape_def escaped_def)

lemma peek_end: "0 \<notin> set p \<Longrightarrow> peek p i = 0 \<longleftrightarrow> length p \<le> i"
  by (cases "i < length p") (auto simp: peek_def in_set_conv_nth)

lemma hex_digit_zero: "\<not> is_hex_digit 0"
  by (simp add: is_hex_digit_def)

lemma in_double_peek:
  assumes "0 \<notin> set p"
  shows "in_double p =
    (if peek p 0 = 92 \<and> peek p 1 = 120 \<and> is_hex_digit (peek p 2) \<and> is_hex_digit (peek p 3) then
       map_option (apfst ((#) (hex_digit_to_int (peek p 2) * 16 + hex_digit_to_int (peek p 3)))) (in_double (drop 4 p))
     else if peek p 0 = 92 \<and> peek p 1 \<noteq> 0 then
       map_option (apfst ((#) (unescape (peek p 1)))) (in_double (drop 2 p))
     else if peek p 0 = 34 then Some ([], drop 1 p)
     else if peek p 0 = 0 then None
     else map_option (apfst ((#) (peek p 0))) (in_double (drop 1 p)))"
proof (cases p)
  case Nil
  then show ?thesis by (simp add: peek_def)
next
  case (Cons c cs)
  show ?thesis
  proof (cases "c = 92")
    case False
    then show ?thesis using Cons assms by (simp add: peek_def)
  next
    case True
    then show ?thesis
    proof (cases cs)
      case Nil
      then show ?thesis using Cons True by (simp add: peek_def)
    next
      case e: (Cons e r)
      have "is_hex_digit (peek p 2) \<and> is_hex_digit (peek p 3) \<longleftrightarrow>
          2 \<le> length r \<and> is_hex_digit (r ! 0) \<and> is_hex_digit (r ! 1)"
        using hex_digit_zero by (cases r; cases "tl r") (auto simp: Cons e peek_def)
      moreover have "2 \<le> length r \<Longrightarrow> peek p 2 = r ! 0 \<and> peek p 3 = r ! 1"
        by (cases r; cases "tl r") (auto simp: Cons e peek_def)
      moreover have "peek p 0 = 92" "peek p 1 = e" "e \<noteq> 0" "drop 2 p = r" "drop 4 p = drop 2 r"
        using assms True by (auto simp: Cons e peek_def)
      moreover have "in_double p =
          (case escape (e # r) of None \<Rightarrow> None | Some (x, r) \<Rightarrow> map_option (apfst ((#) x)) (in_double r))"
        by (simp only: Cons e True in_double.simps) simp
      ultimately show ?thesis by (auto simp: unescape_escaped simp del: in_double.simps)
    qed
  qed
qed

lemma in_single_peek:
  assumes "0 \<notin> set p"
  shows "in_single p =
    (if peek p 0 = 92 \<and> peek p 1 = 39 then map_option (apfst ((#) 39)) (in_single (drop 2 p))
     else if peek p 0 = 39 then Some ([], drop 1 p)
     else if peek p 0 = 0 then None
     else map_option (apfst ((#) (peek p 0))) (in_single (drop 1 p)))"
  using assms by (cases p; cases "tl p") (auto simp: peek_def)

lemma argument_peek:
  assumes "0 \<notin> set p"
  shows "argument p =
    (if peek p 0 \<in> {32, 10, 13, 9, 0} then Some ([], drop 1 p)
     else if peek p 0 = 34 then closed_quote (in_double (drop 1 p))
     else if peek p 0 = 39 then closed_quote (in_single (drop 1 p))
     else map_option (apfst ((#) (peek p 0))) (argument (drop 1 p)))"
  using assms by (cases p) (auto simp: peek_def)

lemma closed_quote_Cons: "closed_quote (map_option (apfst ((#) c)) r) = map_option (apfst ((#) c)) (closed_quote r)"
  by (cases r) (auto simp: closed_quote_def)

lemma closed_quote_None: "closed_quote None = None"
  by (simp add: closed_quote_def)

lemma closed_quote_end:
  assumes "0 \<notin> set p"
  shows "closed_quote (Some ([], drop 1 p)) =
    (if peek p 1 \<noteq> 0 \<and> \<not> isspace (peek p 1) then None else Some ([], drop 1 p))"
proof -
  have "peek p 1 = (if drop 1 p = [] then 0 else hd (drop 1 p))"
    by (simp add: peek_def hd_drop_conv_nth)
  moreover have "drop 1 p \<noteq> [] \<Longrightarrow> hd (drop 1 p) \<noteq> 0"
    using assms by (metis hd_in_set in_set_dropD)
  ultimately show ?thesis by (auto simp: closed_quote_def)
qed

text \<open>Reading a token: what the parser says, with nothing lost.\<close>

fun token_of :: "qmode \<Rightarrow> byte list \<Rightarrow> (byte list \<times> byte list) option" where
  "token_of InQuotes p = closed_quote (in_double p)"
| "token_of InSingle p = closed_quote (in_single p)"
| "token_of Unquoted p = argument p"

definition token_post ::
    "nat \<Rightarrow> string_ptr \<Rightarrow> (byte list \<times> byte list) option \<Rightarrow> (bool \<times> byte list \<times> string_ptr) option \<Rightarrow> bool" where
  "token_post n q t r \<longleftrightarrow>
     (\<exists>p' q'. string_room n q' \<and> string_live q' = string_live q \<and>
        (case t of
           None \<Rightarrow> r = Some (False, p', q')
         | Some (bs, rest) \<Rightarrow> r = Some (True, rest, q') \<and> string_content q' = string_content q @ bs))"

lemma room_less: "string_room a q \<Longrightarrow> b \<le> a \<Longrightarrow> string_room b q"
  by (cases "(a, q)" rule: string_room.cases) auto

lemma token_done:
  assumes "string_room (n + k) q"
  shows "token_post n q (Some ([], rest)) (Some (True, rest, q))"
    and "token_post n q None (Some (False, p, q))"
  using room_less [OF assms, of n] by (cases q; auto simp: token_post_def)+

lemma token_put:
  assumes "string_room (n + length p) q" and "peek p 0 \<noteq> 0"
    and "\<And>q1. cat_bytes [c] q = Some q1 \<Longrightarrow> string_room (n + (length p - 1)) q1 \<Longrightarrow> token_post n q1 t (f q1)"
  shows "token_post n q (map_option (apfst ((#) c)) t) (case cat_bytes [c] q of None \<Rightarrow> None | Some q1 \<Rightarrow> f q1)"
proof -
  have "p \<noteq> []" using assms(2) peek_nonzero by auto
  then have "string_room (length [c] + (n + (length p - 1))) q" using assms(1) by (cases p) simp_all
  then obtain q1 where q1: "cat_bytes [c] q = Some q1" "string_room (n + (length p - 1)) q1"
    "string_content q1 = string_content q @ [c]" "string_live q1 = string_live q" by (rule sb.put_fits)
  from assms(3) [OF q1(1,2)] show ?thesis using q1 by (cases t) (auto simp: token_post_def)
qed

lemma token_if:
  "(b \<Longrightarrow> token_post n q t x) \<Longrightarrow> (\<not> b \<Longrightarrow> token_post n q u y) \<Longrightarrow>
     token_post n q (if b then t else u) (if b then x else y)"
  by simp

lemma no_zero_drop: "0 \<notin> set p \<Longrightarrow> 0 \<notin> set (drop k p)"
  using in_set_dropD by fastforce

lemma in_double_token:
  assumes "0 \<notin> set p"
  shows "token_of InQuotes p =
    (if peek p 0 = 92 \<and> peek p 1 = 120 \<and> is_hex_digit (peek p 2) \<and> is_hex_digit (peek p 3) then
       map_option (apfst ((#) (hex_digit_to_int (peek p 2) * 16 + hex_digit_to_int (peek p 3)))) (token_of InQuotes (drop 4 p))
     else if peek p 0 = 92 \<and> peek p 1 \<noteq> 0 then
       map_option (apfst ((#) (unescape (peek p 1)))) (token_of InQuotes (drop 2 p))
     else if peek p 0 = 34 then
       (if peek p 1 \<noteq> 0 \<and> \<not> isspace (peek p 1) then None else Some ([], drop 1 p))
     else if peek p 0 = 0 then None
     else map_option (apfst ((#) (peek p 0))) (token_of InQuotes (drop 1 p)))"
  unfolding token_of.simps in_double_peek [OF assms] if_distrib [of closed_quote] closed_quote_None
    closed_quote_Cons closed_quote_end [OF assms] by (rule refl)

lemma in_single_token:
  assumes "0 \<notin> set p"
  shows "token_of InSingle p =
    (if peek p 0 = 92 \<and> peek p 1 = 39 then map_option (apfst ((#) 39)) (token_of InSingle (drop 2 p))
     else if peek p 0 = 39 then
       (if peek p 1 \<noteq> 0 \<and> \<not> isspace (peek p 1) then None else Some ([], drop 1 p))
     else if peek p 0 = 0 then None
     else map_option (apfst ((#) (peek p 0))) (token_of InSingle (drop 1 p)))"
  unfolding token_of.simps in_single_peek [OF assms] if_distrib [of closed_quote] closed_quote_None
    closed_quote_Cons closed_quote_end [OF assms] by (rule refl)

lemma read_token_total:
  "string_room (n + length p) q \<Longrightarrow> 0 \<notin> set p \<Longrightarrow> token_post n q (token_of m p) (read_token m p q)"
proof (induction m p q rule: read_token.induct)
  case (1 p q)
  note zero = no_zero_drop [OF "1.prems"(2)]
  show ?case
    unfolding read_token.simps(1) [of p q] in_double_token [OF "1.prems"(2)]
    by (intro token_if token_done [OF "1.prems"(1)] token_put [OF "1.prems"(1)])
      (auto intro!: "1.IH" zero elim!: room_less simp del: One_nat_def token_of.simps)
next
  case (2 p q)
  note zero = no_zero_drop [OF "2.prems"(2)]
  show ?case
    unfolding read_token.simps(2) [of p q] in_single_token [OF "2.prems"(2)]
    by (intro token_if token_done [OF "2.prems"(1)] token_put [OF "2.prems"(1)])
      (auto intro!: "2.IH" zero elim!: room_less simp del: One_nat_def token_of.simps)
next
  case (3 p q)
  note zero = no_zero_drop [OF "3.prems"(2)]
  have less: "string_room (n + length (drop 1 p)) q" using room_less [OF "3.prems"(1)] by simp
  show ?case
    unfolding read_token.simps(3) [of p q] token_of.simps(3) argument_peek [OF "3.prems"(2)]
    unfolding token_of.simps [symmetric]
    by (intro token_if token_done [OF "3.prems"(1)] token_put [OF "3.prems"(1)])
      (use less zero in \<open>auto intro!: "3.IH" elim!: room_less simp del: One_nat_def token_of.simps\<close>)
qed

lemma fold_free_args: "live (fold sdsfree (rev (map Some ts)) h) = live h - int (length ts) \<and>
    mallocs_ok (fold sdsfree (rev (map Some ts)) h) = mallocs_ok h"
proof -
  have "fold sdsfree (rev (map Some ts)) = fold (\<lambda>t. sdsfree (Some t)) (rev ts)"
    by (simp add: rev_map fold_map o_def)
  then show ?thesis using fold_free [of "rev ts" h] by simp
qed

text \<open>The outer loop: \<open>args\<close> is what the parser says of the rest of the line.\<close>

definition args_post ::
    "sds list \<Rightarrow> os \<Rightarrow> byte list list option \<Rightarrow> (sds option list option \<times> os) option \<Rightarrow> bool" where
  "args_post vec s args r \<longleftrightarrow>
     (\<exists>s'. mallocs_ok s' \<and>
        (case args of
           None \<Rightarrow> r = Some (None, s') \<and> live s' = live s - int (length vec) - (if vec = [] then 0 else 1)
         | Some ts \<Rightarrow> \<exists>new. r = Some (Some (map Some (vec @ new)), s') \<and> list_all sds_inv new \<and>
             map sds_content new = ts \<and>
             live s' = live s + int (length new) + (if vec = [] then 1 else 0)))"

lemma args_post_token:
  assumes "args_post (vec @ [str]) s1 args r" and "sds_inv str" and "sds_content str = t"
    and "live s1 = live s + (if vec = [] then 2 else 1)"
  shows "args_post vec s (map_option ((#) t) args) r"
proof (cases args)
  case None
  then show ?thesis using assms by (auto simp: args_post_def)
next
  case (Some ts)
  then obtain new s' where "mallocs_ok s'" "r = Some (Some (map Some (vec @ str # new)), s')"
    "list_all sds_inv new" "map sds_content new = ts" "live s' = live s1 + int (length new)"
    using assms(1) by (auto simp: args_post_def)
  then show ?thesis
    using Some assms(2-4) by (auto simp: args_post_def intro!: exI [of _ s'] exI [of _ "str # new"])
qed

lemma args_loop_total:
  "mallocs_ok s \<Longrightarrow> 0 \<notin> set p \<Longrightarrow> length vec + length p \<le> INT_MAX \<Longrightarrow>
     args_post vec s (arguments p) (args_loop p (map Some vec) s)"
proof (induction "length p" arbitrary: p vec s rule: less_induct)
  case less
  define p1 where "p1 = dropWhile isspace p"
  have lp: "length p1 \<le> length p" by (simp add: p1_def length_dropWhile_le)
  have zero: "0 \<notin> set p1" using less.prems(2) unfolding p1_def by (meson set_dropWhileD)
  note loop = args_loop.simps [of p "map Some vec" s, unfolded Let_def, folded p1_def]
  note parse = arguments.simps [of p, unfolded Let_def, folded p1_def]
  show ?case
  proof (cases "p1 = []")
    case True
    obtain ok s' where a: "alloc_object s = (ok, s')" by fastforce
    have "args_loop p (map Some vec) s = Some (Some (map Some vec), if vec = [] then s' else s)"
      using True a alloc_object_ok [OF less.prems(1) a] by (simp add: loop peek_def)
    then show ?thesis
      using less.prems a alloc_object_frame [OF a] alloc_object_ok [OF less.prems(1) a]
      by (auto simp: args_post_def parse True)
  next
    case False
    have p0: "peek p1 0 \<noteq> 0" using False peek_end [OF zero, of 0] by simp
    obtain q where q: "sdsempty s = Some q" "string_room (2 ^ 62) q" "string_content q = []"
      "string_live q = live s + 1"
      using sdsempty_room [OF less.prems(1)] by blast
    have "0 + length p1 \<le> 2 ^ 62" using lp less.prems(3) by (simp add: INT_MAX_def)
    then have "string_room (0 + length p1) q" using room_less [OF q(2)] by blast
    from read_token_total [OF this zero, of Unquoted] obtain p' q' where r:
      "string_room 0 q'" "string_live q' = string_live q"
      "case argument p1 of
         None \<Rightarrow> read_token Unquoted p1 q = Some (False, p', q')
       | Some (bs, rest) \<Rightarrow>
           read_token Unquoted p1 q = Some (True, rest, q') \<and> string_content q' = string_content q @ bs"
      unfolding token_post_def token_of.simps by blast
    obtain str s1 where s1: "q' = (Some str, s1)" "sds_inv str" "mallocs_ok s1" "live s1 = live s + 1"
      using r(1) r(2) [unfolded q(4)]
      by (cases "(0 :: nat, q')" rule: string_room.cases) (auto simp: string_live_def)
    show ?thesis
    proof (cases "argument p1")
      case None
      then have "args_loop p (map Some vec) s = Some (None, args_err (map Some vec) (Some str) s1)"
        using p0 q(1) r(3) s1(1) by (simp add: loop)
      then show ?thesis
        using s1 fold_free_args [of vec s1] None False
        by (auto simp: args_post_def args_err_def sdsfree_def parse)
    next
      case (Some a)
      obtain t rest where a: "a = (t, rest)" by fastforce
      obtain s2 where s2: "realloc_vector (length vec) s1 = (True, s2)" "mallocs_ok s2"
        "live s2 = live s1 + (if length vec = 0 then 1 else 0)"
        using realloc_vector_ok [OF s1(3)] by blast
      have short: "length rest < length p1" using argument_shorter [of p1 t rest] Some a False by simp
      have rd: "read_token Unquoted p1 q = Some (True, rest, q')" "sds_content str = t"
        using r(3) q(3) s1(1) Some a by simp_all
      have "args_loop p (map Some vec) s = args_loop rest (map Some (vec @ [str])) s2"
        using p0 q(1) rd(1) s1(1) s2(1) short lp less.prems(3) by (simp add: loop)
      moreover have "0 \<notin> set rest"
        using behind_drop read_token_rest [OF rd(1)] no_zero_drop [OF zero] by (auto simp: behind_def)
      then have "args_post (vec @ [str]) s2 (arguments rest) (args_loop rest (map Some (vec @ [str])) s2)"
        using less.prems(3) s2(2) short lp by (intro less.hyps) simp_all
      then have "args_post vec s (map_option ((#) t) (arguments rest)) (args_loop rest (map Some (vec @ [str])) s2)"
        using s1(2,4) s2(3) rd(2) by (intro args_post_token [of vec str s2]) simp_all
      ultimately show ?thesis by (simp add: parse False Some a)
    qed
  qed
qed

section \<open>Quoting a whole line\<close>

text \<open>A caller that quotes every argument into a new string, and joins them with blanks.\<close>

fun quote_all :: "byte list list \<Rightarrow> os \<Rightarrow> (sds list \<times> os) option" where
  "quote_all [] s = Some ([], s)"
| "quote_all (bs # args) s =
     do {
       (e, s1) \<leftarrow> sdsempty s;
       str \<leftarrow> e;
       (r, s2) \<leftarrow> sdscatrepr str bs (of_nat (length bs)) s1;
       t \<leftarrow> r;
       (ts, s3) \<leftarrow> quote_all args s2;
       Some (t # ts, s3)
     }"

definition quote_line :: "byte list list \<Rightarrow> os \<Rightarrow> (sds \<times> os) option" where
  "quote_line args s =
     do {
       (ts, s1) \<leftarrow> quote_all args s;
       (line, s2) \<leftarrow> sdsjoinsds ts [32] 1 s1;
       map_option (\<lambda>l. (l, fold (\<lambda>t. sdsfree (Some t)) ts s2)) line
     }"

lemma quoted_length: "length bs + 2 \<le> length (quoted bs)"
proof -
  have one: "1 \<le> length (repr_byte c)" for c by (simp add: repr_byte_def)
  have "length bs \<le> length (concat (map repr_byte bs))"
  proof (induction bs)
    case (Cons c cs)
    then show ?case using one [of c] by (simp del: One_nat_def)
  qed simp
  then show ?thesis by (simp add: quoted_def)
qed

lemma joined_element: "t \<in> set ts \<Longrightarrow> length t \<le> length (joined sep ts)"
  by (induction sep ts rule: joined.induct) auto

lemma quote_all_outcome:
  "mallocs_ok s \<Longrightarrow> \<forall>bs \<in> set args. length (quoted bs) \<le> 2 ^ 62 \<Longrightarrow>
     \<exists>ts s'. quote_all args s = Some (ts, s') \<and> (\<forall>t \<in> set ts. sds_inv t) \<and>
       map sds_content ts = map quoted args \<and> mallocs_ok s' \<and>
       live s' = live s + int (length args)"
proof (induction args arbitrary: s)
  case Nil
  then show ?case by simp
next
  case (Cons bs args)
  obtain q where q: "sdsempty s = Some q" "string_room (2 ^ 62) q" "string_content q = []"
    "string_live q = live s + 1"
    using sdsempty_room [OF Cons.prems(1)] by blast
  obtain e s1 where e: "q = (Some e, s1)" "sds_inv e" "mallocs_ok s1" "sds_content e = []"
    "live s1 = live s + 1"
    using q by (cases "(0 :: nat, q)" rule: string_room.cases) (auto simp: string_live_def)
  have small: "length (quoted bs) \<le> 2 ^ 62" using Cons.prems(2) by simp
  then have "length bs \<le> 2 ^ 62" using quoted_length [of bs] by linarith
  then have "unat (of_nat (length bs) :: size_t) = length bs" by (intro unat_of_nat_size) simp
  then obtain t s2 where t: "sdscatrepr e bs (of_nat (length bs)) s1 = Some (Some t, s2)" "sds_inv t"
    "sds_content t = quoted bs" "live s2 = live s1" "mallocs_ok s2"
    using catrepr_outcome [OF e(2,3), of "of_nat (length bs)" bs] e(4) small by auto
  obtain ts s' where ts: "quote_all args s2 = Some (ts, s')" "\<forall>t \<in> set ts. sds_inv t"
    "map sds_content ts = map quoted args" "mallocs_ok s'" "live s' = live s2 + int (length args)"
    using Cons.IH [OF t(5)] Cons.prems(2) by auto
  show ?case using q(1) e t ts by simp
qed

lemma buffer_of_content:
  assumes "sds_inv str"
  shows "sds_buf str = sds_content str @ 0 # drop (unat (sdslen str) + 1) (sds_buf str)"
proof -
  have "unat (sdslen str) < length (sds_buf str)" "sds_buf str ! unat (sdslen str) = 0"
    using assms by (auto simp: sds_inv_def)
  then show ?thesis
    using id_take_nth_drop [of "unat (sdslen str)" "sds_buf str"] by (simp add: sds_content_def)
qed

lemma quote_line_outcome:
  assumes "mallocs_ok s" and "length (joined [32] (map quoted args)) \<le> 2 ^ 62"
    and "length args \<le> INT_MAX"
  shows "\<exists>line s'. quote_line args s = Some (line, s') \<and> sds_inv line \<and>
    sds_content line = joined [32] (map quoted args) \<and> mallocs_ok s' \<and> live s' = live s + 1"
proof -
  have "\<forall>bs \<in> set args. length (quoted bs) \<le> 2 ^ 62"
    using joined_element [of _ "map quoted args" "[32]"] assms(2) by fastforce
  then obtain ts s1 where ts: "quote_all args s = Some (ts, s1)" "\<forall>t \<in> set ts. sds_inv t"
    "map sds_content ts = map quoted args" "mallocs_ok s1" "live s1 = live s + int (length args)"
    using quote_all_outcome [OF assms(1)] by blast
  have len: "length ts = length args" using ts(3) by (metis length_map)
  obtain line s2 where l: "sdsjoinsds ts [32] 1 s1 = Some (Some line, s2)" "sds_inv line"
    "sds_content line = joined [32] (map quoted args)" "live s2 = live s1 + 1" "mallocs_ok s2"
    using joinsds_outcome [OF ts(4), of 1 "[32]" ts] ts(2,3) assms(2,3) len by auto
  then show ?thesis
    using ts l len fold_free [of ts s2] by (simp add: quote_line_def)
qed

end
