(* ===== verification/SdsCalls.thy ===== *)
theory SdsCalls
  imports SdsOps
begin

text \<open>
  A string under any sequence of calls: every operation of \<open>sds.c\<close> that changes a string, and
  the reading protocol that the comment above \<open>sdsIncrLen\<close> prescribes, as operations on the
  list of its bytes.
\<close>

section \<open>The operations not covered so far\<close>

lemma clear_outcome:
  assumes "sds_inv str"
  shows "\<exists>str'. sdsclear str = Some str' \<and> sds_inv str' \<and> sds_content str' = []"
proof -
  obtain b2 where "mem_store (sds_buf str) 0 [0] = Some b2"
    "sds_inv (sdssetlen (str\<lparr>sds_buf := b2\<rparr>) (of_nat 0))"
    "sds_content (sdssetlen (str\<lparr>sds_buf := b2\<rparr>) (of_nat 0)) = take 0 (sds_buf str)"
    using cut_outcome [OF assms, of 0 "sds_buf str"] by auto
  then show ?thesis by (cases str) (auto simp: sdsclear_def sdssetlen_def)
qed

lemma reblocked_content:
  assumes "reblocked str n new" and "sds_inv str"
  shows "sds_inv new \<and> sds_content new = sds_content str"
  using assms by (intro same_front) (simp_all add: reblocked_def)

lemma remove_free_space_outcome:
  assumes inv: "sds_inv str" and small: "unat (sdslen str) \<le> 2 ^ 63"
  shows "\<exists>r s'. sdsRemoveFreeSpace str s = Some (r, s') \<and> grow_post s (sds_content str) r s'"
proof (cases "sdsavail str = 0")
  case True
  then show ?thesis using inv by (simp add: sdsRemoveFreeSpace_def grow_post_def)
next
  case False
  let ?len = "sdslen str"
  define type where "type = sdsReqType ?len"
  have shape: "sds_shape str" using inv by (simp add: sds_inv_iff)
  have fits: "unat ?len < 2 ^ len_bits type" "unat ?len < 2 ^ len_bits (type_of_sds str)"
    using req_type_less [of ?len] inv by (simp_all add: type_def sds_inv_def take_bit_size_iff)
  have tot: "unat (sdsHdrSize t + ?len + 1) = unat (sdsHdrSize t) + unat ?len + 1" for t
    using small by (intro alloc_size_fits) simp
  have t5: "type_of_sds str \<noteq> SDS_TYPE_5" using False by (auto simp: sdsavail_def)
  note unf = sdsRemoveFreeSpace_def Let_def type_def [symmetric]
  show ?thesis
  proof (cases "type_of_sds str = type \<or> type \<noteq> SDS_TYPE_5 \<and> type \<noteq> SDS_TYPE_8")
    case True
    let ?h = "sdsHdrSize (type_of_sds str)"
    obtain r s' where re: "s_realloc (sds_buf str) ?h (?h + ?len + 1) s = (r, s')" by fastforce
    have "sdsRemoveFreeSpace str s = Some (case r of None \<Rightarrow> NoMemory
        | Some b \<Rightarrow> Str (sdssetalloc (str\<lparr>sds_buf := b\<rparr>) ?len), s')"
      unfolding unf using False True re by (cases r) simp_all
    then show ?thesis
      using realloc_string [OF shape t5 order_refl fits(2) tot re] reblocked_content [OF _ inv]
      by (cases r) (auto simp: grow_post_def)
  next
    case other: False
    obtain blk s1 where m: "malloc (sdsHdrSize type + ?len + 1) s = (blk, s1)" by fastforce
    show ?thesis
    proof (cases blk)
      case None
      then have "sdsRemoveFreeSpace str s = Some (NoMemory, s1)"
        unfolding unf using False other m by auto
      with m None malloc_None malloc_ok [OF _ m] show ?thesis by (auto simp: grow_post_def)
    next
      case (Some sh)
      obtain src b where c: "mem_load (sds_buf str) 0 (unat (?len + 1)) = Some src"
        "mem_store (drop (unat (sdsHdrSize type)) sh) 0 src = Some b"
        "reblocked str ?len (sdssetalloc
           (sdssetlen \<lparr>type_of_sds = type, hdr_len = 0, hdr_alloc = 0, sds_buf = b\<rparr> ?len) ?len)"
        "live (c_free (Some str) s1) = live s" "mallocs_ok s \<longrightarrow> mallocs_ok (c_free (Some str) s1)"
        using copy_string [OF shape order_refl fits(1) _ tot m [unfolded Some]] by blast
      then have "sdsRemoveFreeSpace str s = Some (Str (sdssetalloc
           (sdssetlen \<lparr>type_of_sds = type, hdr_len = 0, hdr_alloc = 0, sds_buf = b\<rparr> ?len) ?len),
           c_free (Some str) s1)"
        unfolding unf using False other m Some by auto
      then show ?thesis using c(4,5) reblocked_content [OF c(3) inv] by (simp add: grow_post_def)
    qed
  qed
qed

lemma make_room_not_5:
  "sdsMakeRoomFor str addlen s = Some (Str c, s') \<Longrightarrow> 0 < addlen \<Longrightarrow> type_of_sds c \<noteq> SDS_TYPE_5"
  by (auto simp: sdsMakeRoomFor_def Let_def sdsavail_def sdssetalloc_def sdssetlen_def
      split: if_splits prod.splits option.splits bind_splits)

text \<open>Reading into the free space: \<open>sdsMakeRoomFor\<close>, store behind the content, \<open>sdsIncrLen\<close>.\<close>

definition read_into :: "size_t \<Rightarrow> byte list \<Rightarrow> sds \<Rightarrow> os \<Rightarrow> (sds_result \<times> os) option" where
  "read_into bufsize bs str s =
     do {
       (r, s1) \<leftarrow> sdsMakeRoomFor str bufsize s;
       (case r of
          Str c \<Rightarrow>
            do {
              b \<leftarrow> mem_store (sds_buf c) (unat (sdslen c)) bs;
              r1 \<leftarrow> sdsIncrLen (c\<lparr>sds_buf := b\<rparr>) (int (length bs));
              Some (r1, s1)
            }
        | _ \<Rightarrow> Some (r, s1))
     }"

lemma incr_within_room:
  assumes inv: "sds_inv c" and n: "n \<le> unat (sdsavail c)" and t: "type_of_sds c \<noteq> SDS_TYPE_5"
  shows "incr_allowed c (int n)"
proof -
  have "type_of_sds c = SDS_TYPE_32 \<Longrightarrow> unat (sdsavail c) < 2 ^ 32"
    using avail_unat [OF inv] inv
    by (auto simp: sds_inv_def take_bit_size_iff intro: less_imp_diff_less)
  moreover have "int n \<le> int (unat (sdsavail c))" using n by linarith
  moreover have "n + unat (hdr_len c) \<le> unat (hdr_alloc c)"
    using n t avail_unat [OF inv] inv by (simp add: sds_inv_def sdslen_def sdsalloc_def) linarith
  then have "int n \<le> int (unat (hdr_alloc c)) - int (unat (hdr_len c))" by linarith
  ultimately show ?thesis
    using n t by (cases "type_of_sds c") (simp_all add: incr_allowed_def Let_def)
qed

lemma incr_len_outcome:
  assumes inv: "sds_inv c" and t: "type_of_sds c \<noteq> SDS_TYPE_5"
    and room: "unat (sdslen c) + length bs \<le> unat (sdsalloc c)"
  shows "\<exists>b str. mem_store (sds_buf c) (unat (sdslen c)) bs = Some b \<and>
    sdsIncrLen (c\<lparr>sds_buf := b\<rparr>) (int (length bs)) = Some (Str str) \<and>
    sds_inv str \<and> sds_content str = sds_content c @ bs"
proof -
  let ?n = "unat (sdslen c)"
  define b where "b = sds_content c @ bs @ drop (?n + length bs) (sds_buf c)"
  have lt: "?n + length bs < length (sds_buf c)" using room alloc_lt_buf [OF inv] by simp
  have st: "mem_store (sds_buf c) ?n bs = Some b" using store_at_end [OF inv lt] by (simp add: b_def)
  have lb: "length b = length (sds_buf c)" "?n + length bs < length b"
    using lt content_length [OF inv] by (simp_all add: b_def)
  have av: "sdsavail (c\<lparr>sds_buf := b\<rparr>) = sdsavail c" "incr_allowed (c\<lparr>sds_buf := b\<rparr>) i = incr_allowed c i" for i
    by (cases "type_of_sds c"; simp add: sdsavail_def incr_allowed_def)+
  have ok: "incr_allowed c (int (length bs))"
    using room avail_unat [OF inv] by (intro incr_within_room [OF inv _ t]) simp
  let ?w = "sdslen c + of_nat (length bs)"
  have small: "unat (of_nat (length bs) :: size_t) = length bs"
    using room unat_less_size [of "sdsalloc c"] by (intro unat_of_nat_size) simp
  have w: "unat ?w = ?n + length bs"
    using room unat_less_size [of "sdsalloc c"] small by (subst unat_add_size) simp_all
  define b2 where "b2 = take (?n + length bs) b @ [0] @ drop (?n + length bs + 1) b"
  have "sds_inv (sdssetlen (c\<lparr>sds_buf := b2\<rparr>) ?w) \<and>
      sds_content (sdssetlen (c\<lparr>sds_buf := b2\<rparr>) ?w) = sds_content c @ bs"
  proof (rule append_bytes [OF inv room])
    show "unat ?w = ?n + length bs" by (rule w)
    show "length b2 = length (sds_buf c)" "b2 ! unat ?w = 0"
      using lb w by (simp_all add: b2_def nth_append)
    show "take (unat ?w) b2 = sds_content c @ bs"
      using lb w content_length [OF inv] by (simp add: b2_def b_def)
  qed
  moreover have "sdsIncrLen (c\<lparr>sds_buf := b\<rparr>) (int (length bs)) =
      Some (Str (sdssetlen (c\<lparr>sds_buf := b2\<rparr>) ?w))"
  proof -
    have fit: "take_bit (len_bits (type_of_sds c)) ?w = ?w"
    proof -
      have "unat (sdsalloc c) < 2 ^ len_bits (type_of_sds c)"
        using inv by (simp add: sds_inv_def take_bit_size_iff)
      then show ?thesis using room w by (simp add: take_bit_size_iff)
    qed
    have "mem_store b (unat ?w) [0] = Some b2"
      using lb w by (simp add: b2_def mem_simps)
    then show ?thesis
      using ok fit av t by (simp add: sdsIncrLen_def Let_def sdsinclen_def sdssetlen_def sdslen_def)
  qed
  ultimately show ?thesis using st by auto
qed

lemma read_into_outcome:
  assumes inv: "sds_inv str" and "length bs \<le> unat n" and "0 < n"
    and "unat (sdslen str) + unat n \<le> 2 ^ 63"
  shows "\<exists>r s'. read_into n bs str s = Some (r, s') \<and> grow_post s (sds_content str @ bs) r s'"
proof -
  obtain r s1 where m: "sdsMakeRoomFor str n s = Some (r, s1)"
    "make_room_post str (unat (sdslen str) + unat n) s r s1"
    using make_room_outcome [OF inv assms(4)] by blast
  show ?thesis
  proof (cases r)
    case (Str c)
    have c: "sds_inv c" "sds_content c = sds_content str" "sdslen c = sdslen str"
      "unat (sdslen str) + unat n \<le> unat (sdsalloc c)"
      using m(2) Str by (simp_all add: make_room_post_def)
    have "unat (sdslen c) + length bs \<le> unat (sdsalloc c)" using c assms(2) by simp
    from incr_len_outcome [OF c(1) _ this] make_room_not_5 [of str n s c s1] m(1) Str assms(3)
    obtain b str' where "mem_store (sds_buf c) (unat (sdslen c)) bs = Some b"
      "sdsIncrLen (c\<lparr>sds_buf := b\<rparr>) (int (length bs)) = Some (Str str')"
      "sds_inv str'" "sds_content str' = sds_content c @ bs" by blast
    then show ?thesis
      using m Str c(2) by (simp add: read_into_def grow_post_def make_room_post_def)
  qed (use m in \<open>auto simp: read_into_def grow_post_def make_room_post_def\<close>)
qed

section \<open>Sequences of calls\<close>

text \<open>The calls on one string; \<open>ReadInto\<close> is the reading protocol.\<close>

datatype sds_call =
    Append "byte list" | AppendString sds | CopyFrom "byte list" | GrowZero size_t | Reserve size_t
  | ReadInto size_t "byte list" | Shrink | Clear | Trim "byte list" | Range int int
  | Lower | Upper | MapChars "byte list" "byte list"

definition in_place :: "sds option \<Rightarrow> os \<Rightarrow> (sds_result \<times> os) option" where
  "in_place r s = map_option (\<lambda>str. (Str str, s)) r"

fun run_call :: "sds_call \<Rightarrow> sds \<Rightarrow> os \<Rightarrow> (sds_result \<times> os) option" where
  "run_call (Append bs) str s = sdscatlen str bs (of_nat (length bs)) s"
| "run_call (AppendString t) str s = sdscatsds str t s"
| "run_call (CopyFrom bs) str s = sdscpylen str bs (of_nat (length bs)) s"
| "run_call (GrowZero n) str s = sdsgrowzero str n s"
| "run_call (Reserve n) str s = sdsMakeRoomFor str n s"
| "run_call (ReadInto n bs) str s = read_into n bs str s"
| "run_call Shrink str s = sdsRemoveFreeSpace str s"
| "run_call Clear str s = in_place (sdsclear str) s"
| "run_call (Trim cset) str s = in_place (sdstrim str cset) s"
| "run_call (Range a z) str s = in_place (sdsrange str a z) s"
| "run_call Lower str s = in_place (sdstolower str) s"
| "run_call Upper str s = in_place (sdstoupper str) s"
| "run_call (MapChars froms tos) str s = in_place (sdsmapchars str froms tos (of_nat (length froms))) s"

text \<open>What a call means for the bytes.\<close>

definition subrange :: "int \<Rightarrow> int \<Rightarrow> 'a list \<Rightarrow> 'a list" where
  "subrange a z xs =
     (let i = from_end (int (length xs)) a; j = from_end (int (length xs)) z
      in take (nat (j - i + 1)) (drop (nat i) xs))"

definition replace_byte :: "byte list \<Rightarrow> byte list \<Rightarrow> byte \<Rightarrow> byte" where
  "replace_byte froms tos c = (case map_of (zip froms tos) c of None \<Rightarrow> c | Some d \<Rightarrow> d)"

fun call_spec :: "sds_call \<Rightarrow> byte list \<Rightarrow> byte list" where
  "call_spec (Append bs) xs = xs @ bs"
| "call_spec (AppendString t) xs = xs @ sds_content t"
| "call_spec (CopyFrom bs) xs = bs"
| "call_spec (GrowZero n) xs = xs @ replicate (unat n - length xs) 0"
| "call_spec (Reserve n) xs = xs"
| "call_spec (ReadInto n bs) xs = xs @ bs"
| "call_spec Shrink xs = xs"
| "call_spec Clear xs = []"
| "call_spec (Trim cset) xs = trim (trimmed cset) xs"
| "call_spec (Range a z) xs = subrange a z xs"
| "call_spec Lower xs = map to_lower xs"
| "call_spec Upper xs = map to_upper xs"
| "call_spec (MapChars froms tos) xs = map (replace_byte froms tos) xs"

text \<open>Arguments of sizes far below the limits of their types.\<close>

definition MAX_ARG :: nat where
  "MAX_ARG = 2 ^ 40"

fun call_ok :: "sds_call \<Rightarrow> bool" where
  "call_ok (Append bs) \<longleftrightarrow> length bs \<le> MAX_ARG"
| "call_ok (AppendString t) \<longleftrightarrow> sds_inv t \<and> length (sds_content t) \<le> MAX_ARG"
| "call_ok (CopyFrom bs) \<longleftrightarrow> length bs \<le> MAX_ARG"
| "call_ok (GrowZero n) \<longleftrightarrow> unat n \<le> MAX_ARG"
| "call_ok (Reserve n) \<longleftrightarrow> unat n \<le> MAX_ARG"
| "call_ok (ReadInto n bs) \<longleftrightarrow> 0 < n \<and> length bs \<le> unat n \<and> unat n \<le> MAX_ARG"
| "call_ok (Trim cset) \<longleftrightarrow> 0 \<in> set cset"
| "call_ok (Range a z) \<longleftrightarrow> \<bar>a\<bar> < 2 ^ 62 \<and> \<bar>z\<bar> < 2 ^ 62"
| "call_ok (MapChars froms tos) \<longleftrightarrow> length froms \<le> length tos \<and> length froms \<le> MAX_ARG"
| "call_ok _ \<longleftrightarrow> True"

lemma in_place_outcome:
  "\<exists>str'. r = Some str' \<and> sds_inv str' \<and> sds_content str' = c \<Longrightarrow>
     \<exists>r' s'. in_place r s = Some (r', s') \<and> grow_post s c r' s'"
  by (auto simp: in_place_def grow_post_def)

lemma find_map_of: "map_option snd (find (\<lambda>p. fst p = c) ps) = map_of ps c"
  by (induction ps) auto

lemma trim_length: "length (trim p xs) \<le> length xs"
  unfolding trim_def length_rev
  by (metis length_dropWhile_le length_rev order_trans)

lemma spec_length: "call_ok c \<Longrightarrow> length (call_spec c xs) \<le> length xs + MAX_ARG"
  using trim_length [of "trimmed cset" xs for cset]
  by (cases c) (auto simp: subrange_def Let_def trans_le_add1)

lemma size_of_length: "n \<le> 2 ^ 61 \<Longrightarrow> unat (of_nat n :: size_t) = n"
  by (intro unat_of_nat_size) simp

lemma range_call:
  assumes inv: "sds_inv str" and small: "length (sds_content str) \<le> 2 ^ 61"
    and az: "\<bar>a\<bar> < 2 ^ 62" "\<bar>z\<bar> < 2 ^ 62"
  shows "\<exists>str'. sdsrange str a z = Some str' \<and> sds_inv str' \<and>
    sds_content str' = subrange a z (sds_content str)"
proof -
  note len = content_length [OF inv]
  have "int (unat (sdslen str)) \<le> int (2 ^ 61)" using small len by (simp only: of_nat_le_iff)
  then have "int (unat (sdslen str)) < 2 ^ 62" by simp
  moreover have "- (2 ^ 62) \<le> a" "a < 2 ^ 62" "- (2 ^ 62) \<le> z" "z < 2 ^ 62" using az by auto
  ultimately show ?thesis
    using range_outcome [OF inv, of a z] len by (simp add: subrange_def Let_def)
qed

lemma map_char_replaces:
  assumes "length froms \<le> length tos"
  shows "map_char froms tos 0 (length froms) b = Some (replace_byte froms tos b)"
  using map_char_outcome [of 0 "length froms" froms tos b] assms
    find_map_of [of b "zip froms tos", symmetric]
  by (cases "find (\<lambda>p. fst p = b) (zip froms tos)") (auto simp: replace_byte_def)

lemma map_chars_call:
  assumes inv: "sds_inv str" and l: "length froms \<le> length tos" "length froms \<le> MAX_ARG"
  shows "\<exists>str'. sdsmapchars str froms tos (of_nat (length froms)) = Some str' \<and> sds_inv str' \<and>
    sds_content str' = map (replace_byte froms tos) (sds_content str)"
proof -
  have "unat (of_nat (length froms) :: size_t) = length froms"
    using l(2) size_of_length [of "length froms"] by (simp add: MAX_ARG_def)
  moreover note map_outcome [OF inv, of "map_char froms tos 0 (length froms)", OF map_char_replaces [OF l(1)]]
  ultimately show ?thesis by (auto simp: sdsmapchars_def)
qed

fun grows :: "sds_call \<Rightarrow> bool" where
  "grows (Append bs) = True"
| "grows (AppendString t) = True"
| "grows (CopyFrom bs) = True"
| "grows (GrowZero n) = True"
| "grows (Reserve n) = True"
| "grows (ReadInto n bs) = True"
| "grows Shrink = True"
| "grows _ = False"

lemma size_of_arg: "length bs \<le> MAX_ARG \<Longrightarrow> unat (of_nat (length bs) :: size_t) = length bs \<and> length bs \<le> 2 ^ 40"
  using size_of_length [of "length bs"] by (simp add: MAX_ARG_def)

lemma growing_call_outcome:
  assumes inv: "sds_inv str" and ok: "call_ok c" and small: "length (sds_content str) \<le> 2 ^ 61" and c: "grows c"
  shows "\<exists>r s'. run_call c str s = Some (r, s') \<and> grow_post s (call_spec c (sds_content str)) r s'"
proof -
  note len = content_length [OF inv]
  have n: "unat (sdslen str) \<le> 2 ^ 61" using small len by simp
  show ?thesis
  proof (cases c)
    case (Append bs)
    then show ?thesis using ok size_of_arg [of bs] n catlen_outcome [OF inv, of "of_nat (length bs)" bs s] by simp
  next
    case (AppendString t)
    then have "unat (sdslen t) \<le> 2 ^ 40" "unat (sdslen t) \<le> length (sds_buf t)"
      using ok content_length [of t] by (simp_all add: MAX_ARG_def sds_inv_def)
    then show ?thesis
      using AppendString n catlen_outcome [OF inv, of "sdslen t" "sds_buf t" s]
      by (simp add: sdscatsds_def sds_content_def)
  next
    case (CopyFrom bs)
    then show ?thesis using ok size_of_arg [of bs] cpylen_outcome [OF inv, of "of_nat (length bs)" bs s] by simp
  next
    case (GrowZero m)
    then show ?thesis using ok growzero_outcome [OF inv, of m s] len by (simp add: MAX_ARG_def)
  next
    case (Reserve m)
    then show ?thesis
      using ok n make_room_outcome [OF inv, of m s]
      by (fastforce simp: MAX_ARG_def make_room_post_def grow_post_def split: sds_result.splits)
  next
    case (ReadInto m bs)
    then show ?thesis using ok n read_into_outcome [OF inv, of bs m s] by (simp add: MAX_ARG_def)
  next
    case Shrink
    then show ?thesis using n remove_free_space_outcome [OF inv, of s] by simp
  qed (use c in simp_all)
qed

lemma in_place_call_outcome:
  assumes inv: "sds_inv str" and ok: "call_ok c" and small: "length (sds_content str) \<le> 2 ^ 61" and c: "\<not> grows c"
  shows "\<exists>r s'. run_call c str s = Some (r, s') \<and> grow_post s (call_spec c (sds_content str)) r s'"
proof (cases c)
  case Lower
  then show ?thesis
    using in_place_outcome [of "sdstolower str"] map_outcome [OF inv, of "\<lambda>c. Some (to_lower c)" to_lower]
    by (auto simp: sdstolower_def)
next
  case Upper
  then show ?thesis
    using in_place_outcome [of "sdstoupper str"] map_outcome [OF inv, of "\<lambda>c. Some (to_upper c)" to_upper]
    by (auto simp: sdstoupper_def)
qed (use c ok in_place_outcome [OF clear_outcome [OF inv]] in_place_outcome [OF trim_outcome [OF inv]]
    in_place_outcome [OF range_call [OF inv small]] in_place_outcome [OF map_chars_call [OF inv]] in simp_all)

lemma run_call_outcome:
  assumes "sds_inv str" and "call_ok c" and "length (sds_content str) \<le> 2 ^ 61"
  shows "\<exists>r s'. run_call c str s = Some (r, s') \<and> grow_post s (call_spec c (sds_content str)) r s'"
  using growing_call_outcome [OF assms] in_place_call_outcome [OF assms] by (cases "grows c") blast+

fun run_calls :: "sds_call list \<Rightarrow> sds \<Rightarrow> os \<Rightarrow> (sds_result \<times> os) option" where
  "run_calls [] str s = Some (Str str, s)"
| "run_calls (c # cs) str s =
     do {
       (r, s1) \<leftarrow> run_call c str s;
       (case r of Str str1 \<Rightarrow> run_calls cs str1 s1 | _ \<Rightarrow> Some (r, s1))
     }"

lemma run_calls_outcome:
  "sds_inv str \<Longrightarrow> list_all call_ok cs \<Longrightarrow> length (sds_content str) + length cs * MAX_ARG \<le> 2 ^ 61 \<Longrightarrow>
     \<exists>r s'. run_calls cs str s = Some (r, s') \<and>
       grow_post s (fold call_spec cs (sds_content str)) r s'"
proof (induction cs arbitrary: str s)
  case Nil
  then show ?case by (simp add: grow_post_def)
next
  case (Cons c cs)
  have "length (sds_content str) \<le> 2 ^ 61" "call_ok c" using Cons.prems by simp_all
  then obtain r s1 where r: "run_call c str s = Some (r, s1)"
    "grow_post s (call_spec c (sds_content str)) r s1"
    using run_call_outcome [OF Cons.prems(1), of c s] by blast
  show ?case
  proof (cases r)
    case (Str str1)
    then have str1: "sds_inv str1" "sds_content str1 = call_spec c (sds_content str)"
      using r(2) by (simp_all add: grow_post_def)
    have "length (sds_content str1) + length cs * MAX_ARG \<le> 2 ^ 61"
      using spec_length [of c "sds_content str"] Cons.prems(2,3) str1(2) by simp
    then obtain r' s' where "run_calls cs str1 s1 = Some (r', s')"
      "grow_post s1 (fold call_spec cs (sds_content str1)) r' s'"
      using Cons.IH [OF str1(1), of s1] Cons.prems(2) by (auto simp del: run_calls.simps)
    then show ?thesis
      using r Str str1(2) by (auto simp: grow_post_def split: sds_result.splits)
  qed (use r in \<open>auto simp: grow_post_def\<close>)
qed

text \<open>A string for the examples.\<close>

definition example_sds :: sds where
  "example_sds = \<lparr>type_of_sds = SDS_TYPE_8, hdr_len = 2, hdr_alloc = 4, sds_buf = [104, 105, 0, 0, 0]\<rparr>"

lemma example_sds_inv: "sds_inv example_sds" "sds_content example_sds = [104, 105]"
  by (simp_all add: example_sds_def sds_inv_def sdslen_def sdsalloc_def sds_content_def take_bit_size_iff)

lemma example_os_ok: "mallocs_ok example_os"
  by (simp add: example_os_def mallocs_ok_def)

end
