(* ===== verification/SdsFmt.thy ===== *)
theory SdsFmt
  imports SdsNumbers SdsOps
begin

text \<open>
  \<open>sdscatfmt\<close> of \<open>sds.c\<close>: its own formats, written straight into the free space of the string.
  While it works the string has no NUL; a NULL string has no defined outcome.
\<close>

section \<open>The model\<close>

text \<open>The variable arguments. \<open>va_arg\<close> of another type than was passed has no defined outcome.\<close>

datatype fmt_arg =
    CString "byte list" | SdsArg sds | IntArg int | LongLongArg int
  | UIntArg "32 word" | ULongLongArg "64 word"

text \<open>The bytes for one specifier and the arguments that are left; the number buffers on the
  stack hold anything.\<close>

definition number_buffer :: "os \<Rightarrow> byte list" where
  "number_buffer s = map (junk s) [0..<SDS_LLSTR_SIZE]"

fun fmt_text :: "byte \<Rightarrow> fmt_arg list \<Rightarrow> os \<Rightarrow> (byte list \<times> fmt_arg list) option" where
  "fmt_text next (CString t # args) s =
     (if next = 115 then do { n \<leftarrow> find_byte 0 t; Some (take n t, args) } else None)"
| "fmt_text next (SdsArg t # args) s =
     (if next = 83 then do { bs \<leftarrow> mem_load (sds_buf t) 0 (unat (sdslen t)); Some (bs, args) } else None)"
| "fmt_text next (IntArg v # args) s =
     (if next = 105 then do { (l, buf) \<leftarrow> sdsll2str (number_buffer s) v; Some (take l buf, args) } else None)"
| "fmt_text next (LongLongArg v # args) s =
     (if next = 73 then do { (l, buf) \<leftarrow> sdsll2str (number_buffer s) v; Some (take l buf, args) } else None)"
| "fmt_text next (UIntArg v # args) s =
     (if next = 117 then do { (l, buf) \<leftarrow> sdsull2str (number_buffer s) (ucast v); Some (take l buf, args) }
      else None)"
| "fmt_text next (ULongLongArg v # args) s =
     (if next = 85 then do { (l, buf) \<leftarrow> sdsull2str (number_buffer s) v; Some (take l buf, args) } else None)"
| "fmt_text next [] s = None"

definition ensure_room :: "size_t \<Rightarrow> sds \<Rightarrow> os \<Rightarrow> (sds \<times> os) option" where
  "ensure_room n str s =
     (if sdsavail str < n then
        do {
          (r, s1) \<leftarrow> sdsMakeRoomFor str n s;
          (case r of Str c \<Rightarrow> Some (c, s1) | _ \<Rightarrow> None)
        }
      else Some (str, s))"

text \<open>\<open>memcpy(s+i, bs, l)\<close> or \<open>s[i] = c\<close>, then \<open>sdsinclen\<close>.\<close>

definition put_at :: "nat \<Rightarrow> byte list \<Rightarrow> sds \<Rightarrow> sds option" where
  "put_at i bs str =
     do { b \<leftarrow> mem_store (sds_buf str) i bs; Some (sdsinclen (str\<lparr>sds_buf := b\<rparr>) (of_nat (length bs))) }"

definition is_specifier :: "byte \<Rightarrow> bool" where
  "is_specifier c \<longleftrightarrow> c \<in> {115, 83, 105, 73, 117, 85}"

fun fmt_loop :: "byte list \<Rightarrow> fmt_arg list \<Rightarrow> sds \<Rightarrow> nat \<Rightarrow> os \<Rightarrow> (sds \<times> nat \<times> os) option" where
  "fmt_loop [] args str i s = Some (str, i, s)"
| "fmt_loop [c] args str i s =
     do {
       (str1, s1) \<leftarrow> ensure_room 1 str s;
       if c = 37 then Some (str1, i, s1)
       else do { str2 \<leftarrow> put_at i [c] str1; Some (str2, i + 1, s1) }
     }"
| "fmt_loop (c # next # f) args str i s =
     do {
       (str1, s1) \<leftarrow> ensure_room 1 str s;
       if c = 37 then
         (if is_specifier next then
            do {
              (bs, args1) \<leftarrow> fmt_text next args s1;
              (str2, s2) \<leftarrow> ensure_room (of_nat (length bs)) str1 s1;
              str3 \<leftarrow> put_at i bs str2;
              fmt_loop f args1 str3 (i + length bs) s2
            }
          else
            do {
              str2 \<leftarrow> put_at i [next] str1;
              fmt_loop f args str2 (i + 1) s1
            })
       else
         do {
           str2 \<leftarrow> put_at i [c] str1;
           fmt_loop (next # f) args str2 (i + 1) s1
         }
     }"

text \<open>\<open>fmt\<close> are the bytes behind the pointer.\<close>

definition sdscatfmt :: "sds \<Rightarrow> byte list \<Rightarrow> fmt_arg list \<Rightarrow> os \<Rightarrow> (sds \<times> os) option" where
  "sdscatfmt str fmt args s =
     (let initlen = sdslen str in
      do {
        n \<leftarrow> find_byte 0 fmt;
        (r, s1) \<leftarrow> sdsMakeRoomFor str (initlen + of_nat n * 2) s;
        (case r of
           Str str1 \<Rightarrow>
             do {
               (str2, i, s2) \<leftarrow> fmt_loop (take n fmt) args str1 (unat initlen) s1;
               b \<leftarrow> mem_store (sds_buf str2) i [0];
               Some (str2\<lparr>sds_buf := b\<rparr>, s2)
             }
         | _ \<Rightarrow> None)
      })"

section \<open>What it formats\<close>

text \<open>The text of a format: the specifiers take the arguments in order, other characters
  behind a percent sign stand for themselves, and a percent sign at the end is dropped.\<close>

fun arg_text :: "fmt_arg \<Rightarrow> byte list" where
  "arg_text (CString t) = takeWhile (\<lambda>c. c \<noteq> 0) t"
| "arg_text (SdsArg t) = sds_content t"
| "arg_text (IntArg v) = bytes_of (signed_text v)"
| "arg_text (LongLongArg v) = bytes_of (signed_text v)"
| "arg_text (UIntArg v) = bytes_of (decimal (unat v))"
| "arg_text (ULongLongArg v) = bytes_of (decimal (unat v))"

fun arg_fits :: "byte \<Rightarrow> fmt_arg \<Rightarrow> bool" where
  "arg_fits c (CString t) \<longleftrightarrow> c = 115 \<and> 0 \<in> set t"
| "arg_fits c (SdsArg t) \<longleftrightarrow> c = 83 \<and> sds_inv t"
| "arg_fits c (IntArg v) \<longleftrightarrow> c = 105 \<and> - (2 ^ 31) \<le> v \<and> v < 2 ^ 31"
| "arg_fits c (LongLongArg v) \<longleftrightarrow> c = 73 \<and> LLONG_MIN \<le> v \<and> v \<le> LLONG_MAX"
| "arg_fits c (UIntArg v) \<longleftrightarrow> c = 117"
| "arg_fits c (ULongLongArg v) \<longleftrightarrow> c = 85"

fun formatted :: "byte list \<Rightarrow> fmt_arg list \<Rightarrow> byte list option" where
  "formatted [] args = Some []"
| "formatted [c] args = Some (if c = 37 then [] else [c])"
| "formatted (c # next # f) args =
     (if c = 37 then
        (if is_specifier next then
           (case args of
              [] \<Rightarrow> None
            | a # rest \<Rightarrow>
                if arg_fits next a then map_option (\<lambda>t. arg_text a @ t) (formatted f rest) else None)
         else map_option (\<lambda>t. next # t) (formatted f args))
      else map_option (\<lambda>t. c # t) (formatted (next # f) args))"

section \<open>Lemmas\<close>

text \<open>The string in the making: the text so far, and nothing lost.\<close>

definition in_making :: "sds \<Rightarrow> byte list \<Rightarrow> os \<Rightarrow> int \<Rightarrow> bool" where
  "in_making str c s l \<longleftrightarrow> sds_shape str \<and> sds_content str = c \<and> mallocs_ok s \<and> live s = l"

lemma shape_length: "sds_shape str \<Longrightarrow> length (sds_content str) = unat (sdslen str)"
  by (simp add: sds_content_def sds_shape_def)

lemma room_kept_content:
  assumes "room_kept str need s (Str c) s'" and "sds_shape str"
  shows "sds_content c = sds_content str"
proof -
  have "take (unat (sdslen str)) (take (unat (sdslen str) + 1) (sds_buf c)) =
      take (unat (sdslen str)) (take (unat (sdslen str) + 1) (sds_buf str))"
    using assms(1) by (simp add: room_kept_def)
  then show ?thesis using assms(1) by (simp add: room_kept_def sds_content_def)
qed

lemma ensure_ok:
  assumes "in_making str c s l" and "length c + unat n \<le> 2 ^ 63"
  shows "\<exists>str' s'. ensure_room n str s = Some (str', s') \<and> in_making str' c s' l \<and>
    unat n \<le> unat (sdsavail str')"
proof (cases "sdsavail str < n")
  case False
  then have "ensure_room n str s = Some (str, s)" by (simp add: ensure_room_def)
  moreover have "unat n \<le> unat (sdsavail str)" using False by (simp add: not_less word_le_nat_alt)
  ultimately show ?thesis using assms(1) by blast
next
  case True
  have sh: "sds_shape str" "length c = unat (sdslen str)"
    using assms(1) shape_length by (auto simp: in_making_def)
  then obtain r s' where r: "sdsMakeRoomFor str n s = Some (r, s')"
    "room_kept str (unat (sdslen str) + unat n) s r s'"
    using make_room_shape [of str n s] assms(2) by auto
  then obtain d where d: "r = Str d" using assms(1) by (cases r) (auto simp: room_kept_def in_making_def)
  have "in_making d c s' l"
    using r(2) room_kept_content [OF r(2) [unfolded d] sh(1)] assms(1) d
    by (simp add: in_making_def room_kept_def)
  moreover have "unat n \<le> unat (sdsavail d)"
    using r(2) d shape_avail [of d] by (auto simp: room_kept_def)
  ultimately show ?thesis using True r(1) d by (simp add: ensure_room_def)
qed

lemma put_ok:
  assumes m: "in_making str c s l" and room: "length bs \<le> unat (sdsavail str)" and i: "i = length c"
  shows "\<exists>str'. put_at i bs str = Some str' \<and> in_making str' (c @ bs) s l"
proof -
  have sh: "sds_shape str" "length c = unat (sdslen str)" "c = sds_content str"
    using m shape_length by (auto simp: in_making_def)
  let ?n = "unat (sdslen str)"
  have al: "?n + length bs \<le> unat (sdsalloc str)" "unat (sdsalloc str) < length (sds_buf str)"
    "unat (sdsalloc str) < 2 ^ len_bits (type_of_sds str)"
    using room shape_avail [OF sh(1)] sh(1) by (auto simp: sds_shape_def take_bit_size_iff)
  define b where "b = take ?n (sds_buf str) @ bs @ drop (?n + length bs) (sds_buf str)"
  have st: "mem_store (sds_buf str) i bs = Some b"
    using al i sh(2) by (simp add: b_def mem_simps)
  have small: "unat (of_nat (length bs) :: size_t) = length bs"
    using al unat_less_size [of "sdsalloc str"] by (intro unat_of_nat_size) simp
  have w: "unat (sdslen str + of_nat (length bs)) = ?n + length bs"
    using al unat_less_size [of "sdsalloc str"] small by (subst unat_add_size) simp_all
  have fit: "take_bit (len_bits (type_of_sds str)) (sdslen str + of_nat (length bs)) =
      sdslen str + of_nat (length bs)"
    using al w by (simp add: take_bit_size_iff)
  let ?new = "str\<lparr>sds_buf := b, hdr_len := sdslen str + of_nat (length bs)\<rparr>"
  have put: "put_at i bs str = Some ?new"
    using st fit by (simp add: put_at_def sdsinclen_def sdslen_def)
  have lb: "length b = length (sds_buf str)" using al by (simp add: b_def)
  have "sds_content ?new = c @ bs"
    using al w sh(3) by (simp add: sds_content_def sdslen_def b_def)
  moreover have "sds_shape ?new"
    using sh(1) al w fit lb
    by (cases "type_of_sds str = SDS_TYPE_5") (simp_all add: sds_shape_def sdslen_def sdsalloc_def take_bit_size_iff)
  ultimately show ?thesis using put m by (simp add: in_making_def)
qed

lemma number_buffer_length: "SDS_LLSTR_SIZE \<le> length (number_buffer s)"
  by (simp add: number_buffer_def)

lemma fmt_text_outcome:
  assumes "arg_fits next a"
  shows "fmt_text next (a # args) s = Some (arg_text a, args)"
proof (cases a)
  case (CString t)
  then obtain n where "find_byte 0 t = Some n" using assms find_byte_None [of 0 t] by auto
  then show ?thesis using CString assms by (simp add: find_byte_takeWhile)
next
  case (SdsArg t)
  then show ?thesis using assms by (simp add: mem_load_def sds_inv_def sds_content_def)
next
  case (IntArg v)
  then have "LLONG_MIN \<le> v" "v \<le> LLONG_MAX" using assms by (simp_all add: LLONG_MIN_def LLONG_MAX_def)
  from ll2str_outcome [OF number_buffer_length this] show ?thesis using IntArg assms by simp
next
  case (LongLongArg v)
  then show ?thesis using assms ll2str_outcome [OF number_buffer_length, of v s] by simp
next
  case (UIntArg v)
  have "unat v < 2 ^ 64" using unsigned_less [where w = v and 'a = nat] by simp
  then have "unat (ucast v :: 64 word) = unat v" by (simp add: unsigned_ucast_eq take_bit_nat_eq_self)
  then show ?thesis using UIntArg assms ull2str_outcome [OF number_buffer_length, of s "ucast v"] by simp
next
  case (ULongLongArg v)
  then show ?thesis using assms ull2str_outcome [OF number_buffer_length, of s v] by simp
qed

text \<open>Room for a piece, and the piece in it.\<close>

lemma ensure_put:
  assumes m: "in_making str c s l" and small: "length c + length bs \<le> 2 ^ 62"
  shows "\<exists>str1 s1 str2. ensure_room (of_nat (length bs)) str s = Some (str1, s1) \<and>
    put_at (length c) bs str1 = Some str2 \<and> in_making str2 (c @ bs) s1 l"
proof -
  have u: "unat (of_nat (length bs) :: size_t) = length bs"
    using small by (intro unat_of_nat_size) simp
  obtain str1 s1 where "ensure_room (of_nat (length bs)) str s = Some (str1, s1)"
    "in_making str1 c s1 l" "length bs \<le> unat (sdsavail str1)"
    using ensure_ok [OF m, of "of_nat (length bs)"] small unfolding u by auto
  then show ?thesis using put_ok [of str1 c s1 l bs "length c"] by auto
qed

lemma fmt_loop_outcome:
  "in_making str c s l \<Longrightarrow> formatted f args = Some t \<Longrightarrow> length c + length t < 2 ^ 62 \<Longrightarrow>
     \<exists>str' s'. fmt_loop f args str (length c) s = Some (str', length (c @ t), s') \<and>
       in_making str' (c @ t) s' l"
proof (induction f args arbitrary: str c s t rule: formatted.induct)
  case (1 args)
  then show ?case by simp
next
  case (2 x args)
  obtain str1 s1 where e: "ensure_room 1 str s = Some (str1, s1)" "in_making str1 c s1 l"
    "1 \<le> unat (sdsavail str1)"
    using ensure_ok [OF "2.prems"(1), of 1] "2.prems"(3) by auto
  show ?case
    using put_ok [OF e(2), of "[x]" "length c"] e "2.prems" by (auto split: if_splits)
next
  case (3 x y f args)
  obtain str1 s1 where e: "ensure_room 1 str s = Some (str1, s1)" "in_making str1 c s1 l"
    "1 \<le> unat (sdsavail str1)"
    using ensure_ok [OF "3.prems"(1), of 1] "3.prems"(3) by auto
  show ?case
  proof (cases "x = 37 \<and> is_specifier y")
    case True
    then obtain a rest u where a: "args = a # rest" "arg_fits y a" "formatted f rest = Some u"
      "t = arg_text a @ u"
      using "3.prems"(2) by (auto split: list.splits if_splits)
    obtain str2 s2 str3 where p: "ensure_room (of_nat (length (arg_text a))) str1 s1 = Some (str2, s2)"
      "put_at (length c) (arg_text a) str2 = Some str3" "in_making str3 (c @ arg_text a) s2 l"
      using ensure_put [OF e(2), of "arg_text a"] "3.prems"(3) a(4) by auto
    have "\<exists>str' s'. fmt_loop f rest str3 (length (c @ arg_text a)) s2 = Some (str', length ((c @ arg_text a) @ u), s') \<and>
        in_making str' ((c @ arg_text a) @ u) s' l"
      using True a "3.prems"(3) by (intro "3.IH"(1) p(3)) simp_all
    then show ?thesis using True e(1) a p fmt_text_outcome [OF a(2), of rest s1] by simp
  next
    case other: False
    show ?thesis
    proof (cases "x = 37")
      case True
      then obtain u where u: "formatted f args = Some u" "t = y # u"
        using other "3.prems"(2) by auto
      obtain str2 where p: "put_at (length c) [y] str1 = Some str2" "in_making str2 (c @ [y]) s1 l"
        using put_ok [OF e(2), of "[y]" "length c"] e(3) by auto
      have "\<exists>str' s'. fmt_loop f args str2 (length (c @ [y])) s1 = Some (str', length ((c @ [y]) @ u), s') \<and>
          in_making str' ((c @ [y]) @ u) s' l"
        using True other u "3.prems"(3) by (intro "3.IH"(2) p(2)) simp_all
      then show ?thesis using True other e(1) p(1) u(2) by simp
    next
      case False
      then obtain u where u: "formatted (y # f) args = Some u" "t = x # u"
        using "3.prems"(2) by auto
      obtain str2 where p: "put_at (length c) [x] str1 = Some str2" "in_making str2 (c @ [x]) s1 l"
        using put_ok [OF e(2), of "[x]" "length c"] e(3) by auto
      have "\<exists>str' s'. fmt_loop (y # f) args str2 (length (c @ [x])) s1 = Some (str', length ((c @ [x]) @ u), s') \<and>
          in_making str' ((c @ [x]) @ u) s' l"
        using False u "3.prems"(3) by (intro "3.IH"(3) p(2)) simp_all
      then show ?thesis using False e(1) p(1) u(2) by simp
    qed
  qed
qed

lemma catfmt_outcome:
  assumes inv: "sds_inv str" and mem: "mallocs_ok s" and fmt: "find_byte 0 fmt = Some n" "n < 2 ^ 61"
    and t: "formatted (take n fmt) args = Some t"
    and small: "length (sds_content str) + length t < 2 ^ 61"
  shows "\<exists>str' s'. sdscatfmt str fmt args s = Some (str', s') \<and> sds_inv str' \<and>
    sds_content str' = sds_content str @ t \<and> live s' = live s \<and> mallocs_ok s'"
proof -
  let ?c = "sds_content str"
  have sh: "sds_shape str" "length ?c = unat (sdslen str)"
    using inv content_length by (simp_all add: sds_inv_iff)
  have un: "unat (of_nat n :: size_t) = n" using fmt(2) by (intro unat_of_nat_size) simp
  have un2: "unat (of_nat n * 2 :: size_t) = n * 2"
    using fmt(2) un by (subst unat_mult_lem [THEN iffD1]) simp_all
  have need: "unat (sdslen str + of_nat n * 2) = unat (sdslen str) + n * 2"
    using small sh(2) fmt(2) un2 by (subst unat_add_size) simp_all
  have "unat (sdslen str) + unat (sdslen str + of_nat n * 2) \<le> 2 ^ 63"
    using small sh(2) fmt(2) unfolding need by simp
  then obtain r s1 where r: "sdsMakeRoomFor str (sdslen str + of_nat n * 2) s = Some (r, s1)"
    "room_kept str (unat (sdslen str) + unat (sdslen str + of_nat n * 2)) s r s1"
    using make_room_shape [OF sh(1)] by blast
  then obtain str1 where str1: "r = Str str1" using mem by (cases r) (auto simp: room_kept_def)
  have m: "in_making str1 ?c s1 (live s)"
    using r(2) room_kept_content [OF r(2) [unfolded str1] sh(1)] mem str1
    by (simp add: in_making_def room_kept_def)
  obtain str2 s2 where l: "fmt_loop (take n fmt) args str1 (length ?c) s1 = Some (str2, length (?c @ t), s2)"
    "in_making str2 (?c @ t) s2 (live s)"
    using fmt_loop_outcome [OF m t] small by auto
  have sh2: "sds_shape str2" "sds_content str2 = ?c @ t" using l(2) by (auto simp: in_making_def)
  then have len2: "length (?c @ t) = unat (sdslen str2)" using shape_length [of str2] by simp
  let ?n = "unat (sdslen str2)"
  define b where "b = take ?n (sds_buf str2) @ [0] @ drop (?n + 1) (sds_buf str2)"
  have lt: "?n < length (sds_buf str2)" using sh2(1) by (simp add: sds_shape_def)
  then have st: "mem_store (sds_buf str2) (length (?c @ t)) [0] = Some b"
    unfolding len2 by (simp add: b_def mem_simps)
  have b: "length b = length (sds_buf str2)" "take ?n b = take ?n (sds_buf str2)" "b ! ?n = 0"
    using lt by (simp_all add: b_def nth_append)
  have "sds_inv (str2\<lparr>sds_buf := b\<rparr>)"
    using sh2(1) b by (cases "type_of_sds str2 = SDS_TYPE_5")
      (simp_all add: sds_inv_def sds_shape_def sdslen_def sdsalloc_def)
  moreover have "sds_content (str2\<lparr>sds_buf := b\<rparr>) = ?c @ t"
    using b(2) sh2(2) by (simp add: sds_content_def sdslen_def)
  moreover have "sdscatfmt str fmt args s = Some (str2\<lparr>sds_buf := b\<rparr>, s2)"
    using fmt(1) r(1) str1 l(1) st sh(2) by (simp add: sdscatfmt_def Let_def)
  ultimately show ?thesis using l(2) by (auto simp: in_making_def)
qed

end
