(* ===== verification/SdsProps.thy ===== *)
theory SdsProps
  imports SdsTextProps SdsCalls SdsFmt
begin

text \<open>
  The properties of the dynamic strings of \<open>sds.c\<close>, each with an example that its hypotheses
  can hold.
\<close>

section \<open>Sequences of calls\<close>

text \<open>
  C3. Every sequence of calls on a string refines the same sequence on its list of bytes.
  \<open>sdscatlen\<close>, \<open>sdscatsds\<close>, \<open>sdscpylen\<close>, \<open>sdsgrowzero\<close>, \<open>sdsMakeRoomFor\<close>, the reading protocol
  of \<open>sdsIncrLen\<close>, \<open>sdsRemoveFreeSpace\<close>, \<open>sdsclear\<close>, \<open>sdstrim\<close>, \<open>sdsrange\<close>, \<open>sdstolower\<close>,
  \<open>sdstoupper\<close> and \<open>sdsmapchars\<close>, in any order and with any arguments up to \<open>MAX_ARG\<close>, stay
  inside their blocks, keep the string well formed and the heap balanced, never trip an assert,
  and end in the string that the list operations give, unless an allocation fails, which is
  reported as NULL. \<open>sdstrim\<close> removes NUL bytes besides the bytes of the set.
\<close>

theorem sds_calls_refine_lists:
  assumes "sds_inv str" and "list_all call_ok cs"
    and "length (sds_content str) + length cs * MAX_ARG \<le> 2 ^ 61"
  shows "\<exists>r s'. run_calls cs str s = Some (r, s') \<and> live s' = live s \<and>
    (case r of
       Str str' \<Rightarrow> sds_inv str' \<and> sds_content str' = fold call_spec cs (sds_content str)
     | NoMemory \<Rightarrow> \<not> mallocs_ok s
     | Aborted \<Rightarrow> False)"
  using run_calls_outcome [OF assms, of s] unfolding grow_post_def by (fastforce split: sds_result.splits)

lemma sds_calls_refine_lists_witness:
  "\<exists>str' s'. run_calls [Append [33, 32], Trim [32, 0], Range 1 (- 1), Upper, ReadInto 8 [0, 7], Shrink]
     example_sds example_os = Some (Str str', s') \<and> sds_content str' = [73, 33, 0, 7]"
proof -
  let ?cs = "[Append [33, 32], Trim [32, 0], Range 1 (- 1), Upper, ReadInto 8 [0, 7], Shrink]"
  have "list_all call_ok ?cs"
    "length (sds_content example_sds) + length ?cs * MAX_ARG \<le> 2 ^ 61"
    by (simp_all add: MAX_ARG_def example_sds_inv)
  from sds_calls_refine_lists [OF example_sds_inv(1) this, of example_os] obtain r s' where
    r: "run_calls ?cs example_sds example_os = Some (r, s')"
    "case r of
       Str str' \<Rightarrow> sds_inv str' \<and> sds_content str' = fold call_spec ?cs (sds_content example_sds)
     | NoMemory \<Rightarrow> \<not> mallocs_ok example_os
     | Aborted \<Rightarrow> False" by blast
  have spec: "fold call_spec ?cs (sds_content example_sds) = [73, 33, 0, 7]"
    by (simp add: example_sds_inv trim_def trimmed_def subrange_def from_end_def Let_def to_upper_def)
  then show ?thesis
    using r example_os_ok by (cases r) (auto simp del: run_calls.simps)
qed

section \<open>Comparison\<close>

text \<open>
  \<open>sdscmp\<close> is the lexicographic order of the bytes as unsigned numbers: its result is
  negative, positive or zero exactly when the first string is before, behind or equal to the
  second, and it reads only bytes of the two strings.
\<close>

theorem sdscmp_lexicographic:
  assumes "sds_inv s" and "sds_inv t"
  shows "\<exists>r. sdscmp s t = Some r \<and>
    (r < 0 \<longleftrightarrow> ord_class.lexordp (sds_content s) (sds_content t)) \<and>
    (r > 0 \<longleftrightarrow> ord_class.lexordp (sds_content t) (sds_content s)) \<and>
    (r = 0 \<longleftrightarrow> sds_content s = sds_content t)"
  by (rule cmp_outcome [OF assms])

lemma sdscmp_lexicographic_witness: "\<exists>r < 0. sdscmp example_sds (example_sds\<lparr>sds_buf := [104, 200, 0, 0, 0]\<rparr>) = Some r"
proof -
  let ?t = "example_sds\<lparr>sds_buf := [104, 200, 0, 0, 0]\<rparr>"
  have "sds_inv ?t" "sds_content ?t = [104, 200]"
    by (simp_all add: example_sds_def sds_inv_def sdslen_def sdsalloc_def sds_content_def take_bit_size_iff)
  then show ?thesis
    using sdscmp_lexicographic [OF example_sds_inv(1), of ?t] example_sds_inv(2) by fastforce
qed

section \<open>Numbers\<close>

text \<open>
  C30. \<open>sdsll2str\<close> writes every \<open>long long\<close>, the smallest included, in at most 20 characters
  and a NUL, so that \<open>SDS_LLSTR_SIZE\<close> bytes are enough; what lies behind the NUL is untouched,
  the result is the length, and \<open>strtol\<close> reads the number back.
\<close>

theorem sdsll2str_correct:
  assumes "SDS_LLSTR_SIZE \<le> length buf" and "LLONG_MIN \<le> v" and "v \<le> LLONG_MAX"
  shows "\<exists>n b. sdsll2str buf v = Some (n, b) \<and> 0 < n \<and> n < SDS_LLSTR_SIZE \<and>
    length b = length buf \<and> b ! n = 0 \<and> drop (n + 1) b = drop (n + 1) buf \<and>
    strtol (string_of (take n b)) = (v, [])"
proof -
  let ?t = "signed_text v"
  let ?b = "bytes_of ?t @ 0 # drop (length ?t + 1) buf"
  have r: "sdsll2str buf v = Some (length ?t, ?b)" "length ?t < SDS_LLSTR_SIZE"
    using ll2str_outcome [OF assms] by simp_all
  have "0 < length ?t" using decimal_digits [of "nat v"] by (auto simp: signed_text_def)
  moreover have "length ?b = length buf" "?b ! length ?t = 0"
    using r(2) assms(1) by (simp_all add: nth_append)
  moreover have "string_of (take (length ?t) ?b) = ?t" by simp
  ultimately show ?thesis using r strtol_signed [OF assms(2,3)] by simp
qed

lemma sdsll2str_correct_witness:
  "\<exists>n b. sdsll2str (replicate 21 7) LLONG_MIN = Some (n, b) \<and> n < SDS_LLSTR_SIZE \<and>
     strtol (string_of (take n b)) = (LLONG_MIN, [])"
  using sdsll2str_correct [of "replicate 21 7" LLONG_MIN]
  by (auto simp: SDS_LLSTR_SIZE_def LLONG_MIN_def LLONG_MAX_def)

section \<open>Formats\<close>

text \<open>
  C29. With memory available \<open>sdscatfmt\<close> appends exactly the text of its format: every
  specifier takes the next argument, any other character behind a percent sign stands for
  itself, and a percent sign at the end is dropped; while it writes it never leaves the block,
  although the string has no NUL until the end.
\<close>

theorem sdscatfmt_correct:
  assumes "sds_inv str" and "mallocs_ok s"
    and "find_byte 0 fmt = Some n" and "n < 2 ^ 61" and "formatted (take n fmt) args = Some t"
    and "length (sds_content str) + length t < 2 ^ 61"
  shows "\<exists>str' s'. sdscatfmt str fmt args s = Some (str', s') \<and> sds_inv str' \<and>
    sds_content str' = sds_content str @ t \<and> live s' = live s"
  using catfmt_outcome [OF assms] by blast

lemma sdscatfmt_correct_witness:
  "\<exists>str' s'. sdscatfmt example_sds [37, 115, 61, 37, 105, 37, 37, 37, 0] [CString [120, 0, 121], IntArg (- 40)]
     example_os = Some (str', s') \<and> sds_content str' = [104, 105, 120, 61, 45, 52, 48, 37]"
proof -
  have "bytes_of (signed_text (- 40)) = [45, 52, 48]" by code_simp
  then have "formatted (take 8 [37, 115, 61, 37, 105, 37, 37, 37, 0]) [CString [120, 0, 121], IntArg (- 40)] =
      Some [120, 61, 45, 52, 48, 37]"
    by (simp add: is_specifier_def)
  moreover have "find_byte 0 [37, 115, 61, 37, 105, 37, 37, 37, 0 :: byte] = Some 8" by simp
  ultimately show ?thesis
    using sdscatfmt_correct [OF example_sds_inv(1) example_os_ok,
        of "[37, 115, 61, 37, 105, 37, 37, 37, 0]" 8 "[CString [120, 0, 121], IntArg (- 40)]"]
      example_sds_inv(2) by fastforce
qed

section \<open>The overflow that the assert misses\<close>

text \<open>
  The assert of \<open>sdsMakeRoomFor\<close>, which is there to catch an overflow of \<open>size_t\<close>, compares
  with the sum \<open>len + addlen\<close> after that sum has wrapped around: it does not fire, and the call
  succeeds with a block that is smaller than what was asked for, and smaller than the string
  itself when the wrapped sum is less than half of its length.
\<close>

theorem sds_make_room_overflow:
  assumes "sds_inv str" and "type_of_sds str = SDS_TYPE_8" and "unat (sdslen str) < 128"
    and "2 ^ 64 \<le> unat (sdslen str) + unat addlen" and "mallocs_ok s"
  defines "wrapped \<equiv> unat (sdslen str) + unat addlen - 2 ^ 64"
  shows "\<exists>c s'. sdsMakeRoomFor str addlen s = Some (Str c, s') \<and>
    unat (sdsalloc c) = 2 * wrapped \<and> length (sds_buf c) = 2 * wrapped + 1"
proof -
  let ?req = "sdslen str + addlen"
  have req: "unat ?req = wrapped"
  proof -
    have "unat ?req = (unat (sdslen str) + unat addlen) mod 2 ^ 64" by (simp add: unat_word_ariths)
    also have "\<dots> = wrapped mod 2 ^ 64" using assms(4) by (simp add: wrapped_def mod_if)
    finally show ?thesis using assms(3) unat_less_size [of addlen] by (simp add: wrapped_def)
  qed
  have less: "wrapped < unat (sdslen str)" using assms(4) unat_less_size [of addlen] by (simp add: wrapped_def)
  let ?new = "?req * 2"
  have new: "unat ?new = 2 * wrapped"
    using less assms(3) req by (subst unat_mult_lem [THEN iffD1]) simp_all
  have pre: "?req < SDS_MAX_PREALLOC"
    using less assms(3) req by (simp add: SDS_MAX_PREALLOC_def word_less_nat_alt)
  have type: "(if sdsReqType ?new = SDS_TYPE_5 then SDS_TYPE_8 else sdsReqType ?new) = SDS_TYPE_8"
    using new less assms(3) by (simp add: sdsReqType_def word_less_nat_alt)
  have tot: "unat (3 + ?new + 1 :: size_t) = 3 + unat ?new + 1"
    using alloc_size_fits [of ?new SDS_TYPE_8] new less assms(3) by simp
  have "unat (sdslen str) \<le> unat (sdsalloc str)" using assms(1) by (simp add: sds_inv_def)
  then have "unat (sdsavail str) < unat addlen"
    using assms(4) [simplified] avail_unat [OF assms(1)] unat_less_size [of "sdsalloc str"] by linarith
  then have room: "\<not> sdsavail str \<ge> addlen" by (simp add: word_le_nat_alt)
  have ok: "3 + ?new + 1 > ?req" using tot new req by (simp add: word_less_nat_alt)
  obtain b s' where re: "s_realloc (sds_buf str) 3 (3 + ?new + 1) s = (Some b, s')"
    "length b = unat ?new + 1"
  proof -
    obtain r s' where r: "s_realloc (sds_buf str) 3 (3 + ?new + 1) s = (r, s')" by fastforce
    note out = realloc_outcome [OF r, unfolded tot, simplified]
    show ?thesis
    proof (cases r)
      case None
      with out assms(5) show ?thesis by simp
    next
      case (Some b)
      with out r that show ?thesis by simp
    qed
  qed
  let ?c = "sdssetalloc (str\<lparr>sds_buf := b\<rparr>) ?new"
  have "sdsMakeRoomFor str addlen s = Some (Str ?c, s')"
    using ok
    by (simp only: sdsMakeRoomFor_def Let_def if_P [OF pre] if_not_P [OF room] type assms(2)
        sdsHdrSize.simps re(1) prod.case option.case not_True_eq_False if_False if_True simp_thms)
  moreover have "sdsalloc ?c = ?new"
    using new less assms(2,3) by (simp add: sdssetalloc_def sdsalloc_def take_bit_size_iff)
  moreover have "sds_buf ?c = b" by (simp add: sdssetalloc_def)
  ultimately show ?thesis using re(2) new by simp
qed

lemma sds_make_room_overflow_witness:
  "\<exists>c s'. sdsMakeRoomFor example_sds 18446744073709551614 example_os = Some (Str c, s') \<and>
     length (sds_buf c) = 1"
  using sds_make_room_overflow [OF example_sds_inv(1) _ _ _ example_os_ok, of 18446744073709551614]
  by (simp add: example_sds_def sdslen_def) blast

section \<open>Splitting and joining\<close>

text \<open>
  C12. Splitting and joining are inverse: with memory available \<open>sdssplitlen\<close> cuts a text of
  less than $2^{62}$ bytes at the leftmost separators, no piece contains the separator, and
  \<open>sdsjoinsds\<close> of the pieces with the same separator gives the text back. After
  \<open>sdsfreesplitres\<close> only the joined string is left on the heap. The text must have fewer than
  \<open>MAX_SLOTS\<close> pieces: from there on \<open>slots *= 2\<close> overflows its \<open>int\<close>.
\<close>

theorem sds_split_join_roundtrip:
  assumes "mallocs_ok h" and "0 < seplen" and "seplen < 2 ^ 31" and "nat seplen \<le> length sep"
    and "0 < len" and "nat len \<le> length src" and "len < 2 ^ 62"
    and "length (split_on (take (nat seplen) sep) (take (nat len) src)) < MAX_SLOTS"
  shows "\<exists>ts h1 str h2.
    sdssplitlen src len sep seplen h = Some (Some ts, h1) \<and>
    map sds_content ts = split_on (take (nat seplen) sep) (take (nat len) src) \<and>
    (\<forall>t \<in> set ts. \<forall>i. \<not> occurs_at (take (nat seplen) sep) (sds_content t) i) \<and>
    sdsjoinsds ts sep (of_int seplen) h1 = Some (Some str, h2) \<and>
    sds_content str = take (nat len) src \<and>
    live (sdsfreesplitres (Some ts) h2) = live h + 1"
proof -
  let ?sep = "take (nat seplen) sep" and ?src = "take (nat len) src"
  obtain ts h1 where s: "sdssplitlen src len sep seplen h = Some (Some ts, h1)" "mallocs_ok h1"
    "live (sdsfreesplitres (Some ts) h1) = live h" "list_all sds_inv ts"
    "map sds_content ts = split_on ?sep ?src"
    using splitlen_outcome [of seplen sep len src h] assms by auto
  have u: "unat (of_int seplen :: size_t) = nat seplen"
  proof -
    have "(of_int seplen :: size_t) = of_nat (nat seplen)" using assms(2) by (simp add: of_nat_nat)
    moreover have "nat seplen < 18446744073709551616" using assms(3) by simp
    ultimately show ?thesis by (simp only: unat_of_nat_size)
  qed
  have "length ts < MAX_SLOTS" using assms(8) unfolding s(5) [symmetric] by simp
  then have few: "length ts \<le> INT_MAX" by (simp add: MAX_SLOTS_def INT_MAX_def)
  have j: "joined ?sep (map sds_content ts) = ?src" unfolding s(5) by (rule join_split)
  have "length ?src \<le> 2 ^ 62" using assms(7) by simp
  then obtain str h2 where "sdsjoinsds ts sep (of_int seplen) h1 = Some (Some str, h2)"
    "sds_content str = ?src" "live h2 = live h1 + 1"
    using joinsds_outcome [OF s(2), of "of_int seplen" sep ts] assms(4) s(4) j few
    unfolding u by (auto simp: list_all_iff)
  moreover have "\<not> occurs_at ?sep (sds_content t) i" if "t \<in> set ts" for t i
  proof -
    have "sds_content t \<in> set (split_on ?sep ?src)" using that unfolding s(5) [symmetric] by simp
    moreover have "?sep \<noteq> []" using assms(2,4) by auto
    ultimately show ?thesis by (intro split_pieces)
  qed
  moreover have "live (sdsfreesplitres (Some ts) h2) = live h + 1"
    using s(3) \<open>live h2 = live h1 + 1\<close> by simp
  ultimately show ?thesis using s(1,5) by blast
qed

lemma sds_split_join_roundtrip_witness:
  "\<exists>ts h1. sdssplitlen [97, 44, 44, 98, 44, 44] 6 [44, 44] 2 example_os = Some (Some ts, h1) \<and>
     map sds_content ts = [[97], [98], []]"
proof -
  have "split_on [44, 44] [97, 44, 44, 98, 44, 44 :: byte] = [[97], [98], []]"
    by code_simp
  then show ?thesis
    using sds_split_join_roundtrip [OF example_os_ok, of 2 "[44, 44]" 6 "[97, 44, 44, 98, 44, 44]"]
    by (fastforce simp: MAX_SLOTS_def)
qed

section \<open>Quoting and parsing\<close>

text \<open>
  C11. \<open>sdssplitargs\<close> reads back what \<open>sdscatrepr\<close> wrote: with memory available, quote up to
  \<open>INT_MAX\<close> arguments, of any bytes, NUL and line ends included, join them with blanks into a line
  of at most $2^{62}$ bytes, and the buffer of that string is parsed into exactly these arguments.
\<close>

theorem sds_quote_parse_roundtrip:
  assumes "mallocs_ok s" and "length (joined [32] (map quoted args)) \<le> 2 ^ 62"
    and "length args \<le> INT_MAX"
  shows "\<exists>line s1 vec s2. quote_line args s = Some (line, s1) \<and>
    sdssplitargs (sds_buf line) s1 = Some (Some vec, s2) \<and> list_all2 holds vec args \<and>
    live s2 = live s1 + int (length args) + 1"
proof -
  obtain line s1 where l: "quote_line args s = Some (line, s1)" "sds_inv line"
    "sds_content line = joined [32] (map quoted args)" "mallocs_ok s1"
    using quote_line_outcome [OF assms] by blast
  have "\<forall>bs \<in> set args. length bs \<le> 2 ^ 62"
  proof
    fix bs assume "bs \<in> set args"
    then have "length (quoted bs) \<le> length (joined [32] (map quoted args))"
      by (intro joined_element) simp
    then show "length bs \<le> 2 ^ 62" using quoted_length [of bs] assms(2) by linarith
  qed
  then obtain vec s2 where
    "sdssplitargs (sds_content line @ 0 # drop (unat (sdslen line) + 1) (sds_buf line)) s1 = Some (Some vec, s2)"
    "list_all2 holds vec args" "live s2 = live s1 + int (length args) + 1"
    using splitargs_quoted [OF l(4), of args] assms(3) unfolding l(3) by blast
  then show ?thesis using l(1) unfolding buffer_of_content [OF l(2), symmetric] by blast
qed

lemma sds_quote_parse_roundtrip_witness:
  "\<exists>line s1 vec s2. quote_line [[0, 34, 255], [], [97, 10]] example_os = Some (line, s1) \<and>
     sdssplitargs (sds_buf line) s1 = Some (Some vec, s2) \<and>
     list_all2 holds vec [[0, 34, 255], [], [97, 10]]"
proof -
  have "length (joined [32] (map quoted [[0, 34, 255], [], [97, 10]])) \<le> 2 ^ 62"
    "length [[0, 34, 255], [], [97, 10 :: byte]] \<le> INT_MAX"
    by (simp_all add: quoted_def repr_byte_def isprint_def INT_MAX_def)
  from sds_quote_parse_roundtrip [OF example_os_ok this] show ?thesis by blast
qed

text \<open>
  C28. With memory available \<open>sdssplitargs\<close> takes every line of at most \<open>INT_MAX\<close> bytes apart as
  \<open>arguments\<close> does, whatever quotes and escapes it holds, and reads nothing behind the NUL. Where
  that finds an unbalanced quote, or a closing quote without white space behind it, the result is
  NULL and everything that had been allocated is freed. Else it is a vector of well-formed strings
  that hold the arguments, and freeing it leaves the heap as it was.
\<close>

theorem sdssplitargs_correct:
  assumes "mallocs_ok s" and "find_byte 0 line = Some n" and "n \<le> INT_MAX"
  shows "\<exists>r s'. sdssplitargs line s = Some (r, s') \<and>
    (case arguments (take n line) of
       None \<Rightarrow> r = None \<and> live s' = live s
     | Some args \<Rightarrow> \<exists>ts. r = Some (map Some ts) \<and> list_all sds_inv ts \<and>
         map sds_content ts = args \<and> live (sdsfreesplitres (Some ts) s') = live s)"
proof -
  have "0 \<notin> set (take n line)" using assms(2) by (simp add: find_byte_Some)
  then have post: "args_post [] s (arguments (take n line)) (args_loop (take n line) (map Some []) s)"
    using assms(3) by (intro args_loop_total [OF assms(1)]) simp_all
  show ?thesis
    using post assms(2)
    by (cases "arguments (take n line)") (auto simp: sdssplitargs_def args_post_def)
qed

lemma sdssplitargs_correct_witness:
  "(\<exists>s'. sdssplitargs [97, 32, 34, 98, 92, 110, 34, 39, 0] example_os = Some (None, s') \<and> live s' = 0) \<and>
   (\<exists>ts s'. sdssplitargs [97, 32, 34, 98, 92, 110, 34, 32, 39, 39, 0] example_os = Some (Some (map Some ts), s') \<and>
      map sds_content ts = [[97], [98, 10], []])"
proof -
  have "arguments [97, 32, 34, 98, 92, 110, 34, 39] = None"
    "arguments [97, 32, 34, 98, 92, 110, 34, 32, 39, 39] = Some [[97], [98, 10], []]"
    by code_simp+
  then show ?thesis
    using sdssplitargs_correct [OF example_os_ok, of "[97, 32, 34, 98, 92, 110, 34, 39, 0]" 8]
      sdssplitargs_correct [OF example_os_ok, of "[97, 32, 34, 98, 92, 110, 34, 32, 39, 39, 0]" 10]
    by (fastforce simp: example_os_def INT_MAX_def)
qed

end
