(* ===== verification/SdsLayout.thy ===== *)
theory SdsLayout
  imports SdsCalls
begin

unbundle bit_operations_syntax

text \<open>
  The memory behind an \<open>sds\<close>: the packed headers of \<open>commons/include/sds.h\<close> byte by byte, on a
  machine with the low byte first, and the inline functions that reach them through negative
  offsets from the string pointer. \<open>Sds\<close> works on a record of the header; here the functions
  on the bytes are shown to be the functions on the record.
\<close>

section \<open>Fields of a header\<close>

fun le_bytes :: "nat \<Rightarrow> size_t \<Rightarrow> byte list" where
  "le_bytes 0 w = []"
| "le_bytes (Suc n) w = ucast w # le_bytes n (drop_bit 8 w)"

fun le_value :: "byte list \<Rightarrow> size_t" where
  "le_value [] = 0"
| "le_value (b # bs) = ucast b OR push_bit 8 (le_value bs)"

lemma le_bytes_length [simp]: "length (le_bytes n w) = n"
  by (induction n arbitrary: w) simp_all

lemma le_value_bytes [simp]: "le_value (le_bytes n w) = take_bit (8 * n) w"
proof (induction n arbitrary: w)
  case 0
  then show ?case by simp
next
  case (Suc n)
  show ?case
    unfolding le_bytes.simps le_value.simps Suc.IH
    by (rule bit_word_eqI) (auto simp: bit_simps not_less)
qed

lemma le_bytes_take [simp]: "le_bytes n (take_bit (8 * n) w) = le_bytes n w"
proof (induction n arbitrary: w)
  case 0
  then show ?case by simp
next
  case (Suc n)
  have "ucast (take_bit (8 * Suc n) w) = (ucast w :: byte)"
    by (rule bit_word_eqI) (auto simp: bit_simps)
  moreover have "drop_bit 8 (take_bit (8 * Suc n) w) = take_bit (8 * n) (drop_bit 8 w)"
    by (simp add: drop_bit_take_bit)
  ultimately show ?case using Suc.IH [of "drop_bit 8 w"] by simp
qed

section \<open>Access through the string pointer\<close>

text \<open>The constants \<open>SDS_TYPE_*\<close>, and the type that the low three bits of the flags name.\<close>

fun type_code :: "sds_type \<Rightarrow> byte" where
  "type_code SDS_TYPE_5 = 0"
| "type_code SDS_TYPE_8 = 1"
| "type_code SDS_TYPE_16 = 2"
| "type_code SDS_TYPE_32 = 3"
| "type_code SDS_TYPE_64 = 4"

definition SDS_TYPE_MASK :: byte where
  "SDS_TYPE_MASK = 7"

definition SDS_TYPE_BITS :: nat where
  "SDS_TYPE_BITS = 3"

definition type_of_flags :: "byte \<Rightarrow> sds_type option" where
  "type_of_flags flags =
     find (\<lambda>t. type_code t = flags AND SDS_TYPE_MASK)
       [SDS_TYPE_5, SDS_TYPE_8, SDS_TYPE_16, SDS_TYPE_32, SDS_TYPE_64]"

definition SDS_TYPE_5_LEN :: "byte \<Rightarrow> byte" where
  "SDS_TYPE_5_LEN f = drop_bit SDS_TYPE_BITS f"

text \<open>The width of \<open>len\<close> and of \<open>alloc\<close> in bytes.\<close>

fun field_bytes :: "sds_type \<Rightarrow> nat" where
  "field_bytes SDS_TYPE_5 = 0"
| "field_bytes SDS_TYPE_8 = 1"
| "field_bytes SDS_TYPE_16 = 2"
| "field_bytes SDS_TYPE_32 = 4"
| "field_bytes SDS_TYPE_64 = 8"

text \<open>Memory is the allocated block, a pointer an index into it. \<open>s[-1]\<close>, and the fields of
  \<open>SDS_HDR(T,s)\<close>, which must lie inside the block.\<close>

definition load_flags :: "byte list \<Rightarrow> nat \<Rightarrow> byte option" where
  "load_flags m s = (if 1 \<le> s then map_option hd (mem_load m (s - 1) 1) else None)"

definition store_flags :: "byte list \<Rightarrow> nat \<Rightarrow> byte \<Rightarrow> byte list option" where
  "store_flags m s f = (if 1 \<le> s then mem_store m (s - 1) [f] else None)"

definition hdr_pos :: "sds_type \<Rightarrow> nat \<Rightarrow> nat option" where
  "hdr_pos t s = (if unat (sdsHdrSize t) \<le> s then Some (s - unat (sdsHdrSize t)) else None)"

definition load_len :: "byte list \<Rightarrow> nat \<Rightarrow> sds_type \<Rightarrow> size_t option" where
  "load_len m s t = do { p \<leftarrow> hdr_pos t s; bs \<leftarrow> mem_load m p (field_bytes t); Some (le_value bs) }"

definition store_len :: "byte list \<Rightarrow> nat \<Rightarrow> sds_type \<Rightarrow> size_t \<Rightarrow> byte list option" where
  "store_len m s t v = do { p \<leftarrow> hdr_pos t s; mem_store m p (le_bytes (field_bytes t) v) }"

definition load_alloc :: "byte list \<Rightarrow> nat \<Rightarrow> sds_type \<Rightarrow> size_t option" where
  "load_alloc m s t =
     do { p \<leftarrow> hdr_pos t s; bs \<leftarrow> mem_load m (p + field_bytes t) (field_bytes t); Some (le_value bs) }"

definition store_alloc :: "byte list \<Rightarrow> nat \<Rightarrow> sds_type \<Rightarrow> size_t \<Rightarrow> byte list option" where
  "store_alloc m s t v =
     do { p \<leftarrow> hdr_pos t s; mem_store m (p + field_bytes t) (le_bytes (field_bytes t) v) }"

section \<open>The inline functions\<close>

text \<open>Flags that name no type fall through the \<open>switch\<close>: 0, or nothing is stored.\<close>

definition mem_sdslen :: "byte list \<Rightarrow> nat \<Rightarrow> size_t option" where
  "mem_sdslen m s =
     do {
       flags \<leftarrow> load_flags m s;
       (case type_of_flags flags of
          None \<Rightarrow> Some 0
        | Some SDS_TYPE_5 \<Rightarrow> Some (ucast (SDS_TYPE_5_LEN flags))
        | Some t \<Rightarrow> load_len m s t)
     }"

text \<open>\<open>alloc - len\<close> is an \<open>int\<close> for the two narrow types, and wraps around in the width of the
  field for the two wide ones.\<close>

definition mem_sdsavail :: "byte list \<Rightarrow> nat \<Rightarrow> size_t option" where
  "mem_sdsavail m s =
     do {
       flags \<leftarrow> load_flags m s;
       (case type_of_flags flags of
          None \<Rightarrow> Some 0
        | Some SDS_TYPE_5 \<Rightarrow> Some 0
        | Some t \<Rightarrow>
            do {
              alloc \<leftarrow> load_alloc m s t;
              len \<leftarrow> load_len m s t;
              Some (if t = SDS_TYPE_32 then ucast (ucast alloc - ucast len :: 32 word) else alloc - len)
            })
     }"

definition mem_sdssetlen :: "byte list \<Rightarrow> nat \<Rightarrow> size_t \<Rightarrow> byte list option" where
  "mem_sdssetlen m s newlen =
     do {
       flags \<leftarrow> load_flags m s;
       (case type_of_flags flags of
          None \<Rightarrow> Some m
        | Some SDS_TYPE_5 \<Rightarrow> store_flags m s (ucast (push_bit SDS_TYPE_BITS newlen))
        | Some t \<Rightarrow> store_len m s t newlen)
     }"

definition mem_sdsinclen :: "byte list \<Rightarrow> nat \<Rightarrow> size_t \<Rightarrow> byte list option" where
  "mem_sdsinclen m s inc =
     do {
       flags \<leftarrow> load_flags m s;
       (case type_of_flags flags of
          None \<Rightarrow> Some m
        | Some SDS_TYPE_5 \<Rightarrow>
            (let newlen = (ucast (ucast (SDS_TYPE_5_LEN flags) + inc) :: byte)
             in store_flags m s (push_bit SDS_TYPE_BITS newlen))
        | Some t \<Rightarrow> do { len \<leftarrow> load_len m s t; store_len m s t (len + inc) })
     }"

definition mem_sdsalloc :: "byte list \<Rightarrow> nat \<Rightarrow> size_t option" where
  "mem_sdsalloc m s =
     do {
       flags \<leftarrow> load_flags m s;
       (case type_of_flags flags of
          None \<Rightarrow> Some 0
        | Some SDS_TYPE_5 \<Rightarrow> Some (ucast (SDS_TYPE_5_LEN flags))
        | Some t \<Rightarrow> load_alloc m s t)
     }"

definition mem_sdssetalloc :: "byte list \<Rightarrow> nat \<Rightarrow> size_t \<Rightarrow> byte list option" where
  "mem_sdssetalloc m s newlen =
     do {
       flags \<leftarrow> load_flags m s;
       (case type_of_flags flags of
          None \<Rightarrow> Some m
        | Some SDS_TYPE_5 \<Rightarrow> Some m
        | Some t \<Rightarrow> store_alloc m s t newlen)
     }"

text \<open>\<open>sdsHdrSize\<close> of the flags, and the start of the allocation, which \<open>sdsfree\<close> hands to
  \<open>free\<close>.\<close>

definition flags_hdr_size :: "byte \<Rightarrow> size_t" where
  "flags_hdr_size flags = (case type_of_flags flags of None \<Rightarrow> 0 | Some t \<Rightarrow> sdsHdrSize t)"

definition mem_sdsAllocPtr :: "byte list \<Rightarrow> nat \<Rightarrow> int option" where
  "mem_sdsAllocPtr m s = do { flags \<leftarrow> load_flags m s; Some (int s - int (unat (flags_hdr_size flags))) }"

definition mem_sdsAllocSize :: "byte list \<Rightarrow> nat \<Rightarrow> size_t option" where
  "mem_sdsAllocSize m s =
     do {
       alloc \<leftarrow> mem_sdsalloc m s;
       flags \<leftarrow> load_flags m s;
       Some (flags_hdr_size flags + alloc + 1)
     }"

text \<open>The \<open>switch\<close> of \<open>sdsnewlen\<close> that fills in a new header.\<close>

definition write_header :: "byte list \<Rightarrow> nat \<Rightarrow> sds_type \<Rightarrow> size_t \<Rightarrow> byte list option" where
  "write_header m s type initlen =
     (if type = SDS_TYPE_5
      then store_flags m s (type_code type OR ucast (push_bit SDS_TYPE_BITS initlen))
      else
        do {
          m1 \<leftarrow> store_len m s type initlen;
          m2 \<leftarrow> store_alloc m1 s type initlen;
          store_flags m2 s (type_code type)
        })"

section \<open>The block of a record\<close>

definition sds_header :: "sds \<Rightarrow> byte list" where
  "sds_header str =
     (if type_of_sds str = SDS_TYPE_5 then [push_bit SDS_TYPE_BITS (ucast (hdr_len str))]
      else le_bytes (field_bytes (type_of_sds str)) (hdr_len str) @
           le_bytes (field_bytes (type_of_sds str)) (hdr_alloc str) @ [type_code (type_of_sds str)])"

definition sds_block :: "sds \<Rightarrow> byte list" where
  "sds_block str = sds_header str @ sds_buf str"

definition sds_ptr :: "sds \<Rightarrow> nat" where
  "sds_ptr str = unat (sdsHdrSize (type_of_sds str))"

text \<open>The fields hold no more bits than they have; type 5 has no \<open>alloc\<close>.\<close>

definition fields_fit :: "sds \<Rightarrow> bool" where
  "fields_fit str \<longleftrightarrow>
     take_bit (len_bits (type_of_sds str)) (hdr_len str) = hdr_len str \<and>
     (type_of_sds str = SDS_TYPE_5 \<or>
      take_bit (len_bits (type_of_sds str)) (hdr_alloc str) = hdr_alloc str)"

lemma inv_fields_fit: "sds_inv str \<Longrightarrow> fields_fit str"
  by (auto simp: sds_inv_def fields_fit_def sdslen_def sdsalloc_def split: if_splits)

lemma field_bits: "t \<noteq> SDS_TYPE_5 \<Longrightarrow> len_bits t = 8 * field_bytes t"
  by (cases t) simp_all

lemma hdr_size_fields: "t \<noteq> SDS_TYPE_5 \<Longrightarrow> unat (sdsHdrSize t) = 2 * field_bytes t + 1"
  by (cases t) simp_all

lemma sds_header_length [simp]: "length (sds_header str) = sds_ptr str"
  by (cases "type_of_sds str") (simp_all add: sds_header_def sds_ptr_def)

lemma type_of_code [simp]: "type_of_flags (type_code t) = Some t"
  by (cases t) (simp_all add: type_of_flags_def SDS_TYPE_MASK_def)

lemma type_of_numbers [simp]:
  "type_of_flags 0 = Some SDS_TYPE_5" "type_of_flags 1 = Some SDS_TYPE_8"
  "type_of_flags 2 = Some SDS_TYPE_16" "type_of_flags 3 = Some SDS_TYPE_32"
  "type_of_flags 4 = Some SDS_TYPE_64"
  using type_of_code [of SDS_TYPE_5] type_of_code [of SDS_TYPE_8] type_of_code [of SDS_TYPE_16]
    type_of_code [of SDS_TYPE_32] type_of_code [of SDS_TYPE_64]
  by simp_all

lemma flags_of_5: "type_of_flags (push_bit SDS_TYPE_BITS b) = Some SDS_TYPE_5"
proof -
  have "(7 :: byte) = mask 3" by (simp add: mask_eq_exp_minus_1)
  then have "push_bit 3 b AND 7 = (0 :: byte)"
    by (simp only: take_bit_eq_mask [symmetric] take_bit_push_bit) simp
  then show ?thesis by (simp add: type_of_flags_def SDS_TYPE_MASK_def SDS_TYPE_BITS_def)
qed

lemma len_of_5: "SDS_TYPE_5_LEN (push_bit SDS_TYPE_BITS (ucast (n :: size_t))) = ucast (take_bit 5 n)"
  unfolding SDS_TYPE_5_LEN_def SDS_TYPE_BITS_def
  by (rule bit_word_eqI) (auto simp: bit_simps)

lemma byte_of_size: "ucast (ucast (take_bit 5 (n :: size_t)) :: byte) = take_bit 5 n"
  by (rule bit_word_eqI) (auto simp: bit_simps)

lemma len_in_flags:
  "take_bit 5 n = n \<Longrightarrow> ucast (SDS_TYPE_5_LEN (push_bit SDS_TYPE_BITS (ucast (n :: size_t)))) = n"
  using byte_of_size [of n] by (simp add: len_of_5)

section \<open>The functions on the bytes are those on the record\<close>

lemma flags_5:
  assumes "type_of_sds str = SDS_TYPE_5"
  shows "load_flags (sds_block str) (sds_ptr str) = Some (push_bit SDS_TYPE_BITS (ucast (hdr_len str)))"
    and "store_flags (sds_block str) (sds_ptr str) f = Some (f # sds_buf str)"
  using assms
  by (simp_all add: load_flags_def store_flags_def sds_block_def sds_header_def sds_ptr_def mem_load_def mem_store_def)

lemma fields_wide:
  assumes t: "type_of_sds str = t" "t \<noteq> SDS_TYPE_5"
  defines "m \<equiv> sds_block str" and "s \<equiv> sds_ptr str"
  shows "load_flags m s = Some (type_code t)"
    and "load_len m s t = Some (take_bit (len_bits t) (hdr_len str))"
    and "load_alloc m s t = Some (take_bit (len_bits t) (hdr_alloc str))"
    and "store_len m s t v = Some (sds_block (str\<lparr>hdr_len := v\<rparr>))"
    and "store_alloc m s t v = Some (sds_block (str\<lparr>hdr_alloc := v\<rparr>))"
  using t field_bits [OF t(2)] hdr_size_fields [OF t(2)]
  by (simp_all add: m_def s_def load_flags_def load_len_def load_alloc_def store_len_def store_alloc_def
      hdr_pos_def sds_block_def sds_header_def sds_ptr_def mem_load_def mem_store_def)

lemma block_cut:
  assumes "type_of_sds str \<noteq> SDS_TYPE_5"
  shows "sds_block (str\<lparr>hdr_len := take_bit (len_bits (type_of_sds str)) v\<rparr>) = sds_block (str\<lparr>hdr_len := v\<rparr>)"
    and "sds_block (str\<lparr>hdr_alloc := take_bit (len_bits (type_of_sds str)) v\<rparr>) = sds_block (str\<lparr>hdr_alloc := v\<rparr>)"
  using assms field_bits [OF assms] by (simp_all add: sds_block_def sds_header_def)

lemma wide_type: "t \<noteq> SDS_TYPE_5 \<Longrightarrow> (case t of SDS_TYPE_5 \<Rightarrow> a | _ \<Rightarrow> b) = b"
  by (cases t) simp_all

lemma low_32_bits: "ucast (ucast (a :: size_t) - ucast b :: 32 word) = take_bit 32 (a - b)"
  by transfer (subst take_bit_diff [symmetric], simp add: take_bit_diff)

lemma mem_reads:
  assumes "fields_fit str"
  shows "mem_sdslen (sds_block str) (sds_ptr str) = Some (sdslen str)"
    and "mem_sdsavail (sds_block str) (sds_ptr str) = Some (sdsavail str)"
    and "mem_sdsalloc (sds_block str) (sds_ptr str) = Some (sdsalloc str)"
proof -
  show "mem_sdslen (sds_block str) (sds_ptr str) = Some (sdslen str)"
    using assms flags_5(1) [of str] fields_wide(1,2) [of str]
    by (cases "type_of_sds str")
      (simp_all add: mem_sdslen_def sdslen_def fields_fit_def flags_of_5 len_in_flags)
  show "mem_sdsalloc (sds_block str) (sds_ptr str) = Some (sdsalloc str)"
    using assms flags_5(1) [of str] fields_wide(1,3) [of str]
    by (cases "type_of_sds str")
      (simp_all add: mem_sdsalloc_def sdsalloc_def fields_fit_def flags_of_5 len_in_flags)
  show "mem_sdsavail (sds_block str) (sds_ptr str) = Some (sdsavail str)"
    using assms flags_5(1) [of str] fields_wide(1-3) [of str]
    by (cases "type_of_sds str")
      (simp_all add: mem_sdsavail_def sdsavail_def fields_fit_def flags_of_5 low_32_bits)
qed

lemma len_5_store:
  "push_bit SDS_TYPE_BITS (ucast (take_bit 5 (v :: size_t)) :: byte) = ucast (push_bit SDS_TYPE_BITS v)"
  unfolding SDS_TYPE_BITS_def by (rule bit_word_eqI) (auto simp: bit_simps)

lemma len_5_inc:
  "push_bit SDS_TYPE_BITS (ucast (v :: size_t) :: byte) = push_bit SDS_TYPE_BITS (ucast (take_bit 5 v))"
  unfolding SDS_TYPE_BITS_def by (rule bit_word_eqI) (auto simp: bit_simps)

lemma mem_writes:
  assumes "fields_fit str"
  shows "mem_sdssetlen (sds_block str) (sds_ptr str) n = Some (sds_block (sdssetlen str n))"
    and "mem_sdsinclen (sds_block str) (sds_ptr str) n = Some (sds_block (sdsinclen str n))"
    and "mem_sdssetalloc (sds_block str) (sds_ptr str) n = Some (sds_block (sdssetalloc str n))"
proof -
  show "mem_sdssetlen (sds_block str) (sds_ptr str) n = Some (sds_block (sdssetlen str n))"
    using flags_5 [of str] fields_wide(1,4) [of str] block_cut(1) [of str n]
    by (cases "type_of_sds str")
      (simp_all add: mem_sdssetlen_def sdssetlen_def flags_of_5 sds_block_def sds_header_def len_5_store)
  show "mem_sdsinclen (sds_block str) (sds_ptr str) n = Some (sds_block (sdsinclen str n))"
    using assms flags_5 [of str] fields_wide(1,2,4) [of str] block_cut(1) [of str "hdr_len str + n"]
    by (cases "type_of_sds str")
      (simp_all add: mem_sdsinclen_def sdsinclen_def flags_of_5 fields_fit_def len_in_flags Let_def
        len_5_inc [of "hdr_len str + n"] sds_block_def sds_header_def)
  show "mem_sdssetalloc (sds_block str) (sds_ptr str) n = Some (sds_block (sdssetalloc str n))"
    using flags_5 [of str] fields_wide(1,5) [of str] block_cut(2) [of str n]
    by (cases "type_of_sds str")
      (simp_all add: mem_sdssetalloc_def sdssetalloc_def flags_of_5 sds_block_def sds_header_def)
qed

lemma flags_found:
  "\<exists>f. load_flags (sds_block str) (sds_ptr str) = Some f \<and> type_of_flags f = Some (type_of_sds str)"
  using flags_5(1) [of str] fields_wide(1) [of str] flags_of_5
  by (cases "type_of_sds str = SDS_TYPE_5") auto

lemma mem_start:
  assumes "fields_fit str"
  shows "mem_sdsAllocPtr (sds_block str) (sds_ptr str) = Some 0"
    and "mem_sdsAllocSize (sds_block str) (sds_ptr str) = Some (sdsAllocSize str)"
proof -
  obtain f where f: "load_flags (sds_block str) (sds_ptr str) = Some f"
    "type_of_flags f = Some (type_of_sds str)"
    using flags_found by blast
  then show "mem_sdsAllocPtr (sds_block str) (sds_ptr str) = Some 0"
    by (simp add: mem_sdsAllocPtr_def flags_hdr_size_def sds_ptr_def)
  show "mem_sdsAllocSize (sds_block str) (sds_ptr str) = Some (sdsAllocSize str)"
    using f mem_reads(3) [OF assms] by (simp add: mem_sdsAllocSize_def flags_hdr_size_def sdsAllocSize_def)
qed

text \<open>A new header, on whatever the allocator handed out.\<close>

lemma written_header:
  assumes "length blk = unat (sdsHdrSize t)"
  shows "write_header (blk @ buf) (unat (sdsHdrSize t)) t n =
    Some (sds_block \<lparr>type_of_sds = t, hdr_len = take_bit (len_bits t) n,
      hdr_alloc = take_bit (len_bits t) n, sds_buf = buf\<rparr>)"
  using assms field_bits [of t] hdr_size_fields [of t]
  by (cases "t = SDS_TYPE_5")
    (simp_all add: write_header_def store_flags_def store_len_def store_alloc_def hdr_pos_def
      mem_store_def sds_block_def sds_header_def len_5_store)

section \<open>Types in the order of their headers\<close>

instantiation sds_type :: linorder
begin

definition less_eq_sds_type :: "sds_type \<Rightarrow> sds_type \<Rightarrow> bool" where
  "less_eq_sds_type a b \<longleftrightarrow> len_bits a \<le> len_bits b"

definition less_sds_type :: "sds_type \<Rightarrow> sds_type \<Rightarrow> bool" where
  "less_sds_type a b \<longleftrightarrow> len_bits a < len_bits b"

instance
proof
  fix x y :: sds_type
  show "x \<le> y \<Longrightarrow> y \<le> x \<Longrightarrow> x = y"
    by (cases x; cases y) (simp_all add: less_eq_sds_type_def)
qed (auto simp: less_eq_sds_type_def less_sds_type_def)

end

lemma fits_mono: "t \<le> u \<Longrightarrow> take_bit (len_bits t) (n :: size_t) = n \<Longrightarrow> take_bit (len_bits u) n = n"
  unfolding take_bit_size_iff less_eq_sds_type_def
  by (rule less_le_trans [OF _ power_increasing]) simp_all

lemma req_type_least: "take_bit (len_bits t) n = n \<longleftrightarrow> sdsReqType n \<le> t"
proof
  show "sdsReqType n \<le> t \<Longrightarrow> take_bit (len_bits t) n = n"
    using fits_mono req_type_fits by blast
  show "take_bit (len_bits t) n = n \<Longrightarrow> sdsReqType n \<le> t"
    unfolding take_bit_size_iff
    by (cases t) (auto simp: sdsReqType_def less_eq_sds_type_def word_less_nat_alt)
qed

lemma grown_type: "(if sdsReqType n = SDS_TYPE_5 then SDS_TYPE_8 else sdsReqType n) = max SDS_TYPE_8 (sdsReqType n)"
  by (cases "sdsReqType n") (simp_all add: max_def less_eq_sds_type_def)

lemma grown_fits: "take_bit (len_bits (max SDS_TYPE_8 (sdsReqType n))) n = n"
  by (rule fits_mono [OF max.cobounded2 req_type_fits])

lemma grown_not_5: "max SDS_TYPE_8 t \<noteq> SDS_TYPE_5"
  by (cases t) (simp_all add: max_def less_eq_sds_type_def)

lemma make_room_type:
  assumes "sdsMakeRoomFor str n s = Some (Str c, s')"
  shows "c = str \<or> type_of_sds c = max SDS_TYPE_8 (sdsReqType (sdsalloc c))"
proof (cases "sdsavail str \<ge> n")
  case True
  then show ?thesis using assms by (simp add: sdsMakeRoomFor_def)
next
  case False
  obtain k new where "c = sdssetalloc new k" "type_of_sds new = max SDS_TYPE_8 (sdsReqType k)"
    using assms False unfolding sdsMakeRoomFor_def Let_def grown_type
    by (auto simp: sdssetlen_def split: if_splits option.splits prod.splits bind_splits)
  then show ?thesis
    using grown_not_5 [of "sdsReqType k"] grown_fits [of k] by (simp add: sdssetalloc_def sdsalloc_def)
qed

section \<open>Properties\<close>

text \<open>
  C20. \<open>sdsReqType\<close> gives the smallest of the five headers whose \<open>len\<close> field holds the size: a
  header is wide enough exactly when it is not below that one. \<open>sdsnewlen\<close> uses it, except for
  an empty string, which gets a header of type 8, and whenever \<open>sdsMakeRoomFor\<close> makes a new
  allocation the header is the smallest one for it, never of type 5.
\<close>

theorem sds_header_types:
  "(take_bit (len_bits t) n = n \<longleftrightarrow> sdsReqType n \<le> t) \<and>
   (sdsnewlen init n s = Some (Some new, s1) \<longrightarrow>
      type_of_sds new = (if n = 0 then SDS_TYPE_8 else sdsReqType n) \<and> sdslen new = n) \<and>
   (sdsMakeRoomFor str n s = Some (Str c, s2) \<longrightarrow>
      c = str \<or> type_of_sds c = max SDS_TYPE_8 (sdsReqType (sdsalloc c)))"
proof (intro conjI impI)
  show "take_bit (len_bits t) n = n \<longleftrightarrow> sdsReqType n \<le> t" by (rule req_type_least)
  assume "sdsnewlen init n s = Some (Some new, s1)"
  then show "type_of_sds new = (if n = 0 then SDS_TYPE_8 else sdsReqType n)" "sdslen new = n"
    using unat_less_size [of n]
    by (auto simp: sdsnewlen_def sdslen_def Let_def sdsReqType_def take_bit_size_iff word_less_nat_alt
        split: prod.splits option.splits bind_splits if_splits)
next
  assume "sdsMakeRoomFor str n s = Some (Str c, s2)"
  then show "c = str \<or> type_of_sds c = max SDS_TYPE_8 (sdsReqType (sdsalloc c))" by (rule make_room_type)
qed

lemma sds_header_types_witness:
  "\<exists>new s1. sdsnewlen InitNULL 300 example_os = Some (Some new, s1) \<and>
     type_of_sds new = SDS_TYPE_16 \<and> sdslen new = 300"
proof -
  obtain r s1 where r: "sdsnewlen InitNULL 300 example_os = Some (r, s1)"
    "case r of None \<Rightarrow> \<not> mallocs_ok example_os | Some str \<Rightarrow> True"
    using sdsnewlen_outcome [of 300 InitNULL example_os] by (auto split: option.splits)
  moreover have "mallocs_ok example_os" by (simp add: example_os_def mallocs_ok_def)
  ultimately obtain new where new: "sdsnewlen InitNULL 300 example_os = Some (Some new, s1)"
    by (cases r) simp_all
  have "sdsReqType 300 = SDS_TYPE_16" by (simp add: sdsReqType_def)
  then show ?thesis
    using new sds_header_types [of SDS_TYPE_16 300 InitNULL example_os new s1] by simp
qed

text \<open>
  C7. The header functions work on the bytes of the block as on the record, through negative
  offsets from the string pointer and never outside the block: for each of the five packed
  layouts the three readers give the fields of the record, and the three writers, for any value
  of \<open>size_t\<close>, give the block of the updated record, in which nothing else has changed, with
  values cut to the width of the field. The type is found in the flags, and the pointer that
  \<open>sdsfree\<close> computes from them is the start of the block.
\<close>

theorem sds_header_functions:
  assumes "fields_fit str"
  defines "m \<equiv> sds_block str" and "p \<equiv> sds_ptr str"
  shows "mem_sdslen m p = Some (sdslen str) \<and> mem_sdsavail m p = Some (sdsavail str) \<and>
    mem_sdsalloc m p = Some (sdsalloc str) \<and>
    mem_sdssetlen m p n = Some (sds_block (sdssetlen str n)) \<and>
    mem_sdsinclen m p n = Some (sds_block (sdsinclen str n)) \<and>
    mem_sdssetalloc m p n = Some (sds_block (sdssetalloc str n)) \<and>
    fields_fit (sdssetlen str n) \<and> fields_fit (sdsinclen str n) \<and> fields_fit (sdssetalloc str n) \<and>
    mem_sdsAllocPtr m p = Some 0 \<and> mem_sdsAllocSize m p = Some (sdsAllocSize str)"
proof -
  have "fields_fit (sdssetlen str n)" "fields_fit (sdsinclen str n)" "fields_fit (sdssetalloc str n)"
    using assms(1) by (auto simp: fields_fit_def sdssetlen_def sdsinclen_def sdssetalloc_def)
  then show ?thesis
    unfolding m_def p_def using mem_reads [OF assms(1)] mem_writes [OF assms(1)] mem_start [OF assms(1)]
    by simp
qed

lemma sds_header_functions_witness:
  "mem_sdssetlen [1, 2, 5, 0, 2, 104, 105, 0, 0] 5 258 = Some [2, 1, 5, 0, 2, 104, 105, 0, 0]"
proof -
  let ?s = "\<lparr>type_of_sds = SDS_TYPE_16, hdr_len = 513, hdr_alloc = 5, sds_buf = [104, 105, 0, 0]\<rparr>"
  have "fields_fit ?s" by (simp add: fields_fit_def take_bit_size_iff)
  moreover have "sds_block ?s = [1, 2, 5, 0, 2, 104, 105, 0, 0]"
    "sds_block (sdssetlen ?s 258) = [2, 1, 5, 0, 2, 104, 105, 0, 0]" "sds_ptr ?s = 5"
    by code_simp+
  ultimately show ?thesis using sds_header_functions [of ?s 258] by simp
qed

text \<open>
  C19. What is in memory after any sequence of calls: the flags before the string name one of the
  five types, the length read through them is the length of the content, the bytes from the
  pointer on are the content that the list operations give, closed by a NUL, and the
  allocation that the header states lies inside the block.
\<close>

theorem sds_memory_layout:
  assumes "sds_inv str" and "list_all call_ok cs"
    and "length (sds_content str) + length cs * MAX_ARG \<le> 2 ^ 61"
    and "run_calls cs str s = Some (Str str', s')"
  defines "m \<equiv> sds_block str'" and "p \<equiv> sds_ptr str'"
  shows "\<exists>f n a. load_flags m p = Some f \<and> type_of_flags f = Some (type_of_sds str') \<and>
    mem_sdslen m p = Some n \<and> mem_load m p (unat n) = Some (fold call_spec cs (sds_content str)) \<and>
    mem_load m (p + unat n) 1 = Some [0] \<and>
    mem_sdsalloc m p = Some a \<and> n \<le> a \<and> p + unat a + 1 \<le> length m"
proof -
  have inv: "sds_inv str'" and content: "sds_content str' = fold call_spec cs (sds_content str)"
    using run_calls_outcome [OF assms(1-3), of s] assms(4) by (auto simp: grow_post_def)
  have fit: "fields_fit str'" using inv by (rule inv_fields_fit)
  let ?n = "unat (sdslen str')"
  have b: "?n \<le> unat (sdsalloc str')" "unat (sdsalloc str') < length (sds_buf str')" "sds_buf str' ! ?n = 0"
    using inv by (simp_all add: sds_inv_def)
  have "mem_load m p ?n = Some (sds_content str')" "mem_load m (p + ?n) 1 = Some [0]"
    using b by (simp_all add: m_def p_def sds_block_def mem_load_def sds_content_def drop_append
        take_Suc hd_drop_conv_nth)
  moreover obtain f where "load_flags m p = Some f" "type_of_flags f = Some (type_of_sds str')"
    using flags_found unfolding m_def p_def by blast
  moreover have "p + unat (sdsalloc str') + 1 \<le> length m"
    using b(2) by (simp add: m_def p_def sds_block_def)
  ultimately show ?thesis
    using mem_reads [OF fit] b(1) content unfolding m_def p_def by (auto simp: word_le_nat_alt)
qed

lemma sds_memory_layout_witness:
  "\<exists>str' s'. run_calls [Append [33], Upper] example_sds example_os = Some (Str str', s') \<and>
     mem_sdslen (sds_block str') (sds_ptr str') = Some 3 \<and>
     mem_load (sds_block str') (sds_ptr str') 3 = Some [72, 73, 33]"
proof -
  let ?cs = "[Append [33], Upper]"
  have ok: "list_all call_ok ?cs" "length (sds_content example_sds) + length ?cs * MAX_ARG \<le> 2 ^ 61"
    by (simp_all add: MAX_ARG_def example_sds_inv)
  obtain r s' where r: "run_calls ?cs example_sds example_os = Some (r, s')" "grow_post example_os
      (fold call_spec ?cs (sds_content example_sds)) r s'"
    using run_calls_outcome [OF example_sds_inv(1) ok] by blast
  then obtain str' where str': "run_calls ?cs example_sds example_os = Some (Str str', s')"
    using example_os_ok by (cases r) (auto simp: grow_post_def simp del: run_calls.simps)
  have "fold call_spec ?cs (sds_content example_sds) = [72, 73, 33]"
    by (simp add: example_sds_inv to_upper_def)
  moreover obtain n where n: "mem_sdslen (sds_block str') (sds_ptr str') = Some n"
    "mem_load (sds_block str') (sds_ptr str') (unat n) = Some (fold call_spec ?cs (sds_content example_sds))"
    using sds_memory_layout [OF example_sds_inv(1) ok str'] by blast
  ultimately have "mem_load (sds_block str') (sds_ptr str') (unat n) = Some [72, 73, 33]" by simp
  moreover from this have "unat n = unat (3 :: size_t)" by (auto dest!: mem_load_SomeD arg_cong [where f = length])
  then have "n = 3" by (simp only: word_unat_eq_iff)
  ultimately show ?thesis using str' n(1) by auto
qed

end
