(* ===== verification/SdsSelfTest.thy ===== *)
theory SdsSelfTest
  imports SdsTextProps SdsCalls SdsFmt "HOL-Library.Sublist"
begin

text \<open>
  The self test at the end of \<open>commons/src/sds/sds.c\<close>, \<open>sdsTest\<close>, run on the model. The macros
  \<open>test_cond\<close> and \<open>test_report\<close> come from a header that the repository does not have; the model
  yields what \<open>test_cond\<close> is given. What \<open>vsnprintf\<close> makes of a format is an argument of
  \<open>sdscatprintf\<close>; here it is the text that C prescribes.
\<close>

section \<open>The test\<close>


datatype test_event = Cond string bool | Printed "byte list"

type_synonym test = "os \<Rightarrow> (test_event list \<times> os) option"

text \<open>A literal and its NUL.\<close>

definition lit :: "string \<Rightarrow> byte list" where
  "lit t = bytes_of t @ [0]"

text \<open>Each pointer is used right after the call, so NULL has no defined outcome, and a failed
  \<open>assert\<close> ends the test.\<close>

definition used :: "(sds option \<times> os) option \<Rightarrow> (sds \<times> os) option" where
  "used r = do { (x, h) \<leftarrow> r; y \<leftarrow> x; Some (y, h) }"

definition grown :: "(sds_result \<times> os) option \<Rightarrow> (sds \<times> os) option" where
  "grown r = do { (x, h) \<leftarrow> r; (case x of Str y \<Rightarrow> Some (y, h) | _ \<Rightarrow> None) }"

text \<open>\<open>memcmp(x, bytes, k) == 0\<close>, and \<open>sdslen(x) == n && memcmp(x, bytes, k) == 0\<close>.\<close>

definition mem_is :: "sds \<Rightarrow> byte list \<Rightarrow> bool option" where
  "mem_is x bs = do { c \<leftarrow> mem_load (sds_buf x) 0 (length bs); Some (c = bs) }"

definition holds :: "sds \<Rightarrow> size_t \<Rightarrow> byte list \<Rightarrow> bool option" where
  "holds x n bs = (if sdslen x = n then mem_is x bs else Some False)"

definition test_creation :: test where
  "test_creation h =
     do {
       (x, h) \<leftarrow> used (sdsnew (Some (lit ''foo'')) h);
       c1 \<leftarrow> holds x 3 (lit ''foo'');
       (x, h) \<leftarrow> used (sdsnewlen (InitBytes (lit ''foo'')) 2 (sdsfree (Some x) h));
       c2 \<leftarrow> holds x 2 (lit ''fo'');
       (x, h) \<leftarrow> grown (sdscat x (lit ''bar'') h);
       c3 \<leftarrow> holds x 5 (lit ''fobar'');
       (x, h) \<leftarrow> grown (sdscpy x (lit ''a'') h);
       c4 \<leftarrow> holds x 1 (lit ''a'');
       (x, h) \<leftarrow> grown (sdscpy x (lit ''xyzxxxxxxxxxxyyyyyyyyyykkkkkkkkkk'') h);
       c5 \<leftarrow> holds x 33 (bytes_of ''xyzxxxxxxxxxxyyyyyyyyyykkkkkkkkkk'');
       Some ([Cond ''Create a string and obtain the length'' c1, Cond ''Create a string with specified length'' c2,
              Cond ''Strings concatenation'' c3, Cond ''sdscpy() against an originally longer string'' c4,
              Cond ''sdscpy() against an originally shorter string'' c5], sdsfree (Some x) h)
     }"

text \<open>\<open>x = sdscatprintf(sdsempty(), fmt, ...)\<close>, where \<open>expected\<close> is what \<open>x\<close> is compared with.\<close>

definition test_printf :: "string \<Rightarrow> string \<Rightarrow> byte list \<Rightarrow> size_t \<Rightarrow> byte list \<Rightarrow> test" where
  "test_printf name fmt expansion n expected h =
     do {
       (x, h) \<leftarrow> used (sdsempty h);
       fmt_len \<leftarrow> strlen (lit fmt);
       (x, h) \<leftarrow> grown (sdscatprintf x fmt_len (Some expansion) h);
       c \<leftarrow> holds x n expected;
       Some ([Cond name c], sdsfree (Some x) h)
     }"

definition etalon :: "byte list" where
  "etalon = replicate (1024 * 1024) 48"

definition test_catprintf :: "test list" where
  "test_catprintf =
     [test_printf ''sdscatprintf() seems working in the base case'' ''%d'' (bytes_of ''123'') 3 (lit ''123''),
      test_printf (''sdscatprintf() seems working with '' @ [CHR 0x5C] @ ''0 inside of result'') ''a%cb'' [97, 0, 98] 3 [97, 0, 98, 0],
      test_printf ''sdscatprintf() can print 1MB'' ''%0*d'' etalon (1024 * 1024) etalon]"

text \<open>\<open>x = sdscatfmt(sdsnew("--"), fmt, ...)\<close>; the first of the two also prints the string.\<close>

definition test_fmt :: "string \<Rightarrow> string \<Rightarrow> fmt_arg list \<Rightarrow> size_t \<Rightarrow> string \<Rightarrow> bool \<Rightarrow> test" where
  "test_fmt name fmt args n expected prints h =
     do {
       (x, h) \<leftarrow> used (sdsnew (Some (lit ''--'')) h);
       (x, h) \<leftarrow> sdscatfmt x (lit fmt) args h;
       c \<leftarrow> holds x n (bytes_of expected);
       k \<leftarrow> find_byte 0 (sds_buf x);
       Some (Cond name c # (if prints then [Printed (bytes_of ''['' @ take k (sds_buf x) @ [93, 10])] else []),
             sdsfree (Some x) h)
     }"

definition test_catfmt :: "test list" where
  "test_catfmt =
     [test_fmt ''sdscatfmt() seems working in the base case'' ''Hello %s World %I,%I--''
        [CString (lit ''Hi!''), LongLongArg LLONG_MIN, LongLongArg LLONG_MAX] 60
        ''--Hello Hi! World -9223372036854775808,9223372036854775807--'' True,
      test_fmt ''sdscatfmt() seems working with unsigned numbers'' ''%u,%U--''
        [UIntArg (- 1), ULongLongArg (- 1)] 35 ''--4294967295,18446744073709551615--'' False]"

definition test_trim :: "string \<Rightarrow> string \<Rightarrow> string \<Rightarrow> (sds \<Rightarrow> bool option) \<Rightarrow> test" where
  "test_trim name str cset check h =
     do {
       (x, h) \<leftarrow> used (sdsnew (Some (lit str)) h);
       x \<leftarrow> sdstrim x (lit cset);
       c \<leftarrow> check x;
       Some ([Cond name c], sdsfree (Some x) h)
     }"

definition first_is :: "byte \<Rightarrow> sds \<Rightarrow> bool option" where
  "first_is b x = do { c \<leftarrow> mem_load (sds_buf x) 0 1; Some (c = [b]) }"

definition test_trims :: "test list" where
  "test_trims =
     [test_trim ''sdstrim() works when all chars match'' '' x '' '' x'' (\<lambda>x. Some (sdslen x = 0)),
      test_trim ''sdstrim() works when a single char remains'' '' x '' '' ''
        (\<lambda>x. if sdslen x = 1 then first_is 120 x else Some False)]"

text \<open>A range of a copy \<open>y\<close> of \<open>x\<close>.\<close>

definition test_range :: "sds \<Rightarrow> string \<Rightarrow> int \<Rightarrow> int \<Rightarrow> size_t \<Rightarrow> string \<Rightarrow> test" where
  "test_range x name start stop n expected h =
     do {
       (y, h) \<leftarrow> used (sdsdup (Some x) h);
       y \<leftarrow> sdsrange y start stop;
       c \<leftarrow> holds y n (lit expected);
       Some ([Cond name c], sdsfree (Some y) h)
     }"

primrec run_tests :: "test list \<Rightarrow> test" where
  "run_tests [] h = Some ([], h)"
| "run_tests (t # ts) h = do { (es, h1) \<leftarrow> t h; (fs, h2) \<leftarrow> run_tests ts h1; Some (es @ fs, h2) }"

definition test_ranges :: test where
  "test_ranges h =
     do {
       (x, h) \<leftarrow> used (sdsnew (Some (lit ''xxciaoyyy'')) h);
       x \<leftarrow> sdstrim x (lit ''xy'');
       c \<leftarrow> holds x 4 (lit ''ciao'');
       (es, h) \<leftarrow> run_tests
         [test_range x ''sdsrange(...,1,1)'' 1 1 1 ''i'', test_range x ''sdsrange(...,1,-1)'' 1 (- 1) 3 ''iao'',
          test_range x ''sdsrange(...,-2,-1)'' (- 2) (- 1) 2 ''ao'', test_range x ''sdsrange(...,2,1)'' 2 1 0 [],
          test_range x ''sdsrange(...,1,100)'' 1 100 3 ''iao'', test_range x ''sdsrange(...,100,100)'' 100 100 0 []] h;
       Some (Cond ''sdstrim() correctly trims characters'' c # es, sdsfree (Some x) h)
     }"

definition test_cmp :: "string \<Rightarrow> string \<Rightarrow> string \<Rightarrow> (int \<Rightarrow> bool) \<Rightarrow> test" where
  "test_cmp name s t check h =
     do {
       (x, h) \<leftarrow> used (sdsnew (Some (lit s)) h);
       (y, h) \<leftarrow> used (sdsnew (Some (lit t)) h);
       r \<leftarrow> sdscmp x y;
       Some ([Cond name (check r)], sdsfree (Some x) (sdsfree (Some y) h))
     }"

definition test_cmps :: "test list" where
  "test_cmps =
     [test_cmp ''sdscmp(foo,foa)'' ''foo'' ''foa'' (\<lambda>r. r > 0), test_cmp ''sdscmp(bar,bar)'' ''bar'' ''bar'' (\<lambda>r. r = 0),
      test_cmp ''sdscmp(bar,bar)'' ''aar'' ''bar'' (\<lambda>r. r < 0)]"

text \<open>The bytes of \<open>"\a\n\0foo\r"\<close>, and what they look like quoted.\<close>

definition test_repr :: test where
  "test_repr h =
     do {
       (x, h) \<leftarrow> used (sdsnewlen (InitBytes [7, 10, 0, 102, 111, 111, 13, 0]) 7 h);
       (y, h) \<leftarrow> used (sdsempty h);
       (y, h) \<leftarrow> used (sdscatrepr y (sds_buf x) (sdslen x) h);
       c \<leftarrow> mem_is y ([34, 92, 97, 92, 110, 92, 120] @ bytes_of ''00foo'' @ [92, 114, 34]);
       Some ([Cond ''sdscatrepr(...data...)'' c], sdsfree (Some y) (sdsfree (Some x) h))
     }"

text \<open>The rounds that make room for \<open>step\<close> bytes, store them behind the string and add them to
  its length. \<open>sdslen(x) == oldlen\<close> compares with an \<open>int\<close>.\<close>

primrec room_rounds :: "nat \<Rightarrow> sds \<Rightarrow> os \<Rightarrow> (test_event list \<times> sds \<times> os) option" where
  "room_rounds 0 x h = Some ([], x, h)"
| "room_rounds (Suc i) x h =
     do {
       let oldlen = (scast (ucast (sdslen x) :: 32 word) :: size_t);
       (x, h) \<leftarrow> grown (sdsMakeRoomFor x 10 h);
       let conds = Cond ''sdsMakeRoomFor() len'' (sdslen x = oldlen) #
         (if type_of_sds x \<noteq> SDS_TYPE_5 then [Cond ''sdsMakeRoomFor() free'' (sdsavail x \<ge> 10)] else []);
       b \<leftarrow> mem_store (sds_buf x) (unat oldlen) (bytes_of ''ABCDEFGHIJ'');
       r \<leftarrow> sdsIncrLen (x\<lparr>sds_buf := b\<rparr>) 10;
       (x, h) \<leftarrow> grown (Some (r, h));
       (es, x, h) \<leftarrow> room_rounds i x h;
       Some (conds @ es, x, h)
     }"

definition test_room :: test where
  "test_room h =
     do {
       (x, h) \<leftarrow> used (sdsnew (Some (lit ''0'')) h);
       let c1 = (sdslen x = 1 \<and> sdsavail x = 0);
       (es, x, h) \<leftarrow> room_rounds 10 x h;
       c2 \<leftarrow> mem_is x (bytes_of (CHR ''0'' # concat (replicate 10 ''ABCDEFGHIJ'')));
       let c3 = (sdslen x = 101);
       Some (Cond ''sdsnew() free/len buffers'' c1 # es @
             [Cond ''sdsMakeRoomFor() content'' c2, Cond ''sdsMakeRoomFor() final length'' c3], sdsfree (Some x) h)
     }"

definition sdsTest :: test where
  "sdsTest = run_tests ([test_creation] @ test_catprintf @ test_catfmt @ test_trims @ [test_ranges] @
     test_cmps @ [test_repr, test_room])"

section \<open>What the calls yield\<close>

definition has :: "sds \<Rightarrow> byte list \<Rightarrow> bool" where
  "has x bs \<longleftrightarrow> sds_inv x \<and> sds_content x = bs"

text \<open>Memory does not run out, and \<open>d\<close> more objects are on the heap.\<close>

definition steps :: "int \<Rightarrow> os \<Rightarrow> os \<Rightarrow> bool" where
  "steps d h h' \<longleftrightarrow> mallocs_ok h' \<and> live h' = live h + d"

lemma steps_trans: "steps a h h1 \<Longrightarrow> steps b h1 h2 \<Longrightarrow> steps (a + b) h h2"
  by (simp add: steps_def)

lemma freed_steps [simp]: "mallocs_ok (sdsfree (Some x) h) = mallocs_ok h" "live (sdsfree (Some x) h) = live h - 1"
  by (simp_all add: sdsfree_def)

lemma has_len: "has x bs \<Longrightarrow> sdslen x = of_nat (length bs)"
  using content_length [of x] by (auto simp: has_def)

lemma has_buf: "has x bs \<Longrightarrow> sds_buf x = bs @ 0 # drop (length bs + 1) (sds_buf x)"
  using buffer_of_content [of x] content_length [of x] by (auto simp: has_def)

lemma has_mem_is: "has x bs \<Longrightarrow> prefix cs (bs @ [0]) \<Longrightarrow> mem_is x cs = Some True"
proof -
  assume a: "has x bs" "prefix cs (bs @ [0])"
  obtain r where "sds_buf x = (bs @ [0]) @ r" using has_buf [OF a(1)] by auto
  moreover obtain u where "bs @ [0] = cs @ u" using a(2) by (auto simp: prefix_def)
  ultimately have "sds_buf x = cs @ u @ r" by simp
  then show ?thesis by (simp add: mem_is_def mem_load_def)
qed

lemma has_holds:
  "has x bs \<Longrightarrow> n = of_nat (length bs) \<Longrightarrow> prefix cs (bs @ [0]) \<Longrightarrow> holds x n cs = Some True"
  by (simp add: holds_def has_len has_mem_is)

lemma find_zero: "0 \<notin> set bs \<Longrightarrow> find_byte 0 (bs @ 0 # r) = Some (length bs)"
  by (induction bs) auto

lemma newlen_has:
  assumes "mallocs_ok h" and "n = of_nat k" and "k \<le> length bs" and "k < 2 ^ 32"
  shows "\<exists>x h'. used (sdsnewlen (InitBytes bs) n h) = Some (x, h') \<and> has x (take k bs) \<and> steps 1 h h' \<and>
    sdsalloc x = n"
proof -
  have u: "unat n = k" using assms(2,4) by (simp add: unat_of_nat_size)
  then have "unat n \<le> 2 ^ 64 - 19" "init_available (InitBytes bs) (unat n)" using assms(3,4) by simp_all
  from sdsnewlen_outcome [OF this, of h] show ?thesis
    using assms(1) u by (fastforce simp: used_def has_def steps_def split: option.splits)
qed

lemma new_lit:
  assumes "mallocs_ok h" and "0 \<notin> set (bytes_of t)" and "length t < 2 ^ 32"
  shows "\<exists>x h'. used (sdsnew (Some (lit t)) h) = Some (x, h') \<and> has x (bytes_of t) \<and> steps 1 h h' \<and>
    sdsalloc x = sdslen x"
proof -
  have n: "sdsnew (Some (lit t)) h = sdsnewlen (InitBytes (lit t)) (of_nat (length t)) h"
    using find_zero [OF assms(2), of "[]"] by (simp add: sdsnew_def strlen_def lit_def bytes_of_length)
  have k: "length t \<le> length (lit t)" by (simp add: lit_def bytes_of_length)
  show ?thesis
    using newlen_has [OF assms(1) refl k assms(3)] unfolding n
    by (auto simp: lit_def bytes_of_length has_len)
qed

lemma empty_has:
  assumes "mallocs_ok h"
  shows "\<exists>x h'. used (sdsempty h) = Some (x, h') \<and> has x [] \<and> steps 1 h h'"
  using newlen_has [OF assms, of 0 0 "[0]"] by (auto simp: sdsempty_def)

lemma grow_has:
  "\<exists>r h'. m = Some (r, h') \<and> grow_post h bs r h' \<Longrightarrow> mallocs_ok h \<Longrightarrow>
     \<exists>x h'. grown m = Some (x, h') \<and> has x bs \<and> steps 0 h h'"
  by (fastforce simp: grown_def grow_post_def has_def steps_def split: sds_result.splits)

lemma cat_has:
  assumes "has x bs" and "mallocs_ok h" and "length bs + length cs \<le> 2 ^ 32"
  shows "\<exists>y h'. grown (sdscatlen x cs (of_nat (length cs)) h) = Some (y, h') \<and> has y (bs @ cs) \<and> steps 0 h h'"
proof (rule grow_has [OF _ assms(2)])
  have u: "unat (of_nat (length cs) :: size_t) = length cs" using assms(3) by (simp add: unat_of_nat_size)
  then have "unat (sdslen x) + unat (of_nat (length cs) :: size_t) \<le> 2 ^ 63"
    using assms(1,3) content_length [of x] by (auto simp: has_def)
  from catlen_outcome [OF _ _ this, of cs h] show
    "\<exists>r h'. sdscatlen x cs (of_nat (length cs)) h = Some (r, h') \<and> grow_post h (bs @ cs) r h'"
    using assms(1) u by (auto simp: has_def)
qed

lemma cat_lit:
  assumes "has x bs" and "mallocs_ok h" and "0 \<notin> set (bytes_of t)" and "length bs + length t < 2 ^ 32"
  shows "\<exists>y h'. grown (sdscat x (lit t) h) = Some (y, h') \<and> has y (bs @ bytes_of t) \<and> steps 0 h h'"
proof (rule grow_has [OF _ assms(2)])
  have u: "unat (of_nat (length t) :: size_t) = length t" using assms(4) by (simp add: unat_of_nat_size)
  then have "unat (sdslen x) + unat (of_nat (length t) :: size_t) \<le> 2 ^ 63"
    using assms(1,4) content_length [of x] by (auto simp: has_def)
  from catlen_outcome [OF _ _ this, of "lit t" h] show
    "\<exists>r h'. sdscat x (lit t) h = Some (r, h') \<and> grow_post h (bs @ bytes_of t) r h'"
    using assms(1) u find_zero [OF assms(3), of "[]"]
    by (auto simp: has_def sdscat_def strlen_def lit_def bytes_of_length)
qed

lemma cpy_lit:
  assumes "has x bs" and "mallocs_ok h" and "0 \<notin> set (bytes_of t)" and "length t < 2 ^ 32"
  shows "\<exists>y h'. grown (sdscpy x (lit t) h) = Some (y, h') \<and> has y (bytes_of t) \<and> steps 0 h h'"
proof (rule grow_has [OF _ assms(2)])
  have u: "unat (of_nat (length t) :: size_t) = length t" using assms(4) by (simp add: unat_of_nat_size)
  then have "unat (of_nat (length t) :: size_t) \<le> 2 ^ 63" using assms(4) by simp
  from cpylen_outcome [OF _ _ this, of x "lit t" h] show
    "\<exists>r h'. sdscpy x (lit t) h = Some (r, h') \<and> grow_post h (bytes_of t) r h'"
    using assms(1) u find_zero [OF assms(3), of "[]"]
    by (auto simp: has_def sdscpy_def strlen_def lit_def bytes_of_length)
qed

lemma grown_Some: "grown m = Some (y, h') \<Longrightarrow> m = Some (Str y, h')"
  by (auto simp: grown_def split: bind_splits sds_result.splits)

lemma printf_has:
  assumes "has x bs" and "mallocs_ok h" and "unat fmt_len \<le> 512" and "length bs + length expansion \<le> 2 ^ 31"
  shows "\<exists>y h'. grown (sdscatprintf x fmt_len (Some expansion) h) = Some (y, h') \<and> has y (bs @ expansion) \<and> steps 0 h h'"
proof -
  have on_stack: "\<not> fmt_len * 2 > 1024"
    using assms(3) unat_mult_lem [of fmt_len 2] by (simp add: word_less_nat_alt)
  note app = cat_has [OF assms(1), of _ expansion]
  show ?thesis
  proof (cases "length expansion \<ge> unat (1024 :: size_t)")
    case False
    obtain y h' where y: "sdscatlen x expansion (of_nat (length expansion)) h = Some (Str y, h')" "has y (bs @ expansion)" "steps 0 h h'"
      using app [OF assms(2)] assms(4) grown_Some by fastforce
    then show ?thesis using on_stack False by (simp add: sdscatprintf_def sdscatvprintf_def grown_def Let_def)
  next
    case True
    obtain r h1 where "malloc (of_nat (length expansion) + 1) h = (r, h1)" by fastforce
    with malloc_ok [OF assms(2) this] obtain buf where m: "malloc (of_nat (length expansion) + 1) h = (Some buf, h1)"
      by auto
    have h1: "mallocs_ok h1" "live h1 = live h + 1"
      using malloc_ok [OF assms(2) m] malloc_Some [OF m] by simp_all
    obtain y h' where y: "sdscatlen x expansion (of_nat (length expansion)) h1 = Some (Str y, h')" "has y (bs @ expansion)" "steps 0 h1 h'"
      using app [OF h1(1)] assms(4) grown_Some by fastforce
    then show ?thesis
      using on_stack True m h1 by (simp add: sdscatprintf_def sdscatvprintf_def grown_def Let_def steps_def)
  qed
qed

lemma dup_has:
  assumes "has x bs" and "mallocs_ok h" and "length bs < 2 ^ 32"
  shows "\<exists>y h'. used (sdsdup (Some x) h) = Some (y, h') \<and> has y bs \<and> steps 1 h h'"
proof -
  have "unat (sdslen x) \<le> 2 ^ 64 - 19" using assms(1,3) content_length [of x] by (auto simp: has_def)
  from sdsdup_outcome [OF _ this, of h] show ?thesis
    using assms by (fastforce simp: used_def has_def steps_def split: option.splits)
qed

lemma trim_has:
  "has x bs \<Longrightarrow> \<exists>y. sdstrim x (lit cs) = Some y \<and> has y (trim (trimmed (lit cs)) bs)"
  using trim_outcome [of x "lit cs"] by (auto simp: has_def lit_def)

lemma range_has:
  assumes "has x bs" and "length bs < 2 ^ 32" and "\<bar>start\<bar> < 2 ^ 62" and "\<bar>stop\<bar> < 2 ^ 62"
  shows "\<exists>y. sdsrange x start stop = Some y \<and>
    has y (take (nat (from_end (int (length bs)) stop - from_end (int (length bs)) start + 1))
      (drop (nat (from_end (int (length bs)) start)) bs))"
proof -
  have l: "unat (sdslen x) = length bs" using assms(1) content_length [of x] by (auto simp: has_def)
  then show ?thesis
    using range_outcome [of x start stop] assms by (auto simp: has_def)
qed

lemma repr_has:
  assumes "has x bs" and "has y cs" and "mallocs_ok h" and "length bs + length (quoted cs) \<le> 2 ^ 32"
  shows "\<exists>z h'. used (sdscatrepr x (sds_buf y) (sdslen y) h) = Some (z, h') \<and> has z (bs @ quoted cs) \<and> steps 0 h h'"
proof -
  have l: "unat (sdslen y) = length cs" using assms(2) content_length [of y] by (auto simp: has_def)
  have "take (unat (sdslen y)) (sds_buf y) = cs" using assms(2) by (simp add: has_def sds_content_def)
  moreover have "unat (sdslen y) \<le> length (sds_buf y)" using assms(2) by (simp add: has_def sds_inv_def)
  ultimately show ?thesis
    using catrepr_outcome [of x h "sdslen y" "sds_buf y"] assms
    by (auto simp: has_def used_def steps_def)
qed

lemma fmt_has:
  assumes "has x bs" and "mallocs_ok h" and "0 \<notin> set (bytes_of fmt)" and "length fmt < 2 ^ 31"
    and "formatted (bytes_of fmt) args = Some t" and "length bs + length t < 2 ^ 31"
  shows "\<exists>y h'. sdscatfmt x (lit fmt) args h = Some (y, h') \<and> has y (bs @ t) \<and> steps 0 h h'"
  using catfmt_outcome [of x h "lit fmt" "length fmt" args t] assms find_zero [OF assms(3), of "[]"]
  by (auto simp: has_def steps_def lit_def)

section \<open>Each part of the test\<close>

definition is_cond :: "test_event \<Rightarrow> bool" where
  "is_cond e = (case e of Cond c b \<Rightarrow> True | Printed bs \<Rightarrow> False)"

definition holding :: "test_event \<Rightarrow> bool" where
  "holding e = (case e of Cond c b \<Rightarrow> b | Printed bs \<Rightarrow> True)"

text \<open>A part with \<open>n\<close> conditions has a defined result, in which they hold, and it frees what it
  allocates.\<close>

definition passes :: "nat \<Rightarrow> test \<Rightarrow> bool" where
  "passes n t \<longleftrightarrow>
     (\<forall>h. mallocs_ok h \<longrightarrow>
        (\<exists>es h'. t h = Some (es, h') \<and> list_all holding es \<and> length (List.filter is_cond es) = n \<and> steps 0 h h'))"

lemma passesI:
  "(\<And>h. mallocs_ok h \<Longrightarrow> \<exists>es h'. t h = Some (es, h') \<and> list_all holding es \<and>
     length (List.filter is_cond es) = n \<and> steps 0 h h') \<Longrightarrow> passes n t"
  by (simp add: passes_def)

lemma passes_run: "list_all2 passes ns ts \<Longrightarrow> passes (sum_list ns) (run_tests ts)"
proof (induction ns ts rule: list_all2_induct)
  case Nil
  then show ?case by (simp add: passes_def steps_def)
next
  case (Cons n ns t ts)
  show ?case
  proof (rule passesI)
    fix h
    assume "mallocs_ok h"
    then obtain es h1 where 1: "t h = Some (es, h1)" "list_all holding es"
      "length (List.filter is_cond es) = n" "steps 0 h h1"
      using Cons.hyps(1) unfolding passes_def by blast
    then have "mallocs_ok h1" by (simp add: steps_def)
    then obtain fs h2 where 2: "run_tests ts h1 = Some (fs, h2)" "list_all holding fs"
      "length (List.filter is_cond fs) = sum_list ns" "steps 0 h1 h2"
      using Cons.IH unfolding passes_def by blast
    show "\<exists>es h'. run_tests (t # ts) h = Some (es, h') \<and> list_all holding es \<and>
        length (List.filter is_cond es) = sum_list (n # ns) \<and> steps 0 h h'"
      using 1 2 by (simp add: steps_def)
  qed
qed

lemma event_simps [simp]:
  "holding (Cond c b) = b" "is_cond (Cond c b)" "holding (Printed bs)" "\<not> is_cond (Printed bs)"
  by (simp_all add: holding_def is_cond_def)

lemma creation_passes: "passes 5 test_creation"
proof (rule passesI)
  fix h
  assume h: "mallocs_ok h"
  obtain x1 h1 where 1: "used (sdsnew (Some (lit ''foo'')) h) = Some (x1, h1)" "has x1 (bytes_of ''foo'')" "steps 1 h h1"
    using new_lit [OF h, of "''foo''"] by (auto simp: bytes_of_def)
  have "mallocs_ok (sdsfree (Some x1) h1)" using 1(3) by (simp add: steps_def)
  from newlen_has [OF this, of 2 2 "lit ''foo''"] obtain x2 h2 where
    2: "used (sdsnewlen (InitBytes (lit ''foo'')) 2 (sdsfree (Some x1) h1)) = Some (x2, h2)"
      "has x2 (bytes_of ''fo'')" "steps 1 (sdsfree (Some x1) h1) h2"
    by (auto simp: lit_def bytes_of_def)
  obtain x3 h3 where 3: "grown (sdscat x2 (lit ''bar'') h2) = Some (x3, h3)" "has x3 (bytes_of ''fobar'')" "steps 0 h2 h3"
    using cat_lit [OF 2(2), of h2 "''bar''"] 2(3) by (auto simp: bytes_of_def steps_def)
  obtain x4 h4 where 4: "grown (sdscpy x3 (lit ''a'') h3) = Some (x4, h4)" "has x4 (bytes_of ''a'')" "steps 0 h3 h4"
    using cpy_lit [OF 3(2), of h3 "''a''"] 3(3) by (auto simp: bytes_of_def steps_def)
  let ?t = "''xyzxxxxxxxxxxyyyyyyyyyykkkkkkkkkk''"
  obtain x5 h5 where 5: "grown (sdscpy x4 (lit ?t) h4) = Some (x5, h5)" "has x5 (bytes_of ?t)" "steps 0 h4 h5"
    using cpy_lit [OF 4(2), of h4 ?t] 4(3) by (auto simp: bytes_of_def steps_def)
  have c: "holds x1 3 (lit ''foo'') = Some True" "holds x2 2 (lit ''fo'') = Some True"
    "holds x3 5 (lit ''fobar'') = Some True" "holds x4 1 (lit ''a'') = Some True"
    "holds x5 33 (bytes_of ?t) = Some True"
    by (rule has_holds [OF 1(2)] has_holds [OF 2(2)] has_holds [OF 3(2)] has_holds [OF 4(2)] has_holds [OF 5(2)];
        simp add: lit_def)+
  show "\<exists>es h'. test_creation h = Some (es, h') \<and> list_all holding es \<and>
      length (List.filter is_cond es) = 5 \<and> steps 0 h h'"
    using 1 2 3 4 5 by (simp add: test_creation_def c steps_def)
qed

lemma printf_passes:
  assumes "0 \<notin> set (bytes_of fmt)" and "length fmt \<le> 512" and "length expansion \<le> 2 ^ 30"
    and "n = of_nat (length expansion)" and "prefix expected (expansion @ [0])"
  shows "passes 1 (test_printf name fmt expansion n expected)"
proof (rule passesI)
  fix h
  assume h: "mallocs_ok h"
  obtain x1 h1 where 1: "used (sdsempty h) = Some (x1, h1)" "has x1 []" "steps 1 h h1"
    using empty_has [OF h] by blast
  have l: "strlen (lit fmt) = Some (of_nat (length fmt))"
    using find_zero [OF assms(1), of "[]"] by (simp add: strlen_def lit_def)
  have u: "unat (of_nat (length fmt) :: size_t) \<le> 512" using assms(2) by (simp add: unat_of_nat_size)
  obtain x2 h2 where 2: "grown (sdscatprintf x1 (of_nat (length fmt)) (Some expansion) h1) = Some (x2, h2)"
    "has x2 expansion" "steps 0 h1 h2"
    using printf_has [OF 1(2) _ u, of h1 expansion] 1(3) assms(3) by (auto simp: steps_def)
  show "\<exists>es h'. test_printf name fmt expansion n expected h = Some (es, h') \<and> list_all holding es \<and>
      length (List.filter is_cond es) = 1 \<and> steps 0 h h'"
    using 1 2 l has_holds [OF 2(2) assms(4,5)] by (simp add: test_printf_def steps_def)
qed

lemma catprintf_passes: "list_all2 passes [1, 1, 1] test_catprintf"
proof -
  have "passes 1 (test_printf name ''%0*d'' etalon (1024 * 1024) etalon)" for name
    by (rule printf_passes) (simp_all add: etalon_def bytes_of_def)
  moreover have "passes 1 (test_printf name ''%d'' (bytes_of ''123'') 3 (lit ''123''))" for name
    by (rule printf_passes) (simp_all add: bytes_of_def lit_def)
  moreover have "passes 1 (test_printf name ''a%cb'' [97, 0, 98] 3 [97, 0, 98, 0])" for name
    by (rule printf_passes) (simp_all add: bytes_of_def)
  ultimately show ?thesis by (simp add: test_catprintf_def)
qed

lemma fmt_passes:
  assumes "0 \<notin> set (bytes_of fmt)" and "length fmt < 2 ^ 30"
    and "formatted (bytes_of fmt) args = Some t" and "bytes_of ''--'' @ t = bytes_of expected"
    and "length expected < 2 ^ 30" and "n = of_nat (length expected)" and "0 \<notin> set (bytes_of expected)"
  shows "passes 1 (test_fmt name fmt args n expected prints)"
proof (rule passesI)
  fix h
  assume h: "mallocs_ok h"
  obtain x1 h1 where 1: "used (sdsnew (Some (lit ''--'')) h) = Some (x1, h1)" "has x1 (bytes_of ''--'')" "steps 1 h h1"
    using new_lit [OF h, of "''--''"] by (auto simp: bytes_of_def)
  have l: "length (bytes_of ''--'') + length t < 2 ^ 31"
    using arg_cong [OF assms(4), of length] assms(5) by simp
  obtain x2 h2 where 2: "sdscatfmt x1 (lit fmt) args h1 = Some (x2, h2)"
    "has x2 (bytes_of expected)" "steps 0 h1 h2"
    using fmt_has [OF 1(2) _ assms(1) _ assms(3) l, of h1] 1(3) assms(2) by (auto simp: steps_def assms(4))
  have z: "find_byte 0 (sds_buf x2) = Some (length expected)"
    using find_zero [OF assms(7)] has_buf [OF 2(2)] by (metis bytes_of_length)
  have c: "holds x2 n (bytes_of expected) = Some True"
    using has_holds [OF 2(2), of n "bytes_of expected"] assms(6) by simp
  show "\<exists>es h'. test_fmt name fmt args n expected prints h = Some (es, h') \<and> list_all holding es \<and>
      length (List.filter is_cond es) = 1 \<and> steps 0 h h'"
    using 1 2 by (simp add: test_fmt_def steps_def z c)
qed

lemma digit_chars:
  "digit_char 0 = CHR ''0''" "digit_char 1 = CHR ''1''" "digit_char 2 = CHR ''2''" "digit_char 3 = CHR ''3''" "digit_char 4 = CHR ''4''"
  "digit_char 5 = CHR ''5''" "digit_char 6 = CHR ''6''" "digit_char 7 = CHR ''7''" "digit_char 8 = CHR ''8''" "digit_char 9 = CHR ''9''"
  by code_simp+

lemma catfmt_passes: "list_all2 passes [1, 1] test_catfmt"
proof -
  have d: "decimal 9223372036854775808 = ''9223372036854775808''" "decimal 9223372036854775807 = ''9223372036854775807''"
    "decimal 4294967295 = ''4294967295''" "decimal 18446744073709551615 = ''18446744073709551615''"
    by (simp_all add: decimal.simps digit_chars [unfolded One_nat_def])
  have f1: "formatted (bytes_of ''Hello %s World %I,%I--'') [CString (lit ''Hi!''), LongLongArg LLONG_MIN, LongLongArg LLONG_MAX]
      = Some (bytes_of ''Hello Hi! World -9223372036854775808,9223372036854775807--'')"
    by (simp add: bytes_of_def lit_def is_specifier_def signed_text_def LLONG_MIN_def LLONG_MAX_def d)
  have f2: "formatted (bytes_of ''%u,%U--'') [UIntArg (- 1), ULongLongArg (- 1)]
      = Some (bytes_of ''4294967295,18446744073709551615--'')"
    by (simp add: bytes_of_def is_specifier_def d unsigned_minus_1_eq_mask mask_eq_exp_minus_1)
  show ?thesis
    unfolding test_catfmt_def list_all2_Cons
    by (intro conjI list_all2_Nil [THEN iffD2] refl fmt_passes [OF _ _ f1] fmt_passes [OF _ _ f2])
      (simp_all add: bytes_of_def)
qed

lemma trim_passes:
  assumes "0 \<notin> set (bytes_of str)" and "length str < 2 ^ 32"
    and "\<And>x. has x (trim (trimmed (lit cset)) (bytes_of str)) \<Longrightarrow> check x = Some True"
  shows "passes 1 (test_trim name str cset check)"
proof (rule passesI)
  fix h
  assume h: "mallocs_ok h"
  obtain x1 h1 where 1: "used (sdsnew (Some (lit str)) h) = Some (x1, h1)" "has x1 (bytes_of str)" "steps 1 h h1"
    using new_lit [OF h assms(1,2)] by blast
  obtain x2 where 2: "sdstrim x1 (lit cset) = Some x2" "has x2 (trim (trimmed (lit cset)) (bytes_of str))"
    using trim_has [OF 1(2)] by blast
  show "\<exists>es h'. test_trim name str cset check h = Some (es, h') \<and> list_all holding es \<and>
      length (List.filter is_cond es) = 1 \<and> steps 0 h h'"
    using 1 2 assms(3) [OF 2(2)] by (simp add: test_trim_def steps_def)
qed

lemma trims_passes: "list_all2 passes [1, 1] test_trims"
proof -
  have t: "trim (trimmed (lit '' x'')) (bytes_of '' x '') = []" "trim (trimmed (lit '' '')) (bytes_of '' x '') = [120]"
    by code_simp+
  have len: "has x [] \<Longrightarrow> sdslen x = 0" "has x [120] \<Longrightarrow> sdslen x = 1" for x
    using has_len by fastforce+
  have first: "has x [120] \<Longrightarrow> first_is 120 x = Some True" for x
    using has_mem_is [of x "[120]" "[120]"] by (simp add: first_is_def mem_is_def)
  show ?thesis
    unfolding test_trims_def list_all2_Cons
    by (intro conjI list_all2_Nil [THEN iffD2] refl trim_passes) (simp_all add: t len first, simp_all add: bytes_of_def)
qed

lemma range_passes:
  assumes "has x bs" and "length bs < 2 ^ 32" and "\<bar>start\<bar> < 2 ^ 62" and "\<bar>stop\<bar> < 2 ^ 62"
    and "take (nat (from_end (int (length bs)) stop - from_end (int (length bs)) start + 1))
      (drop (nat (from_end (int (length bs)) start)) bs) = bytes_of expected"
    and "n = of_nat (length expected)"
  shows "passes 1 (test_range x name start stop n expected)"
proof (rule passesI)
  fix h
  assume h: "mallocs_ok h"
  obtain y h1 where 1: "used (sdsdup (Some x) h) = Some (y, h1)" "has y bs" "steps 1 h h1"
    using dup_has [OF assms(1) h assms(2)] by blast
  obtain z where 2: "sdsrange y start stop = Some z" "has z (bytes_of expected)"
    using range_has [OF 1(2) assms(2-4)] assms(5) by auto
  have c: "holds z n (lit expected) = Some True"
    using has_holds [OF 2(2), of n "lit expected"] assms(6) by (simp add: lit_def)
  show "\<exists>es h'. test_range x name start stop n expected h = Some (es, h') \<and> list_all holding es \<and>
      length (List.filter is_cond es) = 1 \<and> steps 0 h h'"
    using 1 2 c by (simp add: test_range_def steps_def)
qed

lemma ranges_passes: "passes 7 test_ranges"
proof (rule passesI)
  fix h
  assume h: "mallocs_ok h"
  let ?t = "''xxciaoyyy''" and ?c = "bytes_of ''ciao''"
  obtain x1 h1 where 1: "used (sdsnew (Some (lit ?t)) h) = Some (x1, h1)" "has x1 (bytes_of ?t)" "steps 1 h h1"
    using new_lit [OF h, of ?t] by (auto simp: bytes_of_def)
  have "trim (trimmed (lit ''xy'')) (bytes_of ?t) = ?c" by code_simp
  then obtain x2 where 2: "sdstrim x1 (lit ''xy'') = Some x2" "has x2 ?c"
    using trim_has [OF 1(2), of "''xy''"] by auto
  have c: "holds x2 4 (lit ''ciao'') = Some True"
    using has_holds [OF 2(2), of 4 "lit ''ciao''"] by (simp add: lit_def)
  let ?rs = "[test_range x2 ''sdsrange(...,1,1)'' 1 1 1 ''i'', test_range x2 ''sdsrange(...,1,-1)'' 1 (- 1) 3 ''iao'',
    test_range x2 ''sdsrange(...,-2,-1)'' (- 2) (- 1) 2 ''ao'', test_range x2 ''sdsrange(...,2,1)'' 2 1 0 [],
    test_range x2 ''sdsrange(...,1,100)'' 1 100 3 ''iao'', test_range x2 ''sdsrange(...,100,100)'' 100 100 0 []]"
  have "list_all2 passes [1, 1, 1, 1, 1, 1] ?rs"
    unfolding list_all2_Cons
    by (intro conjI list_all2_Nil [THEN iffD2] refl range_passes [OF 2(2)])
      (simp_all add: bytes_of_def from_end_def)
  then have rs: "passes (sum_list [1, 1, 1, 1, 1, 1]) (run_tests ?rs)" by (rule passes_run)
  have "mallocs_ok h1" using 1(3) by (simp add: steps_def)
  then obtain es h2 where 3: "run_tests ?rs h1 = Some (es, h2)" "list_all holding es"
    "length (List.filter is_cond es) = 6" "steps 0 h1 h2"
    using rs unfolding passes_def by fastforce
  show "\<exists>es h'. test_ranges h = Some (es, h') \<and> list_all holding es \<and>
      length (List.filter is_cond es) = 7 \<and> steps 0 h h'"
    using 1 2 3 c by (simp add: test_ranges_def steps_def del: run_tests.simps)
qed

lemma cmp_passes:
  assumes "0 \<notin> set (bytes_of s)" and "length s < 2 ^ 32" and "0 \<notin> set (bytes_of t)" and "length t < 2 ^ 32"
    and "\<And>r. (r < 0 \<longleftrightarrow> ord_class.lexordp (bytes_of s) (bytes_of t)) \<Longrightarrow>
      (r > 0 \<longleftrightarrow> ord_class.lexordp (bytes_of t) (bytes_of s)) \<Longrightarrow>
      (r = 0 \<longleftrightarrow> bytes_of s = bytes_of t) \<Longrightarrow> check r"
  shows "passes 1 (test_cmp name s t check)"
proof (rule passesI)
  fix h
  assume h: "mallocs_ok h"
  obtain x h1 where 1: "used (sdsnew (Some (lit s)) h) = Some (x, h1)" "has x (bytes_of s)" "steps 1 h h1"
    using new_lit [OF h assms(1,2)] by blast
  obtain y h2 where 2: "used (sdsnew (Some (lit t)) h1) = Some (y, h2)" "has y (bytes_of t)" "steps 1 h1 h2"
    using new_lit [OF _ assms(3,4), of h1] 1(3) by (auto simp: steps_def)
  obtain r where r: "sdscmp x y = Some r" "check r"
    using cmp_outcome [of x y] 1(2) 2(2) assms(5) by (auto simp: has_def)
  show "\<exists>es h'. test_cmp name s t check h = Some (es, h') \<and> list_all holding es \<and>
      length (List.filter is_cond es) = 1 \<and> steps 0 h h'"
    using 1 2 r by (simp add: test_cmp_def steps_def)
qed

lemma cmps_passes: "list_all2 passes [1, 1, 1] test_cmps"
  unfolding test_cmps_def list_all2_Cons
  by (intro conjI list_all2_Nil [THEN iffD2] refl cmp_passes) (simp_all add: bytes_of_def)

lemma repr_passes: "passes 1 test_repr"
proof (rule passesI)
  fix h
  assume h: "mallocs_ok h"
  let ?bs = "[7, 10, 0, 102, 111, 111, 13] :: byte list"
  obtain x h1 where 1: "used (sdsnewlen (InitBytes [7, 10, 0, 102, 111, 111, 13, 0]) 7 h) = Some (x, h1)"
    "has x ?bs" "steps 1 h h1"
    using newlen_has [OF h, of 7 7 "[7, 10, 0, 102, 111, 111, 13, 0]"] by auto
  obtain y h2 where 2: "used (sdsempty h1) = Some (y, h2)" "has y []" "steps 1 h1 h2"
    using empty_has [of h1] 1(3) by (auto simp: steps_def)
  have q: "quoted ?bs = [34, 92, 97, 92, 110, 92, 120] @ bytes_of ''00foo'' @ [92, 114, 34]" by code_simp
  then have "length (quoted ?bs) = 15" by simp
  then obtain z h3 where 3: "used (sdscatrepr y (sds_buf x) (sdslen x) h2) = Some (z, h3)" "has z (quoted ?bs)"
    "steps 0 h2 h3"
    using repr_has [OF 2(2) 1(2), of h2] 2(3) by (auto simp: steps_def)
  have c: "mem_is z ([34, 92, 97, 92, 110, 92, 120] @ bytes_of ''00foo'' @ [92, 114, 34]) = Some True"
    using has_mem_is [OF 3(2)] unfolding q by simp
  show "\<exists>es h'. test_repr h = Some (es, h') \<and> list_all holding es \<and>
      length (List.filter is_cond es) = 1 \<and> steps 0 h h'"
    using 1 2 3 c by (simp add: test_repr_def steps_def)
qed

lemma room_round:
  assumes x: "has x bs" and h: "mallocs_ok h" and l: "length bs < 2 ^ 31"
  shows "\<exists>c h1 b y. grown (sdsMakeRoomFor x 10 h) = Some (c, h1) \<and> sdslen c = sdslen x \<and>
    type_of_sds c \<noteq> SDS_TYPE_5 \<and> sdsavail c \<ge> 10 \<and>
    mem_store (sds_buf c) (unat (sdslen x)) (bytes_of ''ABCDEFGHIJ'') = Some b \<and>
    sdsIncrLen (c\<lparr>sds_buf := b\<rparr>) 10 = Some (Str y) \<and> has y (bs @ bytes_of ''ABCDEFGHIJ'') \<and> steps 0 h h1"
proof -
  have u: "unat (sdslen x) = length bs" using x content_length [of x] by (auto simp: has_def)
  then have "unat (sdslen x) + unat (10 :: size_t) \<le> 2 ^ 63" using l by simp
  from make_room_outcome [OF _ this, of h] obtain c h1 where
    c: "sdsMakeRoomFor x 10 h = Some (Str c, h1)" "sds_inv c" "sds_content c = bs" "sdslen c = sdslen x"
      "unat (sdslen x) + 10 \<le> unat (sdsalloc c)" "steps 0 h h1"
    using x h by (fastforce simp: has_def make_room_post_def steps_def split: sds_result.splits)
  have t: "type_of_sds c \<noteq> SDS_TYPE_5" using make_room_not_5 [OF c(1)] by simp
  have "unat (sdslen c) + length (bytes_of ''ABCDEFGHIJ'') \<le> unat (sdsalloc c)" using c(4,5) by simp
  from incr_len_outcome [OF c(2) t this] obtain b y where
    y: "mem_store (sds_buf c) (unat (sdslen x)) (bytes_of ''ABCDEFGHIJ'') = Some b"
      "sdsIncrLen (c\<lparr>sds_buf := b\<rparr>) 10 = Some (Str y)" "has y (bs @ bytes_of ''ABCDEFGHIJ'')"
    using c(3,4) by (auto simp: has_def)
  have "sdsavail c \<ge> 10" using avail_unat [OF c(2)] c(4,5) by (simp add: word_le_nat_alt)
  then show ?thesis using c t y by (auto simp: grown_def)
qed

lemma narrow_size: "uint (w :: size_t) < 2 ^ 31 \<Longrightarrow> scast (ucast w :: 32 word) = w"
proof -
  assume a: "uint w < 2 ^ 31"
  have "sint (ucast w :: 32 word) = signed_take_bit 31 (uint w)" by (simp add: sint_uint unsigned_ucast_eq signed_take_bit_take_bit)
  also have "\<dots> = uint w" using a by (intro signed_take_bit_int_eq_self) (auto intro: order_trans [of _ 0])
  finally show ?thesis by (metis of_int_sint word_of_int_uint scast_eq)
qed
lemma room_rounds_pass:
  "has x bs \<Longrightarrow> mallocs_ok h \<Longrightarrow> length bs + 10 * i < 2 ^ 31 \<Longrightarrow>
     \<exists>es y h'. room_rounds i x h = Some (es, y, h') \<and> list_all holding es \<and>
       length (List.filter is_cond es) = 2 * i \<and> steps 0 h h' \<and>
       has y (bs @ concat (replicate i (bytes_of ''ABCDEFGHIJ'')))"
proof (induction i arbitrary: x bs h)
  case 0
  then show ?case by (simp add: steps_def)
next
  case (Suc i)
  obtain c h1 b y where r: "grown (sdsMakeRoomFor x 10 h) = Some (c, h1)" "sdslen c = sdslen x"
    "type_of_sds c \<noteq> SDS_TYPE_5" "sdsavail c \<ge> 10"
    "mem_store (sds_buf c) (unat (sdslen x)) (bytes_of ''ABCDEFGHIJ'') = Some b"
    "sdsIncrLen (c\<lparr>sds_buf := b\<rparr>) 10 = Some (Str y)" "has y (bs @ bytes_of ''ABCDEFGHIJ'')" "steps 0 h h1"
    using room_round [OF Suc.prems(1,2)] Suc.prems(3) by auto
  have old: "(scast (ucast (sdslen x) :: 32 word) :: size_t) = sdslen x"
    using Suc.prems(3) by (intro narrow_size) (simp add: has_len [OF Suc.prems(1)] unsigned_of_nat take_bit_eq_mod)
  have "mallocs_ok h1" using r(8) by (simp add: steps_def)
  from Suc.IH [OF r(7) this] obtain es z h' where
    "room_rounds i y h1 = Some (es, z, h')" "list_all holding es" "length (List.filter is_cond es) = 2 * i"
    "steps 0 h1 h'" "has z ((bs @ bytes_of ''ABCDEFGHIJ'') @ concat (replicate i (bytes_of ''ABCDEFGHIJ'')))"
    using Suc.prems(3) by auto
  then show ?case
    using r old by (simp add: Let_def steps_def) (simp add: grown_def)
qed

lemma room_passes: "passes 23 test_room"
proof (rule passesI)
  fix h
  assume h: "mallocs_ok h"
  obtain x h1 where 1: "used (sdsnew (Some (lit ''0'')) h) = Some (x, h1)" "has x (bytes_of ''0'')" "steps 1 h h1"
    "sdsalloc x = sdslen x"
    using new_lit [OF h, of "''0''"] by (auto simp: bytes_of_def)
  have "sdslen x = 1" using has_len [OF 1(2)] by simp
  moreover have "sdsavail x = 0"
    using avail_unat [of x] 1(2,4) by (intro word_eq_unatI) (simp add: has_def)
  ultimately have c1: "sdslen x = 1 \<and> sdsavail x = 0" ..
  let ?bs = "bytes_of ''0'' @ concat (replicate 10 (bytes_of ''ABCDEFGHIJ''))"
  obtain es y h2 where 2: "room_rounds 10 x h1 = Some (es, y, h2)" "list_all holding es"
    "length (List.filter is_cond es) = 20" "steps 0 h1 h2" "has y ?bs"
    using room_rounds_pass [OF 1(2), of h1 10] 1(3) by (auto simp: steps_def)
  have "bytes_of (CHR ''0'' # concat (replicate 10 ''ABCDEFGHIJ'')) = ?bs"
    by (simp add: bytes_of_def map_concat)
  then have c2: "mem_is y (bytes_of (CHR ''0'' # concat (replicate 10 ''ABCDEFGHIJ''))) = Some True"
    using has_mem_is [OF 2(5)] by simp
  have c3: "sdslen y = 101" using has_len [OF 2(5)] by (simp add: length_concat sum_list_replicate)
  show "\<exists>es h'. test_room h = Some (es, h') \<and> list_all holding es \<and>
      length (List.filter is_cond es) = 23 \<and> steps 0 h h'"
    using 1 2 c1 c2 c3 by (simp add: test_room_def steps_def del: room_rounds.simps)
qed

section \<open>Properties\<close>

lemma sdsTest_passes: "passes 46 sdsTest"
proof -
  have "list_all2 passes ([5] @ [1, 1, 1] @ [1, 1] @ [1, 1] @ [7] @ [1, 1, 1] @ [1, 23])
      ([test_creation] @ test_catprintf @ test_catfmt @ test_trims @ [test_ranges] @ test_cmps @ [test_repr, test_room])"
    using creation_passes catprintf_passes catfmt_passes trims_passes ranges_passes cmps_passes repr_passes room_passes
    by (intro list_all2_appendI) simp_all
  from passes_run [OF this] show ?thesis by (simp add: sdsTest_def del: run_tests.simps)
qed

text \<open>
  C16. The self test of the string library passes: with whatever the allocator hands out, as long
  as it does not fail, the test runs through with no undefined step, all of its 46 conditions
  hold, among them those on a string of a megabyte, on the extreme numbers and on bytes behind
  a NUL, and at the end everything is freed.
\<close>

theorem sds_self_test_passes:
  assumes "mallocs_ok h"
  shows "\<exists>es h'. sdsTest h = Some (es, h') \<and> length (List.filter is_cond es) = 46 \<and>
    (\<forall>c. Cond c False \<notin> set es) \<and> live h' = live h"
proof -
  obtain es h' where "sdsTest h = Some (es, h')" "list_all holding es" "length (List.filter is_cond es) = 46"
    "steps 0 h h'" using sdsTest_passes assms unfolding passes_def by blast
  then show ?thesis by (auto simp: list_all_iff steps_def)
qed

lemma sds_self_test_passes_witness:
  "\<exists>es h'. sdsTest example_os = Some (es, h') \<and> length (List.filter is_cond es) = 46 \<and>
    (\<forall>c. Cond c False \<notin> set es) \<and> live h' = 0"
  using sds_self_test_passes [of example_os] by (simp add: example_os_ok) (simp add: example_os_def)

end
