(* ===== verification/MessageQueue.thy ===== *)
theory MessageQueue
  imports Sds CText
begin

text \<open>
  The message ring of the chat server, \<open>tcp/polling/message_q.c\<close> and \<open>message_q.h\<close>: an array of
  \<open>sds\<close> pointers with a start and an end index, -1 as the start of an empty ring, and the list
  of registered clients with their read offsets. A \<open>MessageQueue *\<close> is an \<open>option\<close>.
\<close>

section \<open>The model\<close>

definition MAX_MESSAGE_LENGTH :: nat where "MAX_MESSAGE_LENGTH = 512"
definition MQ_EMPTY_SENTINEL :: int where "MQ_EMPTY_SENTINEL = - 1"
definition MQERR_FULL :: int where "MQERR_FULL = - 40"
definition MQERR_MESSAGE_TOO_LONG :: int where "MQERR_MESSAGE_TOO_LONG = - 41"
definition MQERR_NULL_POINTER :: int where "MQERR_NULL_POINTER = - 42"
definition MQERR_ALLOC_FAIL :: int where "MQERR_ALLOC_FAIL = - 43"
definition MQERR_EMPTY :: int where "MQERR_EMPTY = - 44"

record MQClient =
  client_fd :: int
  roff :: int

text \<open>The capacity is a \<open>size_t\<close>; the indices are \<open>ssize_t\<close>; the client list is a
  singly linked list with the newest client at its head.\<close>

record MessageQueue =
  capacity :: nat
  messages :: "sds option list"
  start_idx :: int
  end_idx :: int
  clients :: "MQClient list"

text \<open>The array has \<open>sizeof(sds) * capacity\<close> bytes, a product that wraps around.\<close>

definition message_queue__init :: "size_t \<Rightarrow> os \<Rightarrow> MessageQueue option \<times> os" where
  "message_queue__init cap s =
     (if cap = 0 then (None, s)
      else
        case alloc_object s of
          (False, s1) \<Rightarrow> (None, s1)
        | (True, s1) \<Rightarrow>
            (case alloc_object s1 of
               (False, s2) \<Rightarrow> (None, c_free (Some ()) s2)
             | (True, s2) \<Rightarrow>
                 (Some \<lparr>capacity = unat cap, messages = replicate (unat (8 * cap) div 8) None,
                        start_idx = MQ_EMPTY_SENTINEL, end_idx = 0, clients = []\<rparr>, s2)))"

text \<open>A slot of the array, which must exist.\<close>

definition slot :: "MessageQueue \<Rightarrow> int \<Rightarrow> sds option option" where
  "slot mq i = (if 0 \<le> i \<and> i < int (length (messages mq)) then Some (messages mq ! nat i) else None)"

definition set_slot :: "MessageQueue \<Rightarrow> int \<Rightarrow> sds option \<Rightarrow> MessageQueue option" where
  "set_slot mq i m =
     (if 0 \<le> i \<and> i < int (length (messages mq))
      then Some (mq\<lparr>messages := (messages mq)[nat i := m]\<rparr>) else None)"

fun message_queue__q ::
    "MessageQueue option \<Rightarrow> byte list option \<Rightarrow> size_t \<Rightarrow> os \<Rightarrow> (int \<times> MessageQueue option \<times> os) option"
  where
  "message_queue__q (Some mq) (Some msg) msglen s =
     (if end_idx mq = start_idx mq then Some (MQERR_FULL, Some mq, s)
      else if unat msglen > MAX_MESSAGE_LENGTH then Some (MQERR_MESSAGE_TOO_LONG, Some mq, s)
      else
        do {
          (message, s1) \<leftarrow> sdsnewlen (InitBytes msg) msglen s;
          if message = None then Some (MQERR_ALLOC_FAIL, Some mq, s1)
          else
            do {
              mq1 \<leftarrow> set_slot mq (end_idx mq) message;
              Some (0, Some (mq1\<lparr>
                start_idx := (if start_idx mq = MQ_EMPTY_SENTINEL then 0 else start_idx mq),
                end_idx := (end_idx mq + 1) mod int (capacity mq)\<rparr>), s1)
            }
        })"
| "message_queue__q mq msg msglen s = Some (MQERR_NULL_POINTER, mq, s)"

definition get_length :: "MessageQueue \<Rightarrow> nat" where
  "get_length mq =
     (if start_idx mq = MQ_EMPTY_SENTINEL then 0
      else if start_idx mq < end_idx mq then nat (end_idx mq - start_idx mq)
      else if start_idx mq = end_idx mq then capacity mq
      else nat (int (capacity mq) - start_idx mq + end_idx mq))"

fun message_queue__get :: "MessageQueue option \<Rightarrow> nat \<Rightarrow> os \<Rightarrow> (sds option \<times> os) option" where
  "message_queue__get None index s = Some (None, s)"
| "message_queue__get (Some mq) index s =
     (if start_idx mq = MQ_EMPTY_SENTINEL then Some (None, s)
      else if index \<ge> get_length mq then Some (None, s)
      else do { m \<leftarrow> slot mq ((start_idx mq + int index) mod int (capacity mq)); sdsdup m s })"

fun message_queue__dq ::
    "MessageQueue option \<Rightarrow> os \<Rightarrow> (sds option \<times> MessageQueue option \<times> os) option" where
  "message_queue__dq None s = Some (None, None, s)"
| "message_queue__dq (Some mq) s =
     (if start_idx mq = MQ_EMPTY_SENTINEL then Some (None, Some mq, s)
      else
        do {
          message \<leftarrow> slot mq (start_idx mq);
          (rvm, s1) \<leftarrow> sdsdup message s;
          if rvm = None then Some (None, Some mq, s1)
          else
            do {
              mq1 \<leftarrow> set_slot mq (start_idx mq) None;
              let start1 = (start_idx mq + 1) mod int (capacity mq) in
              Some (rvm,
                    Some (mq1\<lparr>start_idx :=
                      (if start1 = end_idx mq then MQ_EMPTY_SENTINEL else start1)\<rparr>),
                    sdsfree message s1)
            }
        })"

text \<open>The loop of \<open>message_queue__free\<close> from \<open>start\<close> to \<open>end\<close>.\<close>

partial_function (option) free_loop :: "MessageQueue \<Rightarrow> int \<Rightarrow> os \<Rightarrow> os option" where
  "free_loop mq i s =
     (if i \<noteq> end_idx mq then
        do {
          m \<leftarrow> slot mq i;
          free_loop mq ((i + 1) mod int (capacity mq)) (sdsfree m s)
        }
      else Some s)"

declare free_loop.simps [code]

fun message_queue__free :: "MessageQueue option \<Rightarrow> os \<Rightarrow> os option" where
  "message_queue__free None s = Some s"
| "message_queue__free (Some mq) s =
     do {
       s1 \<leftarrow> (if start_idx mq \<noteq> MQ_EMPTY_SENTINEL then free_loop mq (start_idx mq) s else Some s);
       Some (c_free (Some mq) (c_free (Some (messages mq)) s1))
     }"

fun message_queue__register_client ::
    "MessageQueue option \<Rightarrow> int \<Rightarrow> os \<Rightarrow> int \<times> MessageQueue option \<times> os" where
  "message_queue__register_client None clientfd s = (- 1, None, s)"
| "message_queue__register_client (Some mq) clientfd s =
     (case alloc_object s of
        (False, s1) \<Rightarrow> (- 1, Some mq, s1)
      | (True, s1) \<Rightarrow>
          (0, Some (mq\<lparr>clients :=
                \<lparr>client_fd = clientfd,
                 roff = (if start_idx mq = MQ_EMPTY_SENTINEL then 0 else start_idx mq)\<rparr> # clients mq\<rparr>),
           s1))"

fun remove_first :: "('a \<Rightarrow> bool) \<Rightarrow> 'a list \<Rightarrow> 'a list" where
  "remove_first p [] = []"
| "remove_first p (x # xs) = (if p x then xs else x # remove_first p xs)"

fun message_queue__unregister_client ::
    "MessageQueue option \<Rightarrow> int \<Rightarrow> os \<Rightarrow> int \<times> MessageQueue option \<times> os" where
  "message_queue__unregister_client None clientfd s = (- 1, None, s)"
| "message_queue__unregister_client (Some mq) clientfd s =
     (if list_ex (\<lambda>c. client_fd c = clientfd) (clients mq)
      then (0, Some (mq\<lparr>clients := remove_first (\<lambda>c. client_fd c = clientfd) (clients mq)\<rparr>),
            c_free (Some ()) s)
      else (- 1, Some mq, s))"

text \<open>
  Each connection has its own input and output, the state of its descriptor. The loop of
  \<open>__flush_client_messages\<close> gives the offset where it stopped and whether a write failed.
\<close>

type_synonym conns = "int \<Rightarrow> os"

partial_function (option) flush_loop ::
    "MessageQueue \<Rightarrow> int \<Rightarrow> int \<Rightarrow> conns \<Rightarrow> (bool \<times> int \<times> conns) option" where
  "flush_loop mq fd i net =
     (if i \<noteq> end_idx mq then
        do {
          m \<leftarrow> slot mq i;
          (case m of
             None \<Rightarrow> flush_loop mq fd ((i + 1) mod int (capacity mq)) net
           | Some str \<Rightarrow>
               do {
                 bs \<leftarrow> mem_load (sds_buf str) 0 (unat (sdslen str));
                 (case sys_write bs (net fd) of
                    (Inl e, c) \<Rightarrow> Some (False, i, net(fd := c))
                  | (Inr n, c) \<Rightarrow>
                      flush_loop mq fd ((i + 1) mod int (capacity mq)) (net(fd := c)))
               })
        }
      else Some (True, end_idx mq, net))"

declare flush_loop.simps [code]

fun update_first :: "('a \<Rightarrow> bool) \<Rightarrow> ('a \<Rightarrow> 'a) \<Rightarrow> 'a list \<Rightarrow> 'a list" where
  "update_first p f [] = []"
| "update_first p f (x # xs) = (if p x then f x # xs else x # update_first p f xs)"

fun message_queue__flush ::
    "MessageQueue option \<Rightarrow> int \<Rightarrow> conns \<Rightarrow> (int \<times> MessageQueue option \<times> conns) option" where
  "message_queue__flush None clientfd net = Some (MQERR_NULL_POINTER, None, net)"
| "message_queue__flush (Some mq) clientfd net =
     (if get_length mq = 0 then Some (0, Some mq, net)
      else
        case find (\<lambda>c. client_fd c = clientfd) (clients mq) of
          None \<Rightarrow> Some (- 1, Some mq, net)
        | Some client \<Rightarrow>
            do {
              (sent, off, net1) \<leftarrow> flush_loop mq (client_fd client) (roff client) net;
              Some (if sent then 0 else - 1,
                    Some (mq\<lparr>clients := update_first (\<lambda>c. client_fd c = clientfd)
                                (\<lambda>c. c\<lparr>roff := off\<rparr>) (clients mq)\<rparr>),
                    net1)
            })"

text \<open>\<open>(size_t)(capacity * 0.4)\<close> is the largest integer not above two fifths of the capacity,
  for capacities a double holds exactly.\<close>

definition drop_before_offset :: "MessageQueue \<Rightarrow> nat" where
  "drop_before_offset mq = 2 * capacity mq div 5"

text \<open>A sum of \<open>size_t\<close>.\<close>

definition client_off :: "MessageQueue \<Rightarrow> MQClient \<Rightarrow> nat" where
  "client_off mq c =
     nat ((int (capacity mq) + roff c - start_idx mq) mod 2 ^ 64) mod capacity mq"

text \<open>The walk over the list: what stays, and the memory of what goes is freed.\<close>

fun drop_loop :: "MessageQueue \<Rightarrow> MQClient list \<Rightarrow> os \<Rightarrow> MQClient list \<times> os" where
  "drop_loop mq [] s = ([], s)"
| "drop_loop mq (client # next) s =
     (if client_off mq client < drop_before_offset mq
      then drop_loop mq next (c_free (Some client) s)
      else (let (kept, s1) = drop_loop mq next s in (client # kept, s1)))"

fun message_queue__drop_slow_consumers :: "MessageQueue option \<Rightarrow> os \<Rightarrow> MessageQueue option \<times> os" where
  "message_queue__drop_slow_consumers None s = (None, s)"
| "message_queue__drop_slow_consumers (Some mq) s =
     (if start_idx mq = MQ_EMPTY_SENTINEL then (Some mq, s)
      else if get_length mq < (capacity mq * 8) mod 2 ^ 64 div 10 then (Some mq, s)
      else (let (kept, s1) = drop_loop mq (clients mq) s in (Some (mq\<lparr>clients := kept\<rparr>), s1)))"

section \<open>The ring as a sequence\<close>

text \<open>The strings from the start index on, in order.\<close>

definition mq_strs :: "MessageQueue \<Rightarrow> sds list" where
  "mq_strs mq =
     (if start_idx mq = MQ_EMPTY_SENTINEL then []
      else map the (take (get_length mq) (rotate (nat (start_idx mq)) (messages mq))))"

definition mq_items :: "MessageQueue \<Rightarrow> byte list list" where
  "mq_items mq = map sds_content (mq_strs mq)"

text \<open>Indices inside the array, the occupied slots exactly those of the ring, good strings in
  them, and offsets of clients inside the array.\<close>

definition mq_wf :: "MessageQueue \<Rightarrow> bool" where
  "mq_wf mq \<longleftrightarrow>
     0 < capacity mq \<and> capacity mq < 2 ^ 60 \<and> length (messages mq) = capacity mq \<and>
     0 \<le> end_idx mq \<and> end_idx mq < int (capacity mq) \<and>
     - 1 \<le> start_idx mq \<and> start_idx mq < int (capacity mq) \<and>
     (if start_idx mq = MQ_EMPTY_SENTINEL then messages mq = replicate (capacity mq) None
      else rotate (nat (start_idx mq)) (messages mq) =
             map Some (mq_strs mq) @ replicate (capacity mq - get_length mq) None) \<and>
     (\<forall>str \<in> set (mq_strs mq). sds_inv str \<and> unat (sdslen str) \<le> MAX_MESSAGE_LENGTH) \<and>
     (\<forall>c \<in> set (clients mq). 0 \<le> roff c \<and> roff c < int (capacity mq))"

text \<open>The empty ring starts over at index 0; an emptied one may not.\<close>

definition mq_inv :: "MessageQueue \<Rightarrow> bool" where
  "mq_inv mq \<longleftrightarrow> mq_wf mq \<and> (start_idx mq = MQ_EMPTY_SENTINEL \<longrightarrow> end_idx mq = 0)"

lemma next_index: "0 \<le> e \<Longrightarrow> e < int c \<Longrightarrow> (e + 1) mod int c = (if e + 1 = int c then 0 else e + 1)"
  by auto

lemma wf_bounds:
  assumes "mq_wf mq"
  shows "0 < capacity mq" "length (messages mq) = capacity mq" "0 \<le> end_idx mq"
    "end_idx mq < int (capacity mq)"
    "start_idx mq \<noteq> MQ_EMPTY_SENTINEL \<Longrightarrow> 0 \<le> start_idx mq \<and> start_idx mq < int (capacity mq)"
  using assms by (auto simp: mq_wf_def MQ_EMPTY_SENTINEL_def)

lemma length_bounds:
  assumes "mq_wf mq" and "start_idx mq \<noteq> MQ_EMPTY_SENTINEL"
  shows "0 < get_length mq \<and> get_length mq \<le> capacity mq \<and>
    end_idx mq = (start_idx mq + int (get_length mq)) mod int (capacity mq)"
proof -
  let ?s = "start_idx mq" and ?e = "end_idx mq" and ?c = "int (capacity mq)"
  have b: "0 \<le> ?s" "?s < ?c" "0 \<le> ?e" "?e < ?c" using wf_bounds [OF assms(1)] assms(2) by auto
  consider "?s < ?e" | "?s = ?e" | "?e < ?s" by linarith
  then show ?thesis
  proof cases
    case 1
    then show ?thesis using b assms(2) by (auto simp: get_length_def)
  next
    case 2
    then show ?thesis using b assms(2) by (auto simp: get_length_def)
  next
    case 3
    then have "get_length mq = nat (?c - ?s + ?e)" using assms(2) by (simp add: get_length_def)
    then have "?s + int (get_length mq) = ?e + ?c" "0 < get_length mq" "get_length mq \<le> capacity mq"
      using 3 b by auto
    then show ?thesis using b by simp
  qed
qed

lemma strs_length: "mq_wf mq \<Longrightarrow> length (mq_strs mq) = get_length mq"
  using length_bounds [of mq] wf_bounds(2) [of mq]
  by (cases "start_idx mq = MQ_EMPTY_SENTINEL") (auto simp: mq_strs_def get_length_def)

lemma items_length: "mq_wf mq \<Longrightarrow> length (mq_items mq) = get_length mq"
  by (simp add: mq_items_def strs_length)

text \<open>The slot at distance \<open>k\<close> from the start.\<close>

lemma ring_slot:
  assumes "mq_wf mq" and "start_idx mq \<noteq> MQ_EMPTY_SENTINEL" and "k < capacity mq"
  shows "slot mq ((start_idx mq + int k) mod int (capacity mq)) =
    Some (if k < get_length mq then Some (mq_strs mq ! k) else None)"
proof -
  let ?s = "nat (start_idx mq)" and ?c = "capacity mq"
  have b: "0 \<le> start_idx mq" "length (messages mq) = ?c" using wf_bounds [OF assms(1)] assms(2) by auto
  have nat: "nat ((start_idx mq + int k) mod int ?c) = (?s + k) mod ?c"
    using b by (simp add: nat_mod_distrib nat_add_distrib)
  have "messages mq ! ((?s + k) mod ?c) = rotate ?s (messages mq) ! k"
    using nth_rotate [of k "messages mq" ?s] b assms(3) by simp
  also have "\<dots> = (if k < get_length mq then Some (mq_strs mq ! k) else None)"
    using assms b strs_length [OF assms(1)] by (auto simp: mq_wf_def nth_append)
  finally show ?thesis
    using nat b assms(3) by (simp add: slot_def)
qed

lemma rotate_update:
  assumes "k < length xs"
  shows "rotate s (xs[(s + k) mod length xs := x]) = (rotate s xs)[k := x]"
proof (rule nth_equalityI)
  show "length (rotate s (xs[(s + k) mod length xs := x])) = length ((rotate s xs)[k := x])" by simp
  fix i assume "i < length (rotate s (xs[(s + k) mod length xs := x]))"
  then have i: "i < length xs" by simp
  have pos: "0 < length xs" using i by (cases xs) auto
  have "(s + i) mod length xs = (s + k) mod length xs \<longleftrightarrow> i = k"
  proof
    assume "(s + i) mod length xs = (s + k) mod length xs"
    then have "(int s + int i) mod int (length xs) = (int s + int k) mod int (length xs)"
      by (metis of_nat_add of_nat_mod)
    then have "(int s + int i - int s) mod int (length xs) = (int s + int k - int s) mod int (length xs)"
      by (rule mod_diff_cong) simp
    then have "i mod length xs = k mod length xs" by (simp flip: of_nat_mod)
    then show "i = k" using i assms by simp
  qed simp
  then show "rotate s (xs[(s + k) mod length xs := x]) ! i = (rotate s xs)[k := x] ! i"
    using i assms pos by (auto simp: nth_rotate nth_list_update)
qed


section \<open>Queueing\<close>

lemma set_slot_in:
  "0 \<le> i \<Longrightarrow> i < int (length (messages mq)) \<Longrightarrow>
     set_slot mq i m = Some (mq\<lparr>messages := (messages mq)[nat i := m]\<rparr>)"
  by (simp add: set_slot_def)

text \<open>A state whose slots are the ring of these strings is well formed.\<close>

lemma wf_of_ring:
  assumes "0 < capacity mq" "capacity mq < 2 ^ 60" "length (messages mq) = capacity mq"
    and "0 \<le> end_idx mq" "end_idx mq < int (capacity mq)"
    and "0 \<le> start_idx mq" "start_idx mq < int (capacity mq)"
    and ring: "rotate (nat (start_idx mq)) (messages mq) =
      map Some strs @ replicate (capacity mq - length strs) None"
    and len: "get_length mq = length strs"
    and good: "\<forall>str \<in> set strs. sds_inv str \<and> unat (sdslen str) \<le> MAX_MESSAGE_LENGTH"
    and cl: "\<forall>c \<in> set (clients mq). 0 \<le> roff c \<and> roff c < int (capacity mq)"
  shows "mq_wf mq \<and> mq_strs mq = strs"
proof -
  have "mq_strs mq = strs"
    using assms(6) by (simp add: mq_strs_def MQ_EMPTY_SENTINEL_def ring len o_def)
  then show ?thesis
    using assms by (auto simp: mq_wf_def MQ_EMPTY_SENTINEL_def)
qed

lemma grown_length:
  assumes "0 \<le> s" "s < int c" "0 \<le> e" "e < int c" "s \<noteq> e"
    and "start_idx mq1 = s" "end_idx mq1 = (e + 1) mod int c" "capacity mq1 = c"
    and "start_idx mq = s" "end_idx mq = e" "capacity mq = c"
  shows "get_length mq1 = get_length mq + 1"
  using assms next_index [OF assms(3,4)]
  by (auto simp: get_length_def MQ_EMPTY_SENTINEL_def)

text \<open>The state after a store at the end index, from where an empty ring starts at 0.\<close>

definition pushed :: "sds \<Rightarrow> MessageQueue \<Rightarrow> MessageQueue" where
  "pushed str mq = mq\<lparr>messages := (messages mq)[nat (end_idx mq) := Some str],
     start_idx := (if start_idx mq = MQ_EMPTY_SENTINEL then 0 else start_idx mq),
     end_idx := (end_idx mq + 1) mod int (capacity mq)\<rparr>"

lemma ring_before_push:
  assumes inv: "mq_inv mq" and st: "st = (if start_idx mq = MQ_EMPTY_SENTINEL then 0 else start_idx mq)"
  shows "rotate (nat st) (messages mq) =
      map Some (mq_strs mq) @ replicate (capacity mq - get_length mq) None \<and>
    nat (end_idx mq) = (nat st + get_length mq) mod capacity mq"
proof (cases "start_idx mq = MQ_EMPTY_SENTINEL")
  case True
  then show ?thesis using inv by (simp add: mq_inv_def mq_wf_def st mq_strs_def get_length_def)
next
  case False
  have wf: "mq_wf mq" using inv by (simp add: mq_inv_def)
  have "end_idx mq = (st + int (get_length mq)) mod int (capacity mq)" "0 \<le> st"
    using length_bounds [OF wf] wf_bounds(5) [OF wf] False by (simp_all add: st)
  then show ?thesis
    using wf False by (simp add: mq_wf_def st nat_mod_distrib nat_add_distrib)
qed

lemma pushed_length:
  assumes inv: "mq_inv mq" and not_full: "end_idx mq \<noteq> start_idx mq"
  shows "get_length (pushed str mq) = get_length mq + 1"
proof -
  have wf: "mq_wf mq" using inv by (simp add: mq_inv_def)
  note b = wf_bounds [OF wf]
  show ?thesis
  proof (cases "start_idx mq = MQ_EMPTY_SENTINEL")
    case True
    then show ?thesis
      using inv b next_index [of 0 "capacity mq"]
      by (auto simp: pushed_def get_length_def mq_inv_def MQ_EMPTY_SENTINEL_def)
  next
    case False
    then show ?thesis
      using b(5) [OF False] b(3,4) not_full
      by (intro grown_length [of "start_idx mq" "capacity mq" "end_idx mq"]) (auto simp: pushed_def)
  qed
qed

lemma not_full_indices:
  "mq_wf mq \<Longrightarrow> get_length mq < capacity mq \<Longrightarrow> end_idx mq \<noteq> start_idx mq"
  using wf_bounds [of mq] by (auto simp: get_length_def MQ_EMPTY_SENTINEL_def)

lemma pushed_ring:
  assumes inv: "mq_inv mq" and room: "get_length mq < capacity mq"
    and str: "sds_inv str" "unat (sdslen str) \<le> MAX_MESSAGE_LENGTH"
  shows "mq_inv (pushed str mq) \<and> mq_strs (pushed str mq) = mq_strs mq @ [str] \<and>
    start_idx (pushed str mq) \<noteq> MQ_EMPTY_SENTINEL"
proof -
  let ?c = "capacity mq" and ?mq = "pushed str mq"
  define st where "st = (if start_idx mq = MQ_EMPTY_SENTINEL then 0 else start_idx mq)"
  have wf: "mq_wf mq" using inv by (simp add: mq_inv_def)
  note b = wf_bounds [OF wf] and old = ring_before_push [OF inv st_def]
  note len = pushed_length [OF inv not_full_indices [OF wf room]] and sl = strs_length [OF wf]
  have st: "0 \<le> st" "st < int ?c" using b by (auto simp: st_def)
  have "rotate (nat st) (messages ?mq) = (rotate (nat st) (messages mq))[get_length mq := Some str]"
    using rotate_update [of "get_length mq" "messages mq" "nat st" "Some str"] room b old
    by (simp add: pushed_def)
  also have "\<dots> = map Some (mq_strs mq @ [str]) @ replicate (?c - length (mq_strs mq @ [str])) None"
    using room sl old by (simp add: list_update_append Suc_diff_Suc [symmetric])
  finally have ring: "rotate (nat (start_idx ?mq)) (messages ?mq) =
      map Some (mq_strs mq @ [str]) @ replicate (capacity ?mq - length (mq_strs mq @ [str])) None"
    by (simp add: pushed_def st_def)
  have "mq_wf ?mq \<and> mq_strs ?mq = mq_strs mq @ [str]"
    using wf st len sl str ring
    by (intro wf_of_ring) (auto simp: mq_wf_def pushed_def st_def)
  then show ?thesis using st by (auto simp: mq_inv_def pushed_def st_def MQ_EMPTY_SENTINEL_def)
qed

lemma q_outcome:
  assumes inv: "mq_inv mq" and msg: "unat n \<le> length msg" and fit: "unat n \<le> MAX_MESSAGE_LENGTH"
    and room: "get_length mq < capacity mq"
  shows "\<exists>r mq' s'. message_queue__q (Some mq) (Some msg) n s = Some (r, Some mq', s') \<and>
    (mallocs_ok s \<longrightarrow> mallocs_ok s' \<and> r = 0) \<and>
    (if r = 0 then mq_inv mq' \<and> mq_items mq' = mq_items mq @ [take (unat n) msg] \<and>
         capacity mq' = capacity mq \<and> clients mq' = clients mq \<and> start_idx mq' \<noteq> MQ_EMPTY_SENTINEL \<and>
         live s' = live s + 1
     else r = MQERR_ALLOC_FAIL \<and> mq' = mq \<and> live s' = live s)"
proof -
  have wf: "mq_wf mq" using inv by (simp add: mq_inv_def)
  note b = wf_bounds [OF wf] and not_full = not_full_indices [OF wf room]
  have n: "unat n \<le> 2 ^ 64 - 19" using fit by (simp add: MAX_MESSAGE_LENGTH_def)
  obtain m s1 where m: "sdsnewlen (InitBytes msg) n s = Some (m, s1)"
    "mallocs_ok s \<longrightarrow> mallocs_ok s1"
    "case m of None \<Rightarrow> live s1 = live s \<and> \<not> mallocs_ok s
     | Some str \<Rightarrow> live s1 = live s + 1 \<and> sds_inv str \<and> sdslen str = n \<and> sdsalloc str = n \<and>
         type_of_sds str = (if n = 0 then SDS_TYPE_8 else sdsReqType n) \<and>
         init_content (InitBytes msg) (unat n) (sds_content str)"
    using sdsnewlen_outcome [OF n, of "InitBytes msg" s] msg by auto
  show ?thesis
  proof (cases m)
    case None
    with m not_full fit show ?thesis by (simp add: MQERR_ALLOC_FAIL_def)
  next
    case (Some str)
    have "message_queue__q (Some mq) (Some msg) n s = Some (0, Some (pushed str mq), s1)"
      using m(1) Some not_full fit b by (simp add: set_slot_in pushed_def)
    then show ?thesis
      using m Some fit pushed_ring [OF inv room, of str] by (simp add: mq_items_def pushed_def)
  qed
qed

lemma rotate_all_same:
  assumes "rotate n xs = replicate (length xs) v"
  shows "xs = replicate (length xs) v"
proof (rule replicate_eqI [OF refl])
  fix y assume "y \<in> set xs"
  then have "y \<in> set (rotate n xs)" by simp
  then show "y = v" unfolding assms by simp
qed

lemma taken_length:
  assumes "0 \<le> s" "s < int c" "0 \<le> e" "e < int c"
    and "start_idx mq = s" "end_idx mq = e" "capacity mq = c"
    and "start_idx mq1 = (s + 1) mod int c" "end_idx mq1 = e" "capacity mq1 = c"
  shows "(s + 1) mod int c = e \<longleftrightarrow> get_length mq = 1"
    and "get_length mq \<noteq> 1 \<Longrightarrow> get_length mq1 + 1 = get_length mq"
  using assms next_index [OF assms(1,2)]
  by (auto simp: get_length_def MQ_EMPTY_SENTINEL_def)

text \<open>The state after the first string has been taken: the empty sentinel when the start index
  reaches the end index.\<close>

definition popped :: "MessageQueue \<Rightarrow> MessageQueue" where
  "popped mq = (let start1 = (start_idx mq + 1) mod int (capacity mq) in
     mq\<lparr>messages := (messages mq)[nat (start_idx mq) := None],
        start_idx := (if start1 = end_idx mq then MQ_EMPTY_SENTINEL else start1)\<rparr>)"

lemma popped_slots:
  assumes wf: "mq_wf mq" and nonempty: "start_idx mq \<noteq> MQ_EMPTY_SENTINEL" and strs: "mq_strs mq = str # strs"
  shows "rotate (nat (start_idx mq)) (messages (popped mq)) =
    None # map Some strs @ replicate (capacity mq - get_length mq) None"
proof -
  let ?s = "nat (start_idx mq)"
  note b = wf_bounds [OF wf]
  have "(?s + 0) mod length (messages mq) = ?s" using b(5) [OF nonempty] b(2) by auto
  then have "rotate ?s (messages (popped mq)) = (rotate ?s (messages mq))[0 := None]"
    using rotate_update [of 0 "messages mq" ?s None] b(1,2) by (simp add: popped_def Let_def)
  then show ?thesis using wf nonempty strs by (simp add: mq_wf_def)
qed

lemma popped_empty:
  assumes wf: "mq_wf mq" and nonempty: "start_idx mq \<noteq> MQ_EMPTY_SENTINEL" and strs: "mq_strs mq = [str]"
    and last: "(start_idx mq + 1) mod int (capacity mq) = end_idx mq"
  shows "mq_wf (popped mq) \<and> mq_strs (popped mq) = []"
proof -
  note b = wf_bounds [OF wf]
  let ?msgs = "messages (popped mq)"
  have lm: "length ?msgs = capacity mq" using b(2) by (simp add: popped_def Let_def)
  have "get_length mq = 1" using strs_length [OF wf] strs by simp
  then have "rotate (nat (start_idx mq)) ?msgs = replicate (length ?msgs) None"
    using popped_slots [OF wf nonempty strs] lm b(1) by (simp add: Suc_diff_1 flip: replicate_Suc)
  then have "?msgs = replicate (capacity mq) None" using rotate_all_same lm by metis
  then show ?thesis
    using last b(1,3,4) wf lm
    unfolding mq_wf_def by (simp add: popped_def mq_strs_def MQ_EMPTY_SENTINEL_def Let_def)
qed

lemma popped_rest:
  assumes wf: "mq_wf mq" and nonempty: "start_idx mq \<noteq> MQ_EMPTY_SENTINEL" and strs: "mq_strs mq = str # strs"
    and rest: "(start_idx mq + 1) mod int (capacity mq) \<noteq> end_idx mq"
  shows "mq_wf (popped mq) \<and> mq_strs (popped mq) = strs"
proof -
  let ?c = "capacity mq" and ?s = "nat (start_idx mq)" and ?msgs = "messages (popped mq)"
  define st where "st = (start_idx mq + 1) mod int ?c"
  note b = wf_bounds [OF wf]
  note s = b(5) [OF nonempty]
  have n: "get_length mq = length strs + 1" using strs_length [OF wf] strs by simp
  have lm: "length ?msgs = ?c" using b(2) by (simp add: popped_def Let_def)
  have st: "0 \<le> st" "st < int ?c" using b(1) by (simp_all add: st_def)
  have new: "start_idx (popped mq) = st" "end_idx (popped mq) = end_idx mq" "capacity (popped mq) = ?c"
    "clients (popped mq) = clients mq"
    using rest by (simp_all add: popped_def st_def Let_def)
  have "get_length mq \<noteq> 1"
    using taken_length(1) [of "start_idx mq" ?c "end_idx mq" mq "popped mq"] s b(3,4) rest new
    by (simp add: st_def)
  then have ln: "get_length (popped mq) = length strs"
    using taken_length(2) [of "start_idx mq" ?c "end_idx mq" mq "popped mq"] s b(3,4) n new
    by (simp add: st_def)
  have "nat st = (?s + 1) mod length ?msgs"
    using s lm by (simp add: st_def nat_mod_distrib nat_add_distrib)
  then have "rotate (nat st) ?msgs = rotate (Suc ?s) ?msgs"
    using rotate_conv_mod [of "Suc ?s" ?msgs] by simp
  also have "\<dots> = map Some strs @ replicate (?c - get_length mq) None @ [None]"
    using popped_slots [OF wf nonempty strs] by simp
  also have "\<dots> = map Some strs @ replicate (?c - length strs) None"
    using n length_bounds [OF wf nonempty]
    by (simp add: replicate_append_same Suc_diff_Suc flip: replicate_Suc)
  finally have "rotate (nat (start_idx (popped mq))) ?msgs =
      map Some strs @ replicate (capacity (popped mq) - length strs) None"
    by (simp add: new)
  then show ?thesis
    using wf st ln new strs lm by (intro wf_of_ring) (auto simp: mq_wf_def)
qed

lemma popped_ring:
  assumes wf: "mq_wf mq" and nonempty: "start_idx mq \<noteq> MQ_EMPTY_SENTINEL" and strs: "mq_strs mq = str # strs"
  shows "mq_wf (popped mq) \<and> mq_strs (popped mq) = strs \<and>
    (start_idx (popped mq) = MQ_EMPTY_SENTINEL \<longleftrightarrow> get_length mq = 1)"
proof -
  let ?st = "(start_idx mq + 1) mod int (capacity mq)"
  note b = wf_bounds [OF wf]
  have n: "get_length mq = length strs + 1" using strs_length [OF wf] strs by simp
  have last: "?st = end_idx mq \<longleftrightarrow> get_length mq = 1"
    using taken_length(1) [of "start_idx mq" "capacity mq" "end_idx mq" mq "mq\<lparr>start_idx := ?st\<rparr>"]
      b(5) [OF nonempty] b(3,4) by simp
  have "0 \<le> ?st" using b(1) by simp
  then have "start_idx (popped mq) = MQ_EMPTY_SENTINEL \<longleftrightarrow> get_length mq = 1"
    using last by (auto simp: popped_def MQ_EMPTY_SENTINEL_def Let_def)
  then show ?thesis
    using popped_rest [OF wf nonempty strs] popped_empty [OF wf nonempty, of str] strs last n
    by (cases "?st = end_idx mq") auto
qed

lemma dq_outcome:
  assumes wf: "mq_wf mq" and nonempty: "start_idx mq \<noteq> MQ_EMPTY_SENTINEL"
  shows "\<exists>r mq' s'. message_queue__dq (Some mq) s = Some (r, Some mq', s') \<and>
    (mallocs_ok s \<longrightarrow> mallocs_ok s' \<and> r \<noteq> None) \<and> live s' = live s \<and>
    (case r of
       None \<Rightarrow> mq' = mq
     | Some str \<Rightarrow> sds_inv str \<and> mq_items mq = sds_content str # mq_items mq' \<and> mq_wf mq' \<and>
         capacity mq' = capacity mq \<and> clients mq' = clients mq \<and> end_idx mq' = end_idx mq \<and>
         (start_idx mq' = MQ_EMPTY_SENTINEL \<longleftrightarrow> get_length mq = 1))"
proof -
  note b = wf_bounds [OF wf]
  note s = b(5) [OF nonempty] and len = length_bounds [OF wf nonempty]
  obtain str strs where strs: "mq_strs mq = str # strs"
    using strs_length [OF wf] len by (cases "mq_strs mq") auto
  have good: "sds_inv str" "unat (sdslen str) \<le> 2 ^ 64 - 19"
    using wf strs by (auto simp: mq_wf_def MAX_MESSAGE_LENGTH_def)
  have sl: "slot mq (start_idx mq) = Some (Some str)"
    using ring_slot [OF wf nonempty, of 0] len b(1) s strs by simp
  obtain r s1 where r: "sdsdup (Some str) s = Some (r, s1)" "mallocs_ok s \<longrightarrow> mallocs_ok s1"
    "case r of None \<Rightarrow> live s1 = live s \<and> \<not> mallocs_ok s
     | Some c \<Rightarrow> live s1 = live s + 1 \<and> sds_inv c \<and> sds_content c = sds_content str"
    using sdsdup_outcome [OF good] by blast
  show ?thesis
  proof (cases r)
    case None
    with r sl nonempty show ?thesis by (simp del: sdsdup.simps)
  next
    case (Some copy)
    have "message_queue__dq (Some mq) s = Some (Some copy, Some (popped mq), sdsfree (Some str) s1)"
      using r(1) Some sl nonempty s b(2)
      by (simp add: set_slot_in popped_def Let_def del: sdsdup.simps)
    moreover have "capacity (popped mq) = capacity mq" "clients (popped mq) = clients mq"
      "end_idx (popped mq) = end_idx mq"
      by (simp_all add: popped_def Let_def)
    ultimately show ?thesis
      using r(2,3) Some strs popped_ring [OF wf nonempty strs]
      by (simp add: mq_items_def sdsfree_def del: message_queue__dq.simps)
  qed
qed

section \<open>Looking and leaving\<close>

lemma wf_str:
  assumes "mq_wf mq" and "k < length (mq_strs mq)"
  shows "sds_inv (mq_strs mq ! k) \<and> unat (sdslen (mq_strs mq ! k)) \<le> 2 ^ 64 - 19"
proof -
  have "mq_strs mq ! k \<in> set (mq_strs mq)" using assms(2) by simp
  then have "sds_inv (mq_strs mq ! k) \<and> unat (sdslen (mq_strs mq ! k)) \<le> MAX_MESSAGE_LENGTH"
    using assms(1) unfolding mq_wf_def by blast
  then show ?thesis by (simp add: MAX_MESSAGE_LENGTH_def)
qed

lemma get_outcome:
  assumes wf: "mq_wf mq" and k: "k < get_length mq"
  shows "\<exists>r s'. message_queue__get (Some mq) k s = Some (r, s') \<and>
    (mallocs_ok s \<longrightarrow> r \<noteq> None) \<and>
    (case r of None \<Rightarrow> live s' = live s
     | Some str \<Rightarrow> sds_inv str \<and> sds_content str = mq_items mq ! k \<and> live s' = live s + 1)"
proof -
  have st: "start_idx mq \<noteq> MQ_EMPTY_SENTINEL" using k by (auto simp: get_length_def)
  have kc: "k < capacity mq" using k length_bounds [OF wf st] by simp
  have n: "k < length (mq_strs mq)" using k strs_length [OF wf] by simp
  then have good: "sds_inv (mq_strs mq ! k)" "unat (sdslen (mq_strs mq ! k)) \<le> 2 ^ 64 - 19"
    using wf_str [OF wf] by simp_all
  have "slot mq ((start_idx mq + int k) mod int (capacity mq)) = Some (Some (mq_strs mq ! k))"
    using ring_slot [OF wf st kc] k by simp
  then have "message_queue__get (Some mq) k s = sdsdup (Some (mq_strs mq ! k)) s"
    using st k by (simp del: sdsdup.simps)
  moreover obtain r s' where "sdsdup (Some (mq_strs mq ! k)) s = Some (r, s')"
    "case r of None \<Rightarrow> live s' = live s \<and> \<not> mallocs_ok s
     | Some c \<Rightarrow> live s' = live s + 1 \<and> sds_inv c \<and> sds_content c = sds_content (mq_strs mq ! k)"
    using sdsdup_outcome [OF good] by blast
  ultimately show ?thesis
    using n by (intro exI [of _ r] exI [of _ s']) (auto simp: mq_items_def split: option.splits)
qed

lemma empty_mq:
  assumes "0 < c" and "c < 2 ^ 60"
  shows "mq_inv \<lparr>capacity = c, messages = replicate c None, start_idx = MQ_EMPTY_SENTINEL,
      end_idx = 0, clients = []\<rparr> \<and>
    mq_items \<lparr>capacity = c, messages = replicate c None, start_idx = MQ_EMPTY_SENTINEL,
      end_idx = 0, clients = []\<rparr> = []"
  using assms by (simp add: mq_inv_def mq_wf_def mq_items_def mq_strs_def MQ_EMPTY_SENTINEL_def)

lemma init_mq:
  assumes "message_queue__init cap s = (Some mq, s')" and "unat cap < 2 ^ 60"
  shows "mq_inv mq \<and> mq_items mq = [] \<and> clients mq = [] \<and> capacity mq = unat cap \<and>
    live s' = live s + 2"
proof -
  have mul: "unat (8 * cap) div 8 = unat cap"
    using assms(2) by (simp add: unat_word_ariths)
  obtain a s1 where a: "alloc_object s = (a, s1)" by fastforce
  obtain b s2 where b: "alloc_object s1 = (b, s2)" by fastforce
  have r: "cap \<noteq> 0" "a" "b" "s' = s2"
    "mq = \<lparr>capacity = unat cap, messages = replicate (unat cap) None,
            start_idx = MQ_EMPTY_SENTINEL, end_idx = 0, clients = []\<rparr>"
    using assms(1) a b mul by (auto simp: message_queue__init_def split: if_splits bool.splits)
  have "0 < unat cap" using r(1) by (simp add: unat_gt_0)
  from empty_mq [OF this assms(2)] have "mq_inv mq \<and> mq_items mq = []" unfolding r(5) .
  then show ?thesis
    using r alloc_object_frame [OF a] alloc_object_frame [OF b] by simp
qed

text \<open>What the loop of \<open>message_queue__free\<close> releases: the strings behind the index.\<close>

lemma distance_to_end:
  assumes "mq_wf mq" and "start_idx mq \<noteq> MQ_EMPTY_SENTINEL" and "k \<le> get_length mq"
    and "get_length mq < capacity mq \<or> 0 < k"
  shows "(start_idx mq + int k) mod int (capacity mq) = end_idx mq \<longleftrightarrow> k = get_length mq"
proof -
  let ?c = "int (capacity mq)" and ?n = "get_length mq"
  note l = length_bounds [OF assms(1,2)]
  have "k = ?n" if "(start_idx mq + int k) mod ?c = end_idx mq"
  proof -
    have "(start_idx mq + int k - start_idx mq) mod ?c = (start_idx mq + int ?n - start_idx mq) mod ?c"
      using that l by (intro mod_diff_cong) simp_all
    then have eq: "int k mod ?c = int ?n mod ?c" by simp
    show ?thesis
    proof (cases "?n = capacity mq")
      case True
      then have "int k mod ?c = 0" using eq by simp
      with assms(3,4) True show ?thesis
        by (metis l less_le nat_less_le mod_pos_pos_trivial of_nat_0_le_iff of_nat_eq_0_iff of_nat_less_iff less_irrefl)
    next
      case False
      with l assms(3) eq show ?thesis by simp
    qed
  qed
  with l show ?thesis by auto
qed

lemma next_slot:
  "((s + int k) mod int c + 1) mod int c = (s + int (Suc k)) mod int c"
  unfolding mod_add_left_eq by (simp add: ac_simps)

lemma free_loop_outcome:
  assumes "mq_wf mq" and "start_idx mq \<noteq> MQ_EMPTY_SENTINEL" and "get_length mq < capacity mq"
  shows "k \<le> get_length mq \<Longrightarrow>
    \<exists>s'. free_loop mq ((start_idx mq + int k) mod int (capacity mq)) s = Some s' \<and>
      live s' = live s - int (get_length mq - k)"
proof (induction "get_length mq - k" arbitrary: k s)
  case 0
  then show ?case
    using distance_to_end [OF assms(1,2), of k] assms(3) by (simp add: free_loop.simps)
next
  case (Suc d)
  then have k: "k < get_length mq" by simp
  have ne: "(start_idx mq + int k) mod int (capacity mq) \<noteq> end_idx mq"
    using distance_to_end [OF assms(1,2), of k] assms(3) k by simp
  have sl: "slot mq ((start_idx mq + int k) mod int (capacity mq)) = Some (Some (mq_strs mq ! k))"
    using ring_slot [OF assms(1,2), of k] k assms(3) by simp
  let ?s = "sdsfree (Some (mq_strs mq ! k)) s"
  have d: "d = get_length mq - Suc k" using Suc.hyps(2) by simp
  obtain s' where s': "free_loop mq ((start_idx mq + int (Suc k)) mod int (capacity mq)) ?s = Some s'"
    "live s' = live ?s - int (get_length mq - Suc k)"
    using Suc.hyps(1) [OF d, of ?s] Suc_leI [OF k] by blast
  have "free_loop mq ((start_idx mq + int k) mod int (capacity mq)) s = Some s'"
    using ne sl s'(1) by (subst free_loop.simps) (simp add: next_slot del: of_nat_Suc)
  then show ?case using s'(2) k by (auto simp: sdsfree_def)
qed

section \<open>Clients\<close>

text \<open>Writing messages one after the other until a write fails: how many, and the descriptor
  afterwards.\<close>

fun send_all :: "byte list list \<Rightarrow> os \<Rightarrow> nat \<times> os" where
  "send_all [] c = (0, c)"
| "send_all (m # ms) c =
     (case sys_write m c of
        (Inl e, c1) \<Rightarrow> (0, c1)
      | (Inr n, c1) \<Rightarrow> (let (k, c2) = send_all ms c1 in (Suc k, c2)))"

lemma send_all_le: "fst (send_all ms c) \<le> length ms"
  by (induction ms arbitrary: c) (auto simp: split_def Let_def split: sum.splits)

lemma content_load:
  "sds_inv str \<Longrightarrow> mem_load (sds_buf str) 0 (unat (sdslen str)) = Some (sds_content str)"
  by (simp add: sds_inv_def sds_content_def mem_simps)

lemma flush_loop_outcome:
  assumes wf: "mq_wf mq" and st: "start_idx mq \<noteq> MQ_EMPTY_SENTINEL"
  shows "k \<le> get_length mq \<Longrightarrow> get_length mq < capacity mq \<or> 0 < k \<Longrightarrow>
    flush_loop mq fd ((start_idx mq + int k) mod int (capacity mq)) net =
      (let (j, c) = send_all (drop k (mq_items mq)) (net fd); all = (j = get_length mq - k) in
       Some (all, if all then end_idx mq else (start_idx mq + int (k + j)) mod int (capacity mq),
             net(fd := c)))"
proof (induction "get_length mq - k" arbitrary: k net)
  case 0
  then show ?case
    using distance_to_end [OF wf st, of k] items_length [OF wf]
    by (simp add: flush_loop.simps fun_eq_iff)
next
  case (Suc d)
  then have k: "k < get_length mq" "k < capacity mq" using length_bounds [OF wf st] by auto
  let ?i = "(start_idx mq + int k) mod int (capacity mq)"
  let ?str = "mq_strs mq ! k"
  have ne: "?i \<noteq> end_idx mq" using distance_to_end [OF wf st, of k] Suc.prems k by simp
  have sl: "slot mq ?i = Some (Some ?str)" using ring_slot [OF wf st k(2)] k(1) by simp
  have n: "k < length (mq_strs mq)" using k(1) strs_length [OF wf] by simp
  then have good: "sds_inv ?str" using wf by (simp add: mq_wf_def)
  have items: "drop k (mq_items mq) = sds_content ?str # drop (Suc k) (mq_items mq)"
    using n by (simp add: mq_items_def Cons_nth_drop_Suc [symmetric])
  obtain r c where w: "sys_write (sds_content ?str) (net fd) = (r, c)" by fastforce
  show ?case
  proof (cases r)
    case (Inl e)
    then have "flush_loop mq fd ?i net = Some (False, ?i, net(fd := c))"
      using ne sl content_load [OF good] w by (subst flush_loop.simps) simp
    then show ?thesis using k(1) Inl w unfolding items by simp
  next
    case (Inr m)
    let ?net = "net(fd := c)"
    have "flush_loop mq fd ?i net =
        flush_loop mq fd ((start_idx mq + int (Suc k)) mod int (capacity mq)) ?net"
      using ne sl content_load [OF good] w Inr
      by (subst flush_loop.simps) (simp add: next_slot del: of_nat_Suc)
    also have "\<dots> =
      (let (j, c) = send_all (drop (Suc k) (mq_items mq)) (?net fd); all = (j = get_length mq - Suc k) in
       Some (all, if all then end_idx mq else (start_idx mq + int (Suc k + j)) mod int (capacity mq),
             ?net(fd := c)))"
      using Suc.hyps(1) [of "Suc k" ?net] Suc.hyps(2) k by simp
    finally show ?thesis
      using w Inr k(1) unfolding items
      by (auto simp: Let_def add.left_commute split: prod.splits)
  qed
qed

lemma drop_loop_filter:
  "fst (drop_loop mq cs s) = filter (\<lambda>c. \<not> client_off mq c < drop_before_offset mq) cs"
  "live (snd (drop_loop mq cs s)) =
     live s - int (length (filter (\<lambda>c. client_off mq c < drop_before_offset mq) cs))"
  by (induction cs arbitrary: s) (auto simp: split_def Let_def)

section \<open>Contract\<close>

text \<open>Calls on a queue of messages and what they return: a code, or the message taken.\<close>

datatype queue_call = Put "byte list" | Take

datatype queue_reply = Code int | Taken "byte list option"

fun do_queue_call ::
    "(byte list \<Rightarrow> 'q \<Rightarrow> (int \<times> 'q) option) \<Rightarrow> ('q \<Rightarrow> (byte list option \<times> 'q) option) \<Rightarrow>
     queue_call \<Rightarrow> 'q \<Rightarrow> (queue_reply \<times> 'q) option" where
  "do_queue_call put get (Put m) q = map_option (apfst Code) (put m q)"
| "do_queue_call put get Take q = map_option (apfst Taken) (get q)"

fun queue_calls ::
    "(byte list \<Rightarrow> 'q \<Rightarrow> (int \<times> 'q) option) \<Rightarrow> ('q \<Rightarrow> (byte list option \<times> 'q) option) \<Rightarrow>
     queue_call list \<Rightarrow> 'q \<Rightarrow> (queue_reply list \<times> 'q) option" where
  "queue_calls put get [] q = Some ([], q)"
| "queue_calls put get (c # cs) q =
     do {
       (r, q1) \<leftarrow> do_queue_call put get c q;
       (rs, q2) \<leftarrow> queue_calls put get cs q1;
       Some (r # rs, q2)
     }"

definition mq_fits :: "byte list \<Rightarrow> bool" where
  "mq_fits msg \<longleftrightarrow> length msg \<le> MAX_MESSAGE_LENGTH"

text \<open>The same on a list of at most \<open>cap\<close> messages.\<close>

fun fifo_call :: "nat \<Rightarrow> queue_call \<Rightarrow> byte list list \<Rightarrow> queue_reply \<times> byte list list" where
  "fifo_call cap (Put m) ms =
     (if length ms = cap then (Code MQERR_FULL, ms)
      else if mq_fits m then (Code 0, ms @ [m])
      else (Code MQERR_MESSAGE_TOO_LONG, ms))"
| "fifo_call cap Take [] = (Taken None, [])"
| "fifo_call cap Take (m # ms) = (Taken (Some m), ms)"

fun fifo_calls :: "nat \<Rightarrow> queue_call list \<Rightarrow> byte list list \<Rightarrow> queue_reply list \<times> byte list list" where
  "fifo_calls cap [] ms = ([], ms)"
| "fifo_calls cap (c # cs) ms =
     (let (r, ms1) = fifo_call cap c ms; (rs, ms2) = fifo_calls cap cs ms1 in (r # rs, ms2))"

text \<open>Whether the calls never store a message in an empty ring of \<open>cap\<close> slots whose end index is not 0,
  where \<open>n\<close> messages have been stored so far.\<close>

fun reuse_allowed :: "nat \<Rightarrow> nat \<Rightarrow> queue_call list \<Rightarrow> byte list list \<Rightarrow> bool" where
  "reuse_allowed cap n [] ms \<longleftrightarrow> True"
| "reuse_allowed cap n (Put m # cs) ms \<longleftrightarrow>
     (if length ms = cap \<or> \<not> mq_fits m then reuse_allowed cap n cs ms
      else (ms = [] \<longrightarrow> n mod cap = 0) \<and> reuse_allowed cap (n + 1) cs (ms @ [m]))"
| "reuse_allowed cap n (Take # cs) ms \<longleftrightarrow> reuse_allowed cap n cs (tl ms)"

text \<open>What a client may rely on. \<open>fill\<close> is the slot for the next message; in an empty ring it must be
  0 for another message to be kept.\<close>

locale bounded_fifo =
  fixes valid :: "'q \<Rightarrow> bool"
    and items :: "'q \<Rightarrow> byte list list"
    and cap :: "'q \<Rightarrow> nat"
    and fill :: "'q \<Rightarrow> nat"
    and plenty :: "'q \<Rightarrow> bool"
    and put :: "byte list \<Rightarrow> 'q \<Rightarrow> (int \<times> 'q) option"
    and get :: "'q \<Rightarrow> (byte list option \<times> 'q) option"
  assumes put_room: "valid q \<Longrightarrow> plenty q \<Longrightarrow> length (items q) < cap q \<Longrightarrow> mq_fits m \<Longrightarrow>
      items q = [] \<longrightarrow> fill q = 0 \<Longrightarrow>
      \<exists>q'. put m q = Some (0, q') \<and> valid q' \<and> plenty q' \<and> cap q' = cap q \<and>
        items q' = items q @ [m] \<and> fill q' = Suc (fill q) mod cap q"
    and put_full: "valid q \<Longrightarrow> length (items q) = cap q \<Longrightarrow> put m q = Some (MQERR_FULL, q)"
    and put_long: "valid q \<Longrightarrow> length (items q) < cap q \<Longrightarrow> \<not> mq_fits m \<Longrightarrow> length m < 2 ^ 64 \<Longrightarrow>
      put m q = Some (MQERR_MESSAGE_TOO_LONG, q)"
    and get_none: "valid q \<Longrightarrow> items q = [] \<Longrightarrow> get q = Some (None, q)"
    and get_first: "valid q \<Longrightarrow> plenty q \<Longrightarrow> items q = m # ms \<Longrightarrow>
      \<exists>q'. get q = Some (Some m, q') \<and> valid q' \<and> plenty q' \<and> cap q' = cap q \<and>
        items q' = ms \<and> fill q' = fill q"
    and items_cap: "valid q \<Longrightarrow> length (items q) \<le> cap q"
begin

lemma call_refines:
  assumes "valid q" and "plenty q" and "fill q = n mod cap q"
    and "reuse_allowed (cap q) n (c # cs) (items q)" and "\<forall>m. c = Put m \<longrightarrow> length m < 2 ^ 64"
  shows "\<exists>r q' n'. do_queue_call put get c q = Some (r, q') \<and> fifo_call (cap q) c (items q) = (r, items q') \<and>
    valid q' \<and> plenty q' \<and> cap q' = cap q \<and> fill q' = n' mod cap q \<and>
    reuse_allowed (cap q) n' cs (items q')"
proof (cases c)
  case (Put m)
  consider "length (items q) = cap q" | "length (items q) < cap q" "\<not> mq_fits m"
    | "length (items q) < cap q" "mq_fits m"
    using items_cap [OF assms(1)] by linarith
  then show ?thesis
  proof cases
    case 1
    then show ?thesis using Put assms put_full [OF assms(1), of m] by auto
  next
    case 2
    then show ?thesis using Put assms put_long [OF assms(1) 2] by auto
  next
    case 3
    then have ok: "items q = [] \<longrightarrow> fill q = 0" "reuse_allowed (cap q) (n + 1) cs (items q @ [m])"
      using Put assms(3,4) by simp_all
    obtain q' where q': "put m q = Some (0, q')" "valid q'" "plenty q'" "cap q' = cap q"
      "items q' = items q @ [m]" "fill q' = Suc (fill q) mod cap q"
      using put_room [OF assms(1,2) 3 ok(1)] by blast
    have "fill q' = (n + 1) mod cap q" using q'(6) assms(3) by (simp add: mod_Suc_eq)
    then show ?thesis
      using Put 3 q' ok(2) by (intro exI [of _ "Code 0"] exI [of _ q'] exI [of _ "n + 1"]) simp
  qed
next
  case Take
  show ?thesis
  proof (cases "items q")
    case Nil
    then show ?thesis using Take assms get_none [OF assms(1)] by auto
  next
    case (Cons m ms)
    obtain q' where "get q = Some (Some m, q')" "valid q'" "plenty q'" "cap q' = cap q"
      "items q' = ms" "fill q' = fill q"
      using get_first [OF assms(1,2) Cons] by blast
    then show ?thesis
      using Take Cons assms by (intro exI [of _ "Taken (Some m)"] exI [of _ q'] exI [of _ n]) simp
  qed
qed

text \<open>Every sequence of calls, as on a list.\<close>

lemma calls_refine:
  "valid q \<Longrightarrow> plenty q \<Longrightarrow> fill q = n mod cap q \<Longrightarrow> reuse_allowed (cap q) n cs (items q) \<Longrightarrow>
     \<forall>m. Put m \<in> set cs \<longrightarrow> length m < 2 ^ 64 \<Longrightarrow>
     \<exists>rs q'. queue_calls put get cs q = Some (rs, q') \<and> valid q' \<and>
       fifo_calls (cap q) cs (items q) = (rs, items q')"
proof (induction cs arbitrary: q n)
  case Nil
  then show ?case by simp
next
  case (Cons c cs)
  obtain r q1 n1 where c: "do_queue_call put get c q = Some (r, q1)"
    "fifo_call (cap q) c (items q) = (r, items q1)" "valid q1" "plenty q1" "cap q1 = cap q"
    "fill q1 = n1 mod cap q" "reuse_allowed (cap q) n1 cs (items q1)"
    using call_refines [OF Cons.prems(1-4)] Cons.prems(5) by auto
  then show ?case using Cons.IH [of q1 n1] Cons.prems(5) by auto
qed

end

text \<open>The ring as a queue of byte strings, in the memory of the process.\<close>

definition mq_put :: "byte list \<Rightarrow> MessageQueue \<times> os \<Rightarrow> (int \<times> MessageQueue \<times> os) option" where
  "mq_put msg q =
     do {
       (r, p, s1) \<leftarrow> message_queue__q (Some (fst q)) (Some msg) (of_nat (length msg)) (snd q);
       mq1 \<leftarrow> p;
       Some (r, mq1, s1)
     }"

definition mq_get :: "MessageQueue \<times> os \<Rightarrow> (byte list option \<times> MessageQueue \<times> os) option" where
  "mq_get q =
     do {
       (r, p, s1) \<leftarrow> message_queue__dq (Some (fst q)) (snd q);
       mq1 \<leftarrow> p;
       Some (map_option sds_content r, mq1, s1)
     }"

lemma full_iff_wf:
  assumes wf: "mq_wf mq"
  shows "end_idx mq = start_idx mq \<longleftrightarrow> get_length mq = capacity mq"
proof -
  note b = wf_bounds [OF wf]
  show ?thesis
  proof (cases "start_idx mq = MQ_EMPTY_SENTINEL")
    case True
    then show ?thesis using b(1,3) by (simp add: get_length_def MQ_EMPTY_SENTINEL_def)
  next
    case False
    then show ?thesis using b(1,3,4) b(5) [OF False] by (auto simp: get_length_def)
  qed
qed

lemma full_iff: "mq_inv mq \<Longrightarrow> end_idx mq = start_idx mq \<longleftrightarrow> get_length mq = capacity mq"
  by (simp add: mq_inv_def full_iff_wf)

lemma q_full:
  assumes "mq_inv mq" and "get_length mq = capacity mq"
  shows "message_queue__q (Some mq) (Some msg) n s = Some (MQERR_FULL, Some mq, s)"
  using full_iff [OF assms(1)] assms(2) by simp

lemma q_end_index:
  "message_queue__q (Some mq) (Some msg) n s = Some (0, Some mq', s') \<Longrightarrow>
     end_idx mq' = (end_idx mq + 1) mod int (capacity mq)"
  by (auto simp: set_slot_def MQERR_FULL_def MQERR_MESSAGE_TOO_LONG_def MQERR_ALLOC_FAIL_def
      split: if_splits bind_splits)

lemma put_stored:
  assumes wf: "mq_wf (fst q)" and ok: "mallocs_ok (snd q)" and room: "length (mq_items (fst q)) < capacity (fst q)"
    and fit: "mq_fits m" and again: "mq_items (fst q) = [] \<longrightarrow> nat (end_idx (fst q)) = 0"
  shows "\<exists>q'. mq_put m q = Some (0, q') \<and> mq_wf (fst q') \<and> mallocs_ok (snd q') \<and>
    capacity (fst q') = capacity (fst q) \<and> mq_items (fst q') = mq_items (fst q) @ [m] \<and>
    nat (end_idx (fst q')) = Suc (nat (end_idx (fst q))) mod capacity (fst q)"
proof -
  note b = wf_bounds [OF wf]
  have "mq_items (fst q) = []" if "start_idx (fst q) = MQ_EMPTY_SENTINEL"
    using that by (simp add: mq_items_def mq_strs_def)
  then have inv: "mq_inv (fst q)" using wf again b(3) by (auto simp: mq_inv_def)
  have n: "unat (of_nat (length m) :: size_t) = length m"
    using fit by (simp add: mq_fits_def MAX_MESSAGE_LENGTH_def unat_of_nat_size)
  obtain mq' s' where o: "message_queue__q (Some (fst q)) (Some m) (of_nat (length m)) (snd q) =
      Some (0, Some mq', s')" "mallocs_ok s'" "mq_inv mq'" "mq_items mq' = mq_items (fst q) @ [m]"
    "capacity mq' = capacity (fst q)"
    using q_outcome [OF inv, of "of_nat (length m)" m "snd q"] fit room ok items_length [OF wf]
    unfolding mq_fits_def n by auto
  have "nat (end_idx mq') = Suc (nat (end_idx (fst q))) mod capacity (fst q)"
    unfolding q_end_index [OF o(1)] using b(1,3) by (simp add: nat_mod_distrib nat_add_distrib)
  moreover have "mq_put m q = Some (0, mq', s')"
    using o(1) by (simp add: mq_put_def del: message_queue__q.simps)
  ultimately show ?thesis using o by (auto simp: mq_inv_def)
qed

interpretation mqf: bounded_fifo "\<lambda>q. mq_wf (fst q)" "\<lambda>q. mq_items (fst q)" "\<lambda>q. capacity (fst q)"
  "\<lambda>q. nat (end_idx (fst q))" "\<lambda>q. mallocs_ok (snd q)" mq_put mq_get
proof (unfold_locales, goal_cases)
  case (1 q m)
  then show ?case by (intro put_stored) simp_all
next
  case (2 q m)
  then have "end_idx (fst q) = start_idx (fst q)" using full_iff_wf items_length by simp
  then show ?case by (simp add: mq_put_def)
next
  case (3 q m)
  then have "end_idx (fst q) \<noteq> start_idx (fst q)" using full_iff_wf items_length by fastforce
  moreover have "unat (of_nat (length m) :: size_t) = length m" using 3(4) by (simp add: unat_of_nat_size)
  ultimately show ?case using 3(3) by (simp add: mq_put_def mq_fits_def)
next
  case (4 q)
  then have "get_length (fst q) = 0" using items_length [of "fst q"] by simp
  then have "start_idx (fst q) = MQ_EMPTY_SENTINEL" using length_bounds [OF 4(1)] by auto
  then show ?case by (simp add: mq_get_def)
next
  case (5 q m ms)
  have st: "start_idx (fst q) \<noteq> MQ_EMPTY_SENTINEL" using 5(3) by (auto simp: mq_items_def mq_strs_def)
  obtain r mq' s' where d: "message_queue__dq (Some (fst q)) (snd q) = Some (r, Some mq', s')"
    "mallocs_ok s'" "r \<noteq> None"
    "case r of None \<Rightarrow> mq' = fst q
     | Some str \<Rightarrow> sds_inv str \<and> mq_items (fst q) = sds_content str # mq_items mq' \<and> mq_wf mq' \<and>
         capacity mq' = capacity (fst q) \<and> clients mq' = clients (fst q) \<and>
         end_idx mq' = end_idx (fst q) \<and>
         (start_idx mq' = MQ_EMPTY_SENTINEL \<longleftrightarrow> get_length (fst q) = 1)"
    using dq_outcome [OF 5(1) st, of "snd q"] 5(2) by blast
  have "mq_get q = Some (map_option sds_content r, mq', s')"
    using d(1) by (simp add: mq_get_def del: message_queue__dq.simps)
  then show ?case using d(2-4) 5(3) by (auto split: option.splits)
next
  case (6 q)
  have "length (mq_items (fst q)) = get_length (fst q)" using 6 by (rule items_length)
  also have "\<dots> \<le> capacity (fst q)"
    using length_bounds [OF 6] by (cases "start_idx (fst q) = MQ_EMPTY_SENTINEL") (simp_all add: get_length_def)
  finally show ?case .
qed

end
