(* ===== verification/PollServer.thy ===== *)
theory PollServer
  imports Fds MessageQueue
begin

text \<open>
  The chat server of \<open>tcp/polling\<close>: the event handlers and the loop of \<open>poll_server_impl.c\<close>
  over the watch list (\<open>Fds\<close>) and the message ring (\<open>MessageQueue\<close>). What \<open>ppoll\<close> and
  \<open>accept\<close> answer is an input of the model; every descriptor has its own stream of bytes.
\<close>

section \<open>The model\<close>

definition MAX_NUM_OF_CLIENTS :: size_t where
  "MAX_NUM_OF_CLIENTS = 64000"

record server =
  fdstate :: Fds
  mqueue :: "MessageQueue option"
  heap :: os
  conn :: conns
  accepts :: "(int \<times> os) option list"  \<comment> \<open>the coming connections, \<open>None\<close> a failed \<open>accept\<close>\<close>
  closed :: "int list"      \<comment> \<open>descriptors that were closed\<close>
  log :: "diag list"

definition say :: "diag \<Rightarrow> server \<Rightarrow> server" where
  "say d st = st\<lparr>log := log st @ [d]\<rparr>"

text \<open>A handler returns a code, or leaves the process through \<open>err_exit\<close>.\<close>

datatype handled = Returned int server | Exited diag server

text \<open>The three calls that end a connection.\<close>

definition drop_client :: "int \<Rightarrow> server \<Rightarrow> server option" where
  "drop_client clientfd st =
     do {
       (rv, fs) \<leftarrow> fd_state__unwatch (fdstate st) clientfd;
       (let (rv2, q, h) = message_queue__unregister_client (mqueue st) clientfd (heap st) in
        Some (st\<lparr>fdstate := fs, mqueue := q, heap := h, closed := closed st @ [clientfd]\<rparr>))
     }"

text \<open>\<open>readbuf\<close> is zeroed before the \<open>read\<close>.\<close>

definition readbuf :: "byte list \<Rightarrow> byte list" where
  "readbuf bs = bs @ replicate (MAX_MESSAGE_LENGTH - length bs) 0"

text \<open>One attempt to queue what was read.\<close>

definition enqueue :: "byte list \<Rightarrow> server \<Rightarrow> (int \<times> server) option" where
  "enqueue bs st =
     do {
       (r, q, h) \<leftarrow> message_queue__q (mqueue st) (Some (readbuf bs)) (of_nat (length bs)) (heap st);
       Some (r, st\<lparr>mqueue := q, heap := h\<rparr>)
     }"

definition drop_slow :: "server \<Rightarrow> server" where
  "drop_slow st =
     (let (q, h) = message_queue__drop_slow_consumers (mqueue st) (heap st)
      in st\<lparr>mqueue := q, heap := h\<rparr>)"

text \<open>What follows the first attempt to queue a message, in the order of the tests.\<close>

definition after_q :: "byte list \<Rightarrow> int \<Rightarrow> server \<Rightarrow> handled option" where
  "after_q bs mq_err st =
     (if mq_err = MQERR_NULL_POINTER
      then Some (Returned (- 2) (say (Barf ''message queue is null fundamentally wrong, better restart'') st))
      else
        do {
          (mq_err1, st1) \<leftarrow>
            (if mq_err = MQERR_FULL then enqueue bs (drop_slow st) else Some (mq_err, st));
          if mq_err = MQERR_FULL \<and> mq_err1 = MQERR_FULL
          then Some (Returned (- 55) (say (Barf ''EAGAIN, push back on client to send data again'') st1))
          else if mq_err1 = MQERR_ALLOC_FAIL
          then Some (Returned (- 3) (say (Barf ''Message Queue Allocation Failure.'') st1))
          else if mq_err1 = MQERR_MESSAGE_TOO_LONG
          then Some (Exited (Perror ''Message too long that is enqueued, programming error!! PLEASE FIX'') st1)
          else Some (Returned 0 st1)
        })"

definition handle_client_event :: "pollfd \<Rightarrow> server \<Rightarrow> handled option" where
  "handle_client_event event st =
     (let clientfd = pfd event; revent = revents event in
      if revent AND POLLIN \<noteq> 0 then
        (let (r, c) = sys_read MAX_MESSAGE_LENGTH (conn st clientfd);
             st1 = st\<lparr>conn := (conn st)(clientfd := c)\<rparr>
         in
         case r of
           Inl e \<Rightarrow> do { st2 \<leftarrow> drop_client clientfd st1; Some (Returned 0 st2) }
         | Inr bs \<Rightarrow>
             if bs = [] then do { st2 \<leftarrow> drop_client clientfd st1; Some (Returned 0 st2) }
             else do { (mq_err, st2) \<leftarrow> enqueue bs st1; after_q bs mq_err st2 })
      else if revent AND (POLLHUP OR POLLRDHUP) \<noteq> 0 then
        do { st2 \<leftarrow> drop_client clientfd st; Some (Returned 0 st2) }
      else Some (Returned 0 st))"

text \<open>\<open>accept\<close> takes the next answer of the schedule, a descriptor with its new connection, or
  it fails with -1, as it does when there is nobody to accept.\<close>

definition sys_accept :: "server \<Rightarrow> int \<times> server" where
  "sys_accept st =
     (case accepts st of
        [] \<Rightarrow> (- 1, st)
      | None # rest \<Rightarrow> (- 1, st\<lparr>accepts := rest\<rparr>)
      | Some (fd, c) # rest \<Rightarrow> (fd, st\<lparr>accepts := rest, conn := (conn st)(fd := c)\<rparr>))"

definition accept_client :: "server \<Rightarrow> (int \<times> server) option" where
  "accept_client st =
     (let (client_fd, st1) = sys_accept st in
      do {
        (rv, fs) \<leftarrow> fd_state__watch (fdstate st1) client_fd;
        if rv = - 1 then Some (- 2, st1\<lparr>fdstate := fs\<rparr>)
        else
          (let (rv2, q, h) = message_queue__register_client (mqueue st1) client_fd (heap st1);
               st2 = st1\<lparr>fdstate := fs, mqueue := q, heap := h\<rparr>
           in Some (if rv2 = - 1 then - 3 else 0, st2))
      })"

definition handle_server_event :: "pollfd \<Rightarrow> server \<Rightarrow> (int \<times> server) option" where
  "handle_server_event event st =
     (let revent = revents event in
      if revent AND (POLLERR OR POLLNVAL) \<noteq> 0 then Some (- 1, st)
      else
        do {
          (rv, st1) \<leftarrow> (if revent AND POLLIN \<noteq> 0 then accept_client st else Some (0, st));
          if rv \<noteq> 0 then Some (rv, st1)
          else
            (let st2 = (if revent AND POLLOUT \<noteq> 0 then say (Barf ''server: POLLOUT'') st1 else st1);
                 st3 = (if revent AND (POLLHUP OR POLLRDHUP) \<noteq> 0
                        then say (Barf ''POLLHUP | POLLRDHUP'') st2 else st2)
             in Some (0, st3))
        })"

section \<open>The loop\<close>

text \<open>The entry at an index, which must be inside the array.\<close>

definition fds_at :: "server \<Rightarrow> nat \<Rightarrow> pollfd option" where
  "fds_at st i = (if i < length (fds (fdstate st)) then Some (fds (fdstate st) ! i) else None)"

text \<open>The loop over the clients; \<open>Inl\<close> is a process that has exited,
  with all it has printed.\<close>

partial_function (option) client_loop :: "nat \<Rightarrow> server \<Rightarrow> (diag list + server) option" where
  "client_loop i st =
     (if i < fds_length (fdstate st) then
        do {
          event \<leftarrow> fds_at st i;
          h \<leftarrow> handle_client_event event st;
          (case h of
             Exited d st1 \<Rightarrow> Some (Inl (log st1 @ [d]))
           | Returned rv st1 \<Rightarrow> client_loop (i + 1) st1)
        }
      else Some (Inr st))"

partial_function (option) flush_clients :: "nat \<Rightarrow> server \<Rightarrow> server option" where
  "flush_clients i st =
     (if i < fds_length (fdstate st) then
        do {
          event \<leftarrow> fds_at st i;
          (rv, q, net) \<leftarrow> message_queue__flush (mqueue st) (pfd event) (conn st);
          flush_clients (i + 1) (st\<lparr>mqueue := q, conn := net\<rparr>)
        }
      else Some st)"

declare client_loop.simps [code] flush_clients.simps [code]

text \<open>What \<open>ppoll\<close> answers: an error, or the \<open>revents\<close> of the watched entries (all 0 after a
  timeout).\<close>

datatype poll_result = PollFails | PollTimeout | PollReady "16 word list"

fun set_revents :: "16 word list \<Rightarrow> pollfd list \<Rightarrow> pollfd list" where
  "set_revents rs [] = []"
| "set_revents [] (p # ps) = p\<lparr>revents := 0\<rparr> # set_revents [] ps"
| "set_revents (r # rs) (p # ps) = p\<lparr>revents := r\<rparr> # set_revents rs ps"

definition deliver_events :: "16 word list \<Rightarrow> server \<Rightarrow> server" where
  "deliver_events rs st =
     (let fs = fdstate st; n = fds_length fs
      in st\<lparr>fdstate := fs\<lparr>fds := set_revents rs (take n (fds fs)) @ drop n (fds fs)\<rparr>\<rparr>)"

text \<open>One round: \<open>Continue\<close>, or the loop is left, or the process has exited.\<close>

datatype round = Continue server | Break server | ProcessExit "diag list"

definition round_clients :: "server \<Rightarrow> round option" where
  "round_clients st =
     do {
       r \<leftarrow> client_loop 1 st;
       (case r of
          Inl ds \<Rightarrow> Some (ProcessExit ds)
        | Inr st1 \<Rightarrow> do { st2 \<leftarrow> flush_clients 1 st1; Some (Continue st2) })
     }"

definition poll_round :: "poll_result \<Rightarrow> server \<Rightarrow> round option" where
  "poll_round p st =
     (case p of
        PollFails \<Rightarrow> Some (Break (say (Perror ''ppoll'') st))
      | _ \<Rightarrow>
          (let st0 = (case p of PollReady rs \<Rightarrow> deliver_events rs st
                      | _ \<Rightarrow> say (Barf ''...'') (deliver_events [] st)) in
           do {
             event \<leftarrow> fds_at st0 0;
             (rv, st1) \<leftarrow> handle_server_event event st0;
             if rv = - 1
             then Some (Break (say (Barf ''adios amigos, closing server connection'') st1))
             else
               (let st2 = (if rv = - 2 then say (Barf ''failed to add client to watch list'') st1
                           else if rv = - 3
                           then say (Barf ''failed to add client to message queue watcher'') st1
                           else st1)
                in round_clients st2)
           }))"

text \<open>The server over a sequence of answers of \<open>ppoll\<close>.\<close>

fun serve :: "poll_result list \<Rightarrow> server \<Rightarrow> round option" where
  "serve [] st = Some (Continue st)"
| "serve (p # ps) st =
     do {
       r \<leftarrow> poll_round p st;
       (case r of Continue st1 \<Rightarrow> serve ps st1 | _ \<Rightarrow> Some r)
     }"

text \<open>The start of \<open>poll_server_impl\<close>: \<open>Inl\<close> a message of \<open>err_exit\<close>, and a full watch list
  is the return value -1, with the heap in which the list has been freed.\<close>

definition poll_server_start ::
    "int \<Rightarrow> os \<Rightarrow> conns \<Rightarrow> (int \<times> os) option list \<Rightarrow>
       (diag + (int \<times> os) + server) option" where
  "poll_server_start server_fd h net acc =
     (let (q, h1) = message_queue__init MAX_NUM_OF_CLIENTS h in
      case fds_state__init h1 of
        (Inl d, h2) \<Rightarrow> Some (Inl d)
      | (Inr fs, h2) \<Rightarrow>
          do {
            (rv, fs1) \<leftarrow> fd_state__watch fs server_fd;
            if rv = - 1 then Some (Inr (Inl (- 1, fds_state__destroy (Some fs1) h2)))
            else Some (Inr (Inr \<lparr>fdstate = fs1, mqueue = q, heap = h2, conn = net, accepts = acc,
                                 closed = [], log = []\<rparr>))
          })"

text \<open>After the loop the watch list is freed and the result is 0; the queue is not freed.\<close>

definition poll_server_end :: "server \<Rightarrow> int \<times> os" where
  "poll_server_end st = (0, fds_state__destroy (Some (fdstate st)) (heap st))"

text \<open>How far the server is when the answers of \<open>ppoll\<close> are used up: it waits for the next one,
  \<open>poll_server_impl\<close> has returned, or the process has exited with these messages.\<close>

datatype progress = Waiting server | Finished int "diag list" os | Died "diag list"

definition poll_server_impl ::
    "int \<Rightarrow> os \<Rightarrow> conns \<Rightarrow> (int \<times> os) option list \<Rightarrow> poll_result list \<Rightarrow> progress option" where
  "poll_server_impl server_fd h net acc polls =
     do {
       start \<leftarrow> poll_server_start server_fd h net acc;
       (case start of
          Inl d \<Rightarrow> Some (Died [d])
        | Inr (Inl (rv, h1)) \<Rightarrow> Some (Finished rv [] h1)
        | Inr (Inr st) \<Rightarrow>
            do {
              r \<leftarrow> serve polls st;
              (case r of
                 Continue st1 \<Rightarrow> Some (Waiting st1)
               | ProcessExit ds \<Rightarrow> Some (Died ds)
               | Break st1 \<Rightarrow>
                   (let (ec, h1) = poll_server_end st1 in Some (Finished ec (log st1) h1)))
            })
     }"

end
