(* ===== verification/MessageQueueProps.thy ===== *)
theory MessageQueueProps
  imports MessageQueue
begin

text \<open>
  What the message ring of \<open>tcp/polling/message_q.c\<close> does, and where it does not do what the
  server needs: the properties of its operations, with the ring as a sequence of byte strings.
\<close>

section \<open>Properties\<close>

definition example_str :: "byte list \<Rightarrow> sds" where
  "example_str bs = \<lparr>type_of_sds = SDS_TYPE_8, hdr_len = of_nat (length bs),
     hdr_alloc = of_nat (length bs), sds_buf = bs @ [0]\<rparr>"

text \<open>A ring of three slots that holds two messages, and a full one of two slots.\<close>

definition example_mq :: MessageQueue where
  "example_mq = \<lparr>capacity = 3, messages = [Some (example_str [66]), None, Some (example_str [65])],
     start_idx = 2, end_idx = 1,
     clients = [\<lparr>client_fd = 8, roff = 0\<rparr>, \<lparr>client_fd = 7, roff = 2\<rparr>]\<rparr>"

definition full_mq :: MessageQueue where
  "full_mq = \<lparr>capacity = 5, messages = map (\<lambda>b. Some (example_str [b])) [65, 66, 67, 68, 69],
     start_idx = 0, end_idx = 0,
     clients = [\<lparr>client_fd = 8, roff = 0\<rparr>, \<lparr>client_fd = 7, roff = 4\<rparr>]\<rparr>"

definition example_heap :: os where
  "example_heap = \<lparr>mallocs = [], junk = (\<lambda>_. 0), live = 10, pending = [], reads = [],
     sink = [], writes = []\<rparr>"

lemma example_heap_ok: "mallocs_ok example_heap" "live example_heap = 10"
  by (simp_all add: example_heap_def mallocs_ok_def)

lemma example_mq_inv: "mq_inv example_mq" "mq_items example_mq = [[65], [66]]"
  by (simp_all add: mq_inv_def mq_wf_def mq_items_def mq_strs_def get_length_def example_mq_def
      example_str_def MQ_EMPTY_SENTINEL_def sds_inv_def sdslen_def sdsalloc_def sds_content_def
      MAX_MESSAGE_LENGTH_def take_bit_size_iff rotate_drop_take)

lemma full_mq_inv: "mq_inv full_mq" "mq_items full_mq = [[65], [66], [67], [68], [69]]"
  by (simp_all add: mq_inv_def mq_wf_def mq_items_def mq_strs_def get_length_def full_mq_def
      example_str_def MQ_EMPTY_SENTINEL_def sds_inv_def sdslen_def sdsalloc_def sds_content_def
      MAX_MESSAGE_LENGTH_def take_bit_size_iff)


text \<open>
  \<open>message_queue__q\<close> on a valid ring, on every branch: a full ring, a message of more than
  512 bytes and a failed allocation give their error codes and change nothing; otherwise the
  bytes are appended as the last message and the ring stays valid.
\<close>

theorem mq_q_correct:
  assumes "mq_inv mq" and "unat n \<le> length msg"
  shows "\<exists>r mq' s'. message_queue__q (Some mq) (Some msg) n s = Some (r, Some mq', s') \<and> mq_inv mq' \<and>
    (if get_length mq = capacity mq then r = MQERR_FULL \<and> mq' = mq
     else if MAX_MESSAGE_LENGTH < unat n then r = MQERR_MESSAGE_TOO_LONG \<and> mq' = mq
     else if r = 0 then mq_items mq' = mq_items mq @ [take (unat n) msg] \<and> live s' = live s + 1
     else r = MQERR_ALLOC_FAIL \<and> mq' = mq \<and> \<not> mallocs_ok s)"
proof -
  have "get_length mq \<le> capacity mq"
    using assms(1) length_bounds [of mq] by (fastforce simp: mq_inv_def get_length_def)
  then consider "get_length mq = capacity mq"
    | "get_length mq < capacity mq" "MAX_MESSAGE_LENGTH < unat n"
    | "get_length mq < capacity mq" "unat n \<le> MAX_MESSAGE_LENGTH" by linarith
  then show ?thesis
  proof cases
    case 1
    then show ?thesis using q_full [OF assms(1)] assms(1) by simp
  next
    case 2
    then show ?thesis using full_iff [OF assms(1)] assms(1) by auto
  next
    case 3
    then show ?thesis using q_outcome [OF assms(1,2) 3(2,1), of s] assms(1) by fastforce
  qed
qed

theorem mq_q_correct_witness:
  "\<exists>mq' s'. message_queue__q (Some example_mq) (Some [67, 68]) 2 example_heap = Some (0, Some mq', s') \<and>
     mq_items mq' = [[65], [66], [67, 68]]"
  using mq_q_correct [OF example_mq_inv(1), of 2 "[67, 68]" example_heap] example_heap_ok
    example_mq_inv(2)
  by (auto simp: get_length_def MAX_MESSAGE_LENGTH_def example_mq_def MQ_EMPTY_SENTINEL_def
      simp del: message_queue__q.simps split: if_splits)

text \<open>
  \<open>message_queue__dq\<close> on a well-formed ring: an empty one gives NULL; otherwise, unless the
  copy cannot be allocated, the result is a fresh copy of the oldest message, which leaves the
  ring, and the heap balance is that of before (one copy more, one message less).
\<close>

theorem mq_dq_correct:
  assumes "mq_wf mq"
  shows "\<exists>r mq' s'. message_queue__dq (Some mq) s = Some (r, Some mq', s') \<and> mq_wf mq' \<and>
    live s' = live s \<and>
    (if mq_items mq = [] then r = None \<and> mq' = mq
     else case r of
       None \<Rightarrow> mq' = mq \<and> \<not> mallocs_ok s
     | Some str \<Rightarrow> sds_inv str \<and> mq_items mq = sds_content str # mq_items mq')"
proof (cases "start_idx mq = MQ_EMPTY_SENTINEL")
  case True
  then show ?thesis using assms by (simp add: mq_items_def mq_strs_def)
next
  case False
  have ne: "mq_items mq \<noteq> []" using length_bounds [OF assms False] items_length [OF assms] by auto
  obtain r mq' s' where d: "message_queue__dq (Some mq) s = Some (r, Some mq', s')"
    "mallocs_ok s \<longrightarrow> mallocs_ok s' \<and> r \<noteq> None" "live s' = live s"
    "case r of None \<Rightarrow> mq' = mq
     | Some str \<Rightarrow> sds_inv str \<and> mq_items mq = sds_content str # mq_items mq' \<and> mq_wf mq' \<and>
         capacity mq' = capacity mq \<and> clients mq' = clients mq \<and> end_idx mq' = end_idx mq \<and>
         (start_idx mq' = MQ_EMPTY_SENTINEL \<longleftrightarrow> get_length mq = 1)"
    using dq_outcome [OF assms False, of s] by blast
  have "mq_wf mq'" using d(4) assms by (cases r) auto
  then show ?thesis
    using d ne by (intro exI [of _ r] exI [of _ mq'] exI [of _ s']) (cases r, auto simp del: message_queue__dq.simps)
qed

theorem mq_dq_correct_witness:
  "\<exists>r mq' s'. message_queue__dq (Some example_mq) example_heap = Some (r, Some mq', s') \<and>
     (\<forall>str. r = Some str \<longrightarrow> sds_content str = [65] \<and> mq_items mq' = [[66]])"
proof -
  have "mq_wf example_mq" using example_mq_inv(1) by (simp add: mq_inv_def)
  from mq_dq_correct [OF this, of example_heap] show ?thesis
    unfolding example_mq_inv(2) by (auto split: option.splits simp del: message_queue__dq.simps)
qed

text \<open>
  C10. First in, first out. Every sequence of calls of \<open>message_queue__q\<close> and
  \<open>message_queue__dq\<close> on a fresh ring of less than $2^{60}$ slots, interleaved in any way, behaves as
  on a list that holds at most as many messages as the ring has slots, its results included:
  a message is refused with its code when the ring is full or the message has more than 512 bytes,
  and the messages come out as they went in, in that order. Memory must be available, and no message
  may be stored after a call has emptied the ring while its end index is not 0, which the number
  of messages stored so far decides.
\<close>

theorem mq_fifo:
  assumes "message_queue__init cap s = (Some mq, s')" and "unat cap < 2 ^ 60" and "mallocs_ok s'"
    and "reuse_allowed (unat cap) 0 cs []" and "\<forall>m. Put m \<in> set cs \<longrightarrow> length m < 2 ^ 64"
  shows "\<exists>rs mq' s1. queue_calls mq_put mq_get cs (mq, s') = Some (rs, mq', s1) \<and>
    fifo_calls (unat cap) cs [] = (rs, mq_items mq')"
proof -
  have i: "mq_inv mq" "mq_items mq = []" "capacity mq = unat cap"
    using init_mq [OF assms(1,2)] by auto
  have "nat (end_idx mq) = 0"
    using assms(1) by (auto simp: message_queue__init_def split: if_splits prod.splits bool.splits)
  then show ?thesis
    using mqf.calls_refine [of "(mq, s')" 0 cs] i assms(3-5) by (auto simp: mq_inv_def)
qed

theorem mq_fifo_witness:
  "\<exists>mq s' mq' s1. message_queue__init 2 example_heap = (Some mq, s') \<and>
     queue_calls mq_put mq_get
       [Put [65], Put [66, 67], Put [68], Take, Take, Take, Put [69], Take] (mq, s') =
     Some ([Code 0, Code 0, Code MQERR_FULL, Taken (Some [65]), Taken (Some [66, 67]), Taken None,
            Code 0, Taken (Some [69])], mq', s1)"
proof -
  let ?cs = "[Put [65], Put [66, 67], Put [68], Take, Take, Take, Put [69], Take]"
  obtain mq s' where i: "message_queue__init 2 example_heap = (Some mq, s')" "mallocs_ok s'"
    by (simp add: message_queue__init_def alloc_object_def example_heap_def mallocs_ok_def)
  have two: "unat (2 :: size_t) = 2" by simp
  have fits: "mq_fits [65]" "mq_fits [66, 67]" "mq_fits [68]" "mq_fits [69]"
    by (simp_all add: mq_fits_def MAX_MESSAGE_LENGTH_def)
  then have "reuse_allowed 2 0 ?cs []" "\<forall>m. Put m \<in> set ?cs \<longrightarrow> length m < 2 ^ 64"
    by simp_all
  from mq_fifo [OF i(1) _ i(2), unfolded two, OF _ this] obtain rs mq' s1 where
    r: "queue_calls mq_put mq_get ?cs (mq, s') = Some (rs, mq', s1)"
    "fifo_calls 2 ?cs [] = (rs, mq_items mq')" by auto
  have "rs = [Code 0, Code 0, Code MQERR_FULL, Taken (Some [65]), Taken (Some [66, 67]), Taken None,
      Code 0, Taken (Some [69])]"
    using r(2) fits by simp
  then show ?thesis using i(1) r(1) by blast
qed

text \<open>
  A ring that has been emptied cannot be used again unless its end index is 0: after the
  last message has been taken, the next one is stored at the end index while the start index
  is set to 0, and taking it out then reads a NULL slot.
\<close>

theorem mq_reuse_after_empty_broken:
  assumes "mq_inv mq" and "length (mq_items mq) = 1" and "end_idx mq \<noteq> 0"
    and "message_queue__dq (Some mq) s = Some (Some str, Some mq1, s1)"
    and "message_queue__q (Some mq1) (Some msg) n s1 = Some (0, Some mq2, s2)"
  shows "mq_items mq1 = [] \<and> message_queue__dq (Some mq2) s2 = None"
proof -
  have wf: "mq_wf mq" using assms(1) by (simp add: mq_inv_def)
  have one: "get_length mq = 1" using assms(2) items_length [OF wf] by simp
  have st: "start_idx mq \<noteq> MQ_EMPTY_SENTINEL" using one by (auto simp: get_length_def)
  have d: "start_idx mq1 = MQ_EMPTY_SENTINEL" "end_idx mq1 \<noteq> 0" "mq_wf mq1"
    using dq_outcome [OF wf st, of s] assms(3,4) one by (auto simp del: message_queue__dq.simps)
  note b = wf_bounds [OF d(3)]
  have none: "messages mq1 = replicate (capacity mq1) None" using d(1,3) by (simp add: mq_wf_def)
  obtain m mq3 where m: "set_slot mq1 (end_idx mq1) m = Some mq3" "start_idx mq2 = 0"
    "messages mq2 = messages mq3"
    using assms(5) d(1)
    by (auto simp: MQERR_FULL_def MQERR_MESSAGE_TOO_LONG_def MQERR_ALLOC_FAIL_def
        split: if_splits bind_splits)
  have "slot mq2 0 = Some None"
    using m none b d(2) by (auto simp: set_slot_def slot_def split: if_splits)
  then have "message_queue__dq (Some mq2) s2 = None"
    using m(2) by (simp add: MQ_EMPTY_SENTINEL_def)
  then show ?thesis using d(1) by (simp add: mq_items_def mq_strs_def)
qed

lemma replicate_two: "replicate 2 x = [x, x]"
  by (simp add: numeral_2_eq_2)

definition one_mq :: MessageQueue where
  "one_mq = \<lparr>capacity = 3, messages = [None, Some (example_str [65]), None],
     start_idx = 1, end_idx = 2, clients = []\<rparr>"

theorem mq_reuse_after_empty_broken_witness:
  "\<exists>str mq1 s1 mq2 s2. message_queue__dq (Some one_mq) example_heap = Some (Some str, Some mq1, s1) \<and>
     message_queue__q (Some mq1) (Some [70]) 1 s1 = Some (0, Some mq2, s2) \<and>
     message_queue__dq (Some mq2) s2 = None"
proof -
  have inv: "mq_inv one_mq" "mq_items one_mq = [[65]]" "start_idx one_mq \<noteq> MQ_EMPTY_SENTINEL"
    "end_idx one_mq = 2" "get_length one_mq = 1" "mq_wf one_mq" "clients one_mq = []"
    by (simp_all add: mq_inv_def mq_wf_def mq_items_def mq_strs_def get_length_def one_mq_def
      example_str_def MQ_EMPTY_SENTINEL_def sds_inv_def sdslen_def sdsalloc_def sds_content_def
      MAX_MESSAGE_LENGTH_def take_bit_size_iff rotate_drop_take replicate_two)
  obtain str mq1 s1 where d: "message_queue__dq (Some one_mq) example_heap = Some (Some str, Some mq1, s1)"
    "mallocs_ok s1" "mq_wf mq1" "start_idx mq1 = MQ_EMPTY_SENTINEL" "end_idx mq1 = 2" "capacity mq1 = 3"
    using dq_outcome [OF inv(6,3), of example_heap] example_heap_ok inv(4,5)
    by (auto simp: one_mq_def split: option.splits simp del: message_queue__dq.simps)
  obtain m s2 where m: "sdsnewlen (InitBytes [70]) 1 s1 = Some (Some m, s2)"
    using sdsnewlen_outcome [of 1 "InitBytes [70]" s1] d(2) by (auto split: option.splits)
  have "length (messages mq1) = 3" using wf_bounds(2) [OF d(3)] d(6) by simp
  then obtain mq2 where q: "message_queue__q (Some mq1) (Some [70]) 1 s1 = Some (0, Some mq2, s2)"
    using m d(4,5) by (simp add: MQ_EMPTY_SENTINEL_def MAX_MESSAGE_LENGTH_def set_slot_def)
  show ?thesis
    using mq_reuse_after_empty_broken [OF inv(1) _ _ d(1) q] inv(2,4) d(1) q by auto
qed

text \<open>Where the offset of a client stands in the ring.\<close>

lemma client_off_position:
  assumes "mq_wf mq" and "0 \<le> roff c" and "roff c < int (capacity mq)"
  shows "(start_idx mq + int (client_off mq c)) mod int (capacity mq) = roff c"
proof -
  let ?c = "int (capacity mq)"
  have "0 \<le> ?c + roff c - start_idx mq" "?c + roff c - start_idx mq < 2 ^ 64"
    using assms by (auto simp: mq_wf_def)
  then have "int (client_off mq c) = (?c + roff c - start_idx mq) mod ?c"
    by (simp add: client_off_def zmod_int)
  then have "(start_idx mq + int (client_off mq c)) mod ?c = (start_idx mq + (?c + roff c - start_idx mq)) mod ?c"
    by (simp add: mod_add_right_eq)
  also have "\<dots> = roff c mod ?c" by simp
  finally show ?thesis using assms by simp
qed

text \<open>No write fails or is shorter than a message.\<close>

fun takes_message :: "write_choice \<Rightarrow> bool" where
  "takes_message (Accept k) \<longleftrightarrow> MAX_MESSAGE_LENGTH \<le> k"
| "takes_message (WriteFails e) \<longleftrightarrow> False"

lemma send_all_full:
  "list_all takes_message (writes c) \<Longrightarrow> list_all mq_fits ms \<Longrightarrow>
     \<exists>c'. send_all ms c = (length ms, c') \<and> sink c' = sink c @ concat ms"
proof (induction ms arbitrary: c)
  case Nil
  then show ?case by simp
next
  case (Cons m ms)
  have fit: "length m \<le> MAX_MESSAGE_LENGTH" using Cons.prems(2) by (simp add: mq_fits_def)
  obtain n c1 where w: "sys_write m c = (Inr n, c1)" "sink c1 = sink c @ m"
    "list_all takes_message (writes c1)"
    using Cons.prems(1) fit
    by (cases "writes c"; cases "hd (writes c)") (auto simp: sys_write_def Let_def min_absorb2)
  then show ?case using Cons.IH [OF w(3)] Cons.prems(2) by auto
qed

text \<open>
  C38. \<open>message_queue__flush\<close> for a registered client whose offset lies in the ring: the
  messages from its offset on are written to its descriptor, oldest first, until all are
  written or a write fails; the client's offset is then the end of the ring or the message
  that failed, and the result says which; the ring and the other descriptors stay as they
  are. When the writes take whole messages, all that was missing has arrived.
\<close>

theorem mq_flush_correct:
  assumes "mq_wf mq" and "mq_items mq \<noteq> []" and "find (\<lambda>c. client_fd c = fd) (clients mq) = Some c"
    and "client_off mq c \<le> get_length mq" and "get_length mq < capacity mq \<or> 0 < client_off mq c"
    and "send_all (drop (client_off mq c) (mq_items mq)) (net fd) = (j, conn)"
  shows "message_queue__flush (Some mq) fd net =
      (let all = (j = get_length mq - client_off mq c);
           off = (if all then end_idx mq
                  else (start_idx mq + int (client_off mq c + j)) mod int (capacity mq)) in
       Some (if all then 0 else - 1,
             Some (mq\<lparr>clients := update_first (\<lambda>c. client_fd c = fd) (\<lambda>c. c\<lparr>roff := off\<rparr>) (clients mq)\<rparr>),
             net(fd := conn))) \<and>
    (list_all takes_message (writes (net fd)) \<longrightarrow>
       sink conn = sink (net fd) @ concat (drop (client_off mq c) (mq_items mq)) \<and>
       j = get_length mq - client_off mq c)"
proof
  have st: "start_idx mq \<noteq> MQ_EMPTY_SENTINEL" using assms(2) by (auto simp: mq_items_def mq_strs_def)
  have c: "c \<in> set (clients mq)" "client_fd c = fd"
    using assms(3) by (auto simp: find_Some_iff)
  then have "0 \<le> roff c" "roff c < int (capacity mq)" using assms(1) by (auto simp: mq_wf_def)
  then have pos: "(start_idx mq + int (client_off mq c)) mod int (capacity mq) = roff c"
    using client_off_position assms(1) by blast
  have "get_length mq \<noteq> 0" using length_bounds [OF assms(1) st] by simp
  then show "message_queue__flush (Some mq) fd net =
      (let all = (j = get_length mq - client_off mq c);
           off = (if all then end_idx mq
                  else (start_idx mq + int (client_off mq c + j)) mod int (capacity mq)) in
       Some (if all then 0 else - 1,
             Some (mq\<lparr>clients := update_first (\<lambda>c. client_fd c = fd) (\<lambda>c. c\<lparr>roff := off\<rparr>) (clients mq)\<rparr>),
             net(fd := conn)))"
    using flush_loop_outcome [OF assms(1) st assms(4,5), of fd net] assms(3,6) c(2)
    unfolding pos by (simp add: Let_def)
  have "list_all mq_fits (drop (client_off mq c) (mq_items mq))"
    using assms(1) content_length
    by (fastforce simp: mq_wf_def mq_items_def list_all_iff mq_fits_def dest: in_set_dropD)
  then show "list_all takes_message (writes (net fd)) \<longrightarrow>
      sink conn = sink (net fd) @ concat (drop (client_off mq c) (mq_items mq)) \<and>
      j = get_length mq - client_off mq c"
    using send_all_full [of "net fd"] assms(6) items_length [OF assms(1)] by fastforce
qed

theorem mq_flush_correct_witness:
  "\<exists>mq' net'. message_queue__flush (Some example_mq) 7 (\<lambda>fd. example_heap) = Some (0, Some mq', net') \<and>
     sink (net' 7) = [65, 66] \<and> sink (net' 8) = []"
proof -
  have wf: "mq_wf example_mq" using example_mq_inv(1) by (simp add: mq_inv_def)
  have off: "client_off example_mq \<lparr>client_fd = 7, roff = 2\<rparr> = 0" "get_length example_mq = 2"
    "capacity example_mq = 3"
    by (simp_all add: client_off_def example_mq_def get_length_def MQ_EMPTY_SENTINEL_def)
  have c: "find (\<lambda>c. client_fd c = 7) (clients example_mq) = Some \<lparr>client_fd = 7, roff = 2\<rparr>"
    by (simp add: example_mq_def)
  have w: "list_all takes_message (writes example_heap)" "sink example_heap = []"
    by (simp_all add: example_heap_def)
  obtain j conn where s: "send_all (drop 0 (mq_items example_mq)) example_heap = (j, conn)" by fastforce
  note f = mq_flush_correct [OF wf _ c, unfolded off, of "\<lambda>fd. example_heap" j conn, OF _ _ _ s]
  have sent: "sink conn = [65, 66]" "j = 2"
    using f w example_mq_inv(2) by simp_all
  have "\<exists>mq'. message_queue__flush (Some example_mq) 7 (\<lambda>fd. example_heap) =
      Some (0, Some mq', (\<lambda>fd. example_heap)(7 := conn))"
    using f sent(2) example_mq_inv(2) by (auto simp: Let_def simp del: message_queue__flush.simps)
  then show ?thesis using sent(1) w(2) by fastforce
qed

text \<open>
  A full ring and a client at its start: nothing is sent, although every message is still
  to be delivered to a client that registered when the ring began to fill, because the loop
  stops where the offset equals the end index. The call reports success and changes nothing.
\<close>

theorem mq_flush_full_sends_nothing:
  assumes "mq_inv mq" and "get_length mq = capacity mq"
    and "find (\<lambda>c. client_fd c = fd) (clients mq) = Some c" and "roff c = start_idx mq"
  shows "message_queue__flush (Some mq) fd net = Some (0, Some mq, net) \<and>
    length (mq_items mq) = capacity mq \<and> 0 < capacity mq"
proof -
  have wf: "mq_wf mq" using assms(1) by (simp add: mq_inv_def)
  have e: "end_idx mq = start_idx mq" using full_iff [OF assms(1)] assms(2) by simp
  have upd: "find p xs = Some x \<Longrightarrow> f x = x \<Longrightarrow> update_first p f xs = xs" for p f and x :: MQClient and xs
    by (induction xs) (auto split: if_splits)
  have "update_first (\<lambda>c. client_fd c = fd) (\<lambda>c. c\<lparr>roff := end_idx mq\<rparr>) (clients mq) = clients mq"
    using upd [OF assms(3), of "\<lambda>c. c\<lparr>roff := end_idx mq\<rparr>"] assms(4) e by (cases c) simp
  then show ?thesis
    using assms(2,3,4) e wf_bounds(1) [OF wf] items_length [OF wf]
    by (simp add: flush_loop.simps)
qed

theorem mq_flush_full_sends_nothing_witness:
  "message_queue__flush (Some full_mq) 8 (\<lambda>fd. example_heap) =
     Some (0, Some full_mq, \<lambda>fd. example_heap) \<and>
   length (mq_items full_mq) = 5"
proof -
  have "get_length full_mq = capacity full_mq" "capacity full_mq = 5"
    "find (\<lambda>c. client_fd c = 8) (clients full_mq) = Some \<lparr>client_fd = 8, roff = 0\<rparr>"
    "start_idx full_mq = 0"
    by (simp_all add: full_mq_def get_length_def MQ_EMPTY_SENTINEL_def)
  then show ?thesis
    using mq_flush_full_sends_nothing [OF full_mq_inv(1), of 8 "\<lparr>client_fd = 8, roff = 0\<rparr>" "\<lambda>fd. example_heap"]
    by simp
qed

lemma drop_slow_outcome:
  assumes "mq_wf mq"
  shows "\<exists>mq' s'. message_queue__drop_slow_consumers (Some mq) s = (Some mq', s') \<and> mq_wf mq' \<and>
    mq_items mq' = mq_items mq \<and>
    clients mq' = (if start_idx mq = MQ_EMPTY_SENTINEL \<or> get_length mq < 8 * capacity mq div 10
      then clients mq else filter (\<lambda>c. 2 * capacity mq div 5 \<le> client_off mq c) (clients mq)) \<and>
    live s' = live s - (int (length (clients mq)) - int (length (clients mq')))"
proof -
  have cap: "(capacity mq * 8) mod 2 ^ 64 div 10 = 8 * capacity mq div 10"
    using assms by (simp add: mq_wf_def mult.commute)
  let ?p = "\<lambda>c. client_off mq c < drop_before_offset mq"
  have p: "(\<lambda>c. \<not> ?p c) = (\<lambda>c. 2 * capacity mq div 5 \<le> client_off mq c)"
    by (simp add: drop_before_offset_def not_less fun_eq_iff)
  have same: "mq_wf (mq\<lparr>clients := cs\<rparr>) \<and> mq_items (mq\<lparr>clients := cs\<rparr>) = mq_items mq"
    if "set cs \<subseteq> set (clients mq)" for cs
  proof -
    have "get_length (mq\<lparr>clients := cs\<rparr>) = get_length mq" by (simp add: get_length_def)
    moreover from this have "mq_strs (mq\<lparr>clients := cs\<rparr>) = mq_strs mq" by (simp add: mq_strs_def)
    ultimately show ?thesis
      using assms that by (simp add: mq_wf_def mq_items_def) blast
  qed
  show ?thesis
  proof (cases "start_idx mq = MQ_EMPTY_SENTINEL \<or> get_length mq < 8 * capacity mq div 10")
    case True
    then show ?thesis using assms cap by auto
  next
    case False
    let ?kept = "filter (\<lambda>c. 2 * capacity mq div 5 \<le> client_off mq c) (clients mq)"
    obtain s' where d: "drop_loop mq (clients mq) s = (?kept, s')"
      "live s' = live s - int (length (filter ?p (clients mq)))"
      using drop_loop_filter [of mq "clients mq" s] unfolding p by (metis prod.collapse)
    have "length (filter ?p (clients mq)) + length ?kept = length (clients mq)"
      using sum_length_filter_compl [of ?p "clients mq"] unfolding p .
    then show ?thesis
      using False cap d same [of ?kept] by auto
  qed
qed

text \<open>
  \<open>message_queue__drop_slow_consumers\<close>: on a ring that is less than four fifths full
  nothing happens; otherwise exactly the clients whose offset is within the first two fifths
  of the capacity from the start are unregistered and freed. The messages stay in any case.
\<close>

theorem mq_drop_slow_correct:
  assumes "mq_wf mq"
  shows "\<exists>mq' s'. message_queue__drop_slow_consumers (Some mq) s = (Some mq', s') \<and> mq_wf mq' \<and>
    mq_items mq' = mq_items mq \<and>
    clients mq' = (if start_idx mq = MQ_EMPTY_SENTINEL \<or> get_length mq < 8 * capacity mq div 10
      then clients mq else filter (\<lambda>c. 2 * capacity mq div 5 \<le> client_off mq c) (clients mq)) \<and>
    live s' = live s - (int (length (clients mq)) - int (length (clients mq')))"
  using drop_slow_outcome [OF assms] .

theorem mq_drop_slow_correct_witness:
  "\<exists>mq' s'. message_queue__drop_slow_consumers (Some full_mq) example_heap = (Some mq', s') \<and>
     clients mq' = [\<lparr>client_fd = 7, roff = 4\<rparr>] \<and> live s' = 9"
proof -
  have "mq_wf full_mq" using full_mq_inv(1) by (simp add: mq_inv_def)
  from mq_drop_slow_correct [OF this, of example_heap] show ?thesis
    using example_heap_ok(2)
    by (auto simp: full_mq_def get_length_def MQ_EMPTY_SENTINEL_def client_off_def
        simp del: message_queue__drop_slow_consumers.simps)
qed

text \<open>
  Nobody makes room: when the ring is full, dropping slow consumers takes no message out,
  so the next attempt is refused again, and so is every later one, while the clients that
  have read everything (their offset is the end, which is also the start) are thrown out as
  the slowest.
\<close>

theorem mq_full_stays_full:
  assumes "mq_inv mq" and "get_length mq = capacity mq" and "3 \<le> capacity mq"
    and "message_queue__drop_slow_consumers (Some mq) s = (Some mq1, s1)"
  shows "message_queue__q (Some mq1) (Some msg) n s1 = Some (MQERR_FULL, Some mq1, s1) \<and>
    mq_items mq1 = mq_items mq \<and>
    (\<forall>c \<in> set (clients mq). roff c = end_idx mq \<longrightarrow> c \<notin> set (clients mq1))"
proof -
  have wf: "mq_wf mq" using assms(1) by (simp add: mq_inv_def)
  have e: "end_idx mq = start_idx mq" using full_iff [OF assms(1)] assms(2) by simp
  have st: "start_idx mq \<noteq> MQ_EMPTY_SENTINEL" using assms(2,3) by (auto simp: get_length_def)
  have d: "mq_wf mq1" "mq_items mq1 = mq_items mq"
    "clients mq1 = filter (\<lambda>c. 2 * capacity mq div 5 \<le> client_off mq c) (clients mq)"
    using drop_slow_outcome [OF wf, of s] st assms(2,4) by auto
  have keep: "start_idx mq1 = start_idx mq" "end_idx mq1 = end_idx mq"
    using assms(4) by (auto split: if_splits prod.splits)
  have "c \<notin> set (clients mq1)" if "c \<in> set (clients mq)" "roff c = end_idx mq" for c
  proof -
    have "client_off mq c = 0" using that e wf_bounds(1) [OF wf] wf by (simp add: client_off_def mq_wf_def)
    moreover have "0 < 2 * capacity mq div 5" using assms(3) by simp
    ultimately show ?thesis unfolding d(3) by simp
  qed
  then show ?thesis using d(2) keep e by simp
qed

theorem mq_full_stays_full_witness:
  "\<exists>mq1 s1. message_queue__drop_slow_consumers (Some full_mq) example_heap = (Some mq1, s1) \<and>
     message_queue__q (Some mq1) (Some [70]) 1 s1 = Some (MQERR_FULL, Some mq1, s1)"
proof -
  have "mq_wf full_mq" using full_mq_inv(1) by (simp add: mq_inv_def)
  then obtain mq1 s1 where d:
    "message_queue__drop_slow_consumers (Some full_mq) example_heap = (Some mq1, s1)"
    using drop_slow_outcome by blast
  have "get_length full_mq = capacity full_mq" "3 \<le> capacity full_mq"
    by (simp_all add: full_mq_def get_length_def MQ_EMPTY_SENTINEL_def)
  then show ?thesis
    using mq_full_stays_full [OF full_mq_inv(1) _ _ d, of "[70]" 1] d by blast
qed

text \<open>
  C39. \<open>message_queue__free\<close> always returns. It frees the two blocks of the queue and every
  message that is in it, but none of them when the ring is full, since then start and end
  agree at once; the registered clients are never freed.
\<close>

theorem mq_free_correct:
  assumes "mq_inv mq"
  shows "\<exists>s'. message_queue__free (Some mq) s = Some s' \<and>
    live s' = live s - 2 -
      (if get_length mq = capacity mq then 0 else int (length (mq_items mq)))"
proof -
  have wf: "mq_wf mq" using assms by (simp add: mq_inv_def)
  show ?thesis
  proof (cases "start_idx mq = MQ_EMPTY_SENTINEL")
    case True
    then show ?thesis by (auto simp: mq_items_def mq_strs_def)
  next
    case st: False
    note l = length_bounds [OF wf st]
    have s0: "(start_idx mq + int 0) mod int (capacity mq) = start_idx mq"
      using wf_bounds(5) [OF wf st] by simp
    show ?thesis
    proof (cases "get_length mq = capacity mq")
      case True
      then have "free_loop mq (start_idx mq) s = Some s"
        using full_iff [OF assms] by (simp add: free_loop.simps)
      with True st show ?thesis by simp
    next
      case False
      then obtain s' where "free_loop mq (start_idx mq) s = Some s'"
        "live s' = live s - int (get_length mq)"
        using free_loop_outcome [OF wf st, of 0 s] l unfolding s0 by auto
      with False st show ?thesis using items_length [OF wf] by simp
    qed
  qed
qed

theorem mq_free_correct_witness:
  "(\<exists>s'. message_queue__free (Some example_mq) example_heap = Some s' \<and> live s' = 6) \<and>
   (\<exists>s'. message_queue__free (Some full_mq) example_heap = Some s' \<and> live s' = 8)"
proof -
  have "get_length example_mq = 2" "capacity example_mq = 3" "get_length full_mq = 5"
    "capacity full_mq = 5"
    by (simp_all add: example_mq_def full_mq_def get_length_def MQ_EMPTY_SENTINEL_def)
  then show ?thesis
    using mq_free_correct [OF example_mq_inv(1), of example_heap]
      mq_free_correct [OF full_mq_inv(1), of example_heap] example_heap_ok(2) example_mq_inv(2)
    by (simp del: message_queue__free.simps)
qed

text \<open>
  \<open>message_queue__get\<close> on a valid ring: an index beyond the length gives NULL, any other a
  fresh copy of the message at that place, unless memory for it is missing; nothing changes.
\<close>

theorem mq_get_correct:
  assumes "mq_wf mq"
  shows "\<exists>r s'. message_queue__get (Some mq) k s = Some (r, s') \<and>
    (if length (mq_items mq) \<le> k then r = None \<and> s' = s
     else case r of
       None \<Rightarrow> \<not> mallocs_ok s
     | Some str \<Rightarrow> sds_inv str \<and> sds_content str = mq_items mq ! k \<and> live s' = live s + 1)"
proof (cases "k < get_length mq")
  case True
  then show ?thesis
    using get_outcome [OF assms True, of s] items_length [OF assms]
    by (fastforce split: option.splits simp del: message_queue__get.simps)
next
  case False
  then show ?thesis using items_length [OF assms] by simp
qed

theorem mq_get_correct_witness:
  "message_queue__get (Some example_mq) 2 example_heap = Some (None, example_heap) \<and>
   (\<exists>r s'. message_queue__get (Some example_mq) 1 example_heap = Some (r, s') \<and>
      (\<forall>str. r = Some str \<longrightarrow> sds_content str = [66]))"
proof -
  have "mq_wf example_mq" using example_mq_inv(1) by (simp add: mq_inv_def)
  from mq_get_correct [OF this, of 2 example_heap] mq_get_correct [OF this, of 1 example_heap]
  show ?thesis unfolding example_mq_inv(2)
    by (auto split: option.splits simp del: message_queue__get.simps)
qed

end
