(* ===== verification/PollServerProps.thy ===== *)
theory PollServerProps
  imports PollServer MessageQueueProps "HOL-Library.Sublist"
begin

text \<open>
  What holds of every run of the chat server of \<open>tcp/polling\<close>: its invariant, what reaches the
  clients, and what happens once the ring is full.
\<close>

section \<open>The ring with other clients\<close>

lemma clients_update [simp]:
  "get_length (mq\<lparr>clients := cs\<rparr>) = get_length mq"
  "mq_strs (mq\<lparr>clients := cs\<rparr>) = mq_strs mq"
  "mq_items (mq\<lparr>clients := cs\<rparr>) = mq_items mq"
  by (simp_all add: get_length_def mq_strs_def mq_items_def)

lemma clients_update_wf:
  "mq_wf mq \<Longrightarrow> (\<And>c. c \<in> set cs \<Longrightarrow> 0 \<le> roff c \<and> roff c < int (capacity mq)) \<Longrightarrow>
     mq_wf (mq\<lparr>clients := cs\<rparr>)"
  by (simp add: mq_wf_def)

lemma set_remove_first: "set (remove_first p xs) \<subseteq> set xs"
  by (induction xs) auto

lemma remove_first_none: "\<not> list_ex p xs \<Longrightarrow> remove_first p xs = xs"
  by (induction xs) auto

lemma set_update_first: "x \<in> set (update_first p f xs) \<Longrightarrow> x \<in> set xs \<or> (\<exists>y \<in> set xs. p y \<and> x = f y)"
  by (induction xs) (auto split: if_splits)

lemma pred_mod: "0 < c \<Longrightarrow> 0 < x mod c \<Longrightarrow> (x - 1) mod c = x mod c - (1 :: int)"
  using mod_diff_left_eq [of x c 1] pos_mod_bound [of c x] mod_pos_pos_trivial [of "x mod c - 1" c]
  by (simp del: pos_mod_bound)

lemma closer_to_end:
  assumes "0 \<le> e" "e < c" "0 \<le> i" "i < c" "i \<noteq> e"
  shows "nat ((e - (i + 1) mod c) mod c) < nat ((e - i) mod (c :: int))"
proof -
  have "(e - (i + 1) mod c) mod c = (e - i - 1) mod c"
    by (simp add: mod_diff_right_eq diff_diff_eq)
  moreover have "(e - i + c) mod c = e - i + c" if "e < i"
    using that assms by (intro mod_pos_pos_trivial) simp_all
  then have pos: "0 < (e - i) mod c" using assms by (cases "i < e") simp_all
  moreover have "(e - i - 1) mod c = (e - i) mod c - 1" using pred_mod [OF _ pos] assms by simp
  ultimately show ?thesis by simp
qed

text \<open>Whatever a slot holds is one of the strings of the ring.\<close>

lemma slot_string:
  assumes wf: "mq_wf mq" and i: "0 \<le> i" "i < int (capacity mq)" and some: "messages mq ! nat i = Some str"
  shows "mem_load (sds_buf str) 0 (unat (sdslen str)) = Some (sds_content str)"
proof -
  note b = wf_bounds [OF wf]
  have "start_idx mq \<noteq> MQ_EMPTY_SENTINEL" using some wf i b(2) by (auto simp: mq_wf_def)
  then have "rotate (nat (start_idx mq)) (messages mq) =
      map Some (mq_strs mq) @ replicate (capacity mq - get_length mq) None"
    using wf by (simp add: mq_wf_def)
  then have "set (messages mq) = Some ` set (mq_strs mq) \<union> set (replicate (capacity mq - get_length mq) None)"
    by (metis set_append set_map set_rotate)
  moreover have "messages mq ! nat i \<in> set (messages mq)" using i b(2) by (intro nth_mem) simp
  ultimately have "str \<in> set (mq_strs mq)" using some by auto
  then have "sds_inv str" using wf by (simp add: mq_wf_def)
  then show ?thesis by (rule content_load)
qed

text \<open>A flush from any offset inside the array comes to its end.\<close>

lemma flush_loop_total:
  assumes wf: "mq_wf mq"
  shows "0 \<le> i \<Longrightarrow> i < int (capacity mq) \<Longrightarrow>
    \<exists>b off c. flush_loop mq fd i net = Some (b, off, net(fd := c)) \<and> 0 \<le> off \<and> off < int (capacity mq)"
proof (induction "nat ((end_idx mq - i) mod int (capacity mq))" arbitrary: i net rule: less_induct)
  case less
  note b = wf_bounds [OF wf]
  let ?c = "int (capacity mq)" and ?j = "(i + 1) mod int (capacity mq)"
  show ?case
  proof (cases "i = end_idx mq")
    case True
    then show ?thesis
      using b by (intro exI [of _ True] exI [of _ i] exI [of _ "net fd"]) (simp add: flush_loop.simps)
  next
    case False
    have j: "0 \<le> ?j" "?j < ?c" using b(1) by simp_all
    note dec = closer_to_end [OF b(3,4) less.prems False]
    have sl: "slot mq i = Some (messages mq ! nat i)"
      using less.prems b(2) by (simp add: slot_def)
    show ?thesis
    proof (cases "messages mq ! nat i")
      case None
      then show ?thesis
        using less.hyps [OF dec j, of net] False sl by (simp add: flush_loop.simps [of mq fd i])
    next
      case (Some str)
      note ld = slot_string [OF wf less.prems Some]
      obtain r c where w: "sys_write (sds_content str) (net fd) = (r, c)" by fastforce
      show ?thesis
      proof (cases r)
        case (Inl e)
        then show ?thesis
          using False sl Some ld w less.prems
          by (intro exI [of _ False] exI [of _ i] exI [of _ c]) (simp add: flush_loop.simps [of mq fd i])
      next
        case (Inr n)
        then show ?thesis
          using less.hyps [OF dec j, of "net(fd := c)"] False sl Some ld w
          by (simp add: flush_loop.simps [of mq fd i])
      qed
    qed
  qed
qed

section \<open>The invariant\<close>

text \<open>The server never takes a message out, so the ring always starts at index 0.\<close>

definition ring_inv :: "MessageQueue \<Rightarrow> bool" where
  "ring_inv mq \<longleftrightarrow> mq_inv mq \<and> (start_idx mq = MQ_EMPTY_SENTINEL \<or> start_idx mq = 0)"

definition server_inv :: "int \<Rightarrow> server \<Rightarrow> bool" where
  "server_inv server_fd st \<longleftrightarrow>
     fds_inv (fdstate st) \<and> watched (fdstate st) \<noteq> [] \<and> hd (watched (fdstate st)) = server_fd \<and>
     (\<forall>mq. mqueue st = Some mq \<longrightarrow> ring_inv mq)"

text \<open>Messages are only ever added.\<close>

definition evolves :: "server \<Rightarrow> server \<Rightarrow> bool" where
  "evolves st st' \<longleftrightarrow>
     (case mqueue st of
        None \<Rightarrow> mqueue st' = None
      | Some mq \<Rightarrow>
          (\<exists>mq'. mqueue st' = Some mq' \<and> capacity mq' = capacity mq \<and>
             prefix (mq_items mq) (mq_items mq')))"

text \<open>
  While the ring is not full: the connection of every registered client has received the
  messages before its offset and nothing else. (Descriptor -1 is what a failed \<open>accept\<close> leaves.)
\<close>

definition client_ok :: "conns \<Rightarrow> MessageQueue \<Rightarrow> MQClient \<Rightarrow> bool" where
  "client_ok net mq c \<longleftrightarrow>
     (0 \<le> client_fd c \<longrightarrow>
        roff c \<le> int (get_length mq) \<and>
        sink (net (client_fd c)) = concat (take (nat (roff c)) (mq_items mq)) \<and>
        list_all takes_message (writes (net (client_fd c))))"

definition delivered :: "server \<Rightarrow> bool" where
  "delivered st \<longleftrightarrow>
     (\<forall>mq. mqueue st = Some mq \<longrightarrow> get_length mq < capacity mq \<longrightarrow>
        distinct (filter (\<lambda>fd. 0 \<le> fd) (map client_fd (clients mq))) \<and>
        (\<forall>c \<in> set (clients mq). client_ok (conn st) mq c))"

definition step_ok :: "int \<Rightarrow> server \<Rightarrow> server \<Rightarrow> bool" where
  "step_ok server_fd st st' \<longleftrightarrow>
     server_inv server_fd st' \<and> evolves st st' \<and> (delivered st \<longrightarrow> delivered st')"

lemma evolves_refl [simp]: "evolves st st"
  by (simp add: evolves_def split: option.splits)

lemma evolves_trans: "evolves a b \<Longrightarrow> evolves b c \<Longrightarrow> evolves a c"
  by (auto simp: evolves_def split: option.splits intro: prefix_order.trans)

lemma step_ok_refl: "server_inv sfd st \<Longrightarrow> step_ok sfd st st"
  by (simp add: step_ok_def)

lemma step_ok_trans: "step_ok sfd a b \<Longrightarrow> step_ok sfd b c \<Longrightarrow> step_ok sfd a c"
  by (auto simp: step_ok_def intro: evolves_trans)

text \<open>Steps that only say something, or change what no invariant looks at.\<close>

lemma server_inv_frame:
  "fdstate st' = fdstate st \<Longrightarrow> mqueue st' = mqueue st \<Longrightarrow> server_inv sfd st' = server_inv sfd st"
  by (simp add: server_inv_def)

lemma delivered_frame:
  "mqueue st' = mqueue st \<Longrightarrow> (\<And>fd. sink (conn st' fd) = sink (conn st fd)) \<Longrightarrow>
     (\<And>fd. writes (conn st' fd) = writes (conn st fd)) \<Longrightarrow> delivered st' = delivered st"
  by (simp add: delivered_def client_ok_def)

lemma evolves_frame: "mqueue st' = mqueue st \<Longrightarrow> evolves st st'"
  by (simp add: evolves_def split: option.splits)

lemma step_ok_say: "server_inv sfd st \<Longrightarrow> step_ok sfd st (say d st)"
  using server_inv_frame [of "say d st" st] delivered_frame [of "say d st" st] evolves_frame [of "say d st" st]
  by (simp add: step_ok_def say_def)

lemma step_ok_said: "step_ok sfd st st1 \<Longrightarrow> step_ok sfd st (say d st1)"
  by (rule step_ok_trans [OF _ step_ok_say]) (simp_all add: step_ok_def)

lemma client_subseq:
  "subseq cs' cs \<Longrightarrow> set cs' \<subseteq> set cs \<and>
     (distinct (filter Q (map f cs)) \<longrightarrow> distinct (filter Q (map f cs')))"
proof (induction rule: list_emb.induct)
  case (list_emb_Cons2 x y xs ys)
  then show ?case by auto
qed auto

lemma remove_first_subseq: "subseq (remove_first p xs) xs"
  by (induction xs) auto

lemma fewer_clients:
  assumes inv: "server_inv sfd st" and mq: "mqueue st = Some mq"
    and cs: "subseq cs (clients mq)" and mq': "mqueue st' = Some (mq\<lparr>clients := cs\<rparr>)"
    and conn: "conn st' = conn st"
    and fs: "fds_inv (fdstate st')" "watched (fdstate st') \<noteq> []" "hd (watched (fdstate st')) = sfd"
  shows "step_ok sfd st st'"
proof -
  note sub = client_subseq [OF cs, of "\<lambda>fd. 0 \<le> fd" client_fd]
  have r: "ring_inv mq" using inv mq by (simp add: server_inv_def)
  then have "mq_wf mq" by (simp add: ring_inv_def mq_inv_def)
  moreover have "0 \<le> roff c \<and> roff c < int (capacity mq)" if "c \<in> set cs" for c
    using that sub calculation by (auto simp: mq_wf_def)
  ultimately have "mq_wf (mq\<lparr>clients := cs\<rparr>)" by (rule clients_update_wf)
  then have "ring_inv (mq\<lparr>clients := cs\<rparr>)" using r by (simp add: ring_inv_def mq_inv_def)
  then have "server_inv sfd st'" using fs mq' by (simp add: server_inv_def)
  moreover have "evolves st st'" using mq mq' by (simp add: evolves_def)
  moreover have "delivered st'" if "delivered st"
  proof -
    have "client_ok (conn st) (mq\<lparr>clients := cs\<rparr>) c = client_ok (conn st) mq c" for c
      by (simp add: client_ok_def)
    then show ?thesis using that mq mq' conn sub by (auto simp: delivered_def)
  qed
  ultimately show ?thesis by (simp add: step_ok_def)
qed

section \<open>A client event\<close>

lemma unregister_eq:
  "\<exists>r h'. message_queue__unregister_client (Some mq) fd h =
     (r, Some (mq\<lparr>clients := remove_first (\<lambda>c. client_fd c = fd) (clients mq)\<rparr>), h')"
  using remove_first_none [of "\<lambda>c. client_fd c = fd" "clients mq"] by auto

lemma drop_client_ok:
  assumes inv: "server_inv sfd st" and fd: "fd \<noteq> sfd"
  shows "\<exists>st'. drop_client fd st = Some st' \<and> step_ok sfd st st' \<and>
    set (watched (fdstate st')) = set (watched (fdstate st)) - {fd} \<and>
    fds_length (fdstate st') \<le> fds_length (fdstate st) \<and>
    closed st' = closed st @ [fd] \<and> conn st' = conn st \<and>
    (\<forall>mq. mqueue st = Some mq \<longrightarrow>
       mqueue st' = Some (mq\<lparr>clients := remove_first (\<lambda>c. client_fd c = fd) (clients mq)\<rparr>))"
proof -
  have fi: "fds_inv (fdstate st)" "hd (watched (fdstate st)) = sfd" "watched (fdstate st) \<noteq> []"
    using inv by (simp_all add: server_inv_def)
  obtain fs where fs: "fd_state__unwatch (fdstate st) fd = Some (0, fs)" "fds_inv fs"
    "set (watched fs) = set (watched (fdstate st)) - {fd}"
    "length (watched fs) \<le> length (watched (fdstate st))" "hd (watched fs) = sfd"
    using ws.del_total [OF fi(1), of fd] fd fi(2) by fastforce
  have "sfd \<in> set (watched fs)" using fs(3) fi fd by (metis DiffI hd_in_set singletonD)
  then have ne: "watched fs \<noteq> []" by auto
  have len: "fds_length fs \<le> fds_length (fdstate st)"
    using fs(2,4) watched_length [OF fi(1)] watched_length [OF fs(2)] by simp
  show ?thesis
  proof (cases "mqueue st")
    case None
    let ?st = "st\<lparr>fdstate := fs, mqueue := None, heap := heap st, closed := closed st @ [fd]\<rparr>"
    have "drop_client fd st = Some ?st" using fs(1) None by (simp add: drop_client_def)
    moreover have "step_ok sfd st ?st"
      using None fs ne by (simp add: step_ok_def server_inv_def evolves_def delivered_def)
    ultimately show ?thesis using fs(3) len None by (intro exI [of _ ?st]) simp
  next
    case (Some mq)
    let ?cs = "remove_first (\<lambda>c. client_fd c = fd) (clients mq)"
    obtain r h where u: "message_queue__unregister_client (Some mq) fd (heap st) =
        (r, Some (mq\<lparr>clients := ?cs\<rparr>), h)"
      using unregister_eq by blast
    let ?st = "st\<lparr>fdstate := fs, mqueue := Some (mq\<lparr>clients := ?cs\<rparr>), heap := h,
      closed := closed st @ [fd]\<rparr>"
    have "drop_client fd st = Some ?st" using fs(1) Some u by (simp add: drop_client_def)
    moreover have "step_ok sfd st ?st"
      using fewer_clients [OF inv Some remove_first_subseq, of ?st] fs ne by simp
    ultimately show ?thesis using fs(3) len Some by (intro exI [of _ ?st]) simp
  qed
qed

lemma readbuf_prefix:
  "length bs \<le> MAX_MESSAGE_LENGTH \<Longrightarrow>
     unat (of_nat (length bs) :: size_t) = length bs \<and> length bs \<le> length (readbuf bs) \<and>
     take (length bs) (readbuf bs) = bs"
  by (simp add: readbuf_def MAX_MESSAGE_LENGTH_def unat_of_nat_size)

lemma q_start:
  "message_queue__q (Some mq) (Some msg) n s = Some (r, Some mq', s') \<Longrightarrow>
     start_idx mq' = start_idx mq \<or> start_idx mq = MQ_EMPTY_SENTINEL \<and> start_idx mq' = 0"
  by (auto simp: set_slot_def split: if_splits bind_splits)

lemma queued_delivered:
  assumes del: "delivered st" and mq: "mqueue st = Some mq" and wf: "mq_wf mq" "mq_wf mq'"
    and mq': "mq_items mq' = mq_items mq @ [bs]" "clients mq' = clients mq" "capacity mq' = capacity mq"
    and st': "mqueue st' = Some mq'" "conn st' = conn st" and room: "get_length mq < capacity mq"
  shows "delivered st'"
proof -
  have "client_ok (conn st) mq' c" if ok: "client_ok (conn st) mq c" for c
  proof -
    have "get_length mq' = get_length mq + 1"
      using items_length [OF wf(1)] items_length [OF wf(2)] mq'(1) by simp
    moreover have "take (nat (roff c)) (mq_items mq @ [bs]) = take (nat (roff c)) (mq_items mq)"
      if "roff c \<le> int (get_length mq)"
      using that items_length [OF wf(1)] by simp
    ultimately show ?thesis using ok mq' by (auto simp: client_ok_def)
  qed
  then show ?thesis using del mq mq' st' room by (simp add: delivered_def)
qed

lemma enqueue_ok:
  assumes inv: "server_inv sfd st" and bs: "length bs \<le> MAX_MESSAGE_LENGTH"
  shows "\<exists>r q h. enqueue bs st = Some (r, st\<lparr>mqueue := q, heap := h\<rparr>) \<and>
    step_ok sfd st (st\<lparr>mqueue := q, heap := h\<rparr>) \<and>
    (case mqueue st of
       None \<Rightarrow> r = MQERR_NULL_POINTER \<and> q = None
     | Some mq \<Rightarrow>
         if get_length mq = capacity mq then r = MQERR_FULL \<and> q = Some mq \<and> h = heap st
         else (mallocs_ok (heap st) \<longrightarrow> mallocs_ok h \<and> r = 0) \<and>
           (if r = 0 then \<exists>mq'. q = Some mq' \<and> mq_items mq' = mq_items mq @ [bs] \<and>
              clients mq' = clients mq \<and> capacity mq' = capacity mq
            else r = MQERR_ALLOC_FAIL \<and> q = Some mq))"
proof (cases "mqueue st")
  case None
  have same: "st\<lparr>mqueue := None, heap := heap st\<rparr> = st" using None by (cases st) simp
  show ?thesis
    using None inv by (intro exI [of _ MQERR_NULL_POINTER] exI [of _ None] exI [of _ "heap st"])
      (simp add: enqueue_def same step_ok_refl)
next
  case (Some mq)
  have ri: "ring_inv mq" using inv Some by (simp add: server_inv_def)
  then have mi: "mq_inv mq" by (simp add: ring_inv_def)
  then have wf: "mq_wf mq" by (simp add: mq_inv_def)
  let ?n = "of_nat (length bs) :: size_t"
  note rb = readbuf_prefix [OF bs]
  show ?thesis
  proof (cases "get_length mq = capacity mq")
    case True
    have same: "st\<lparr>mqueue := Some mq, heap := heap st\<rparr> = st" using Some by (cases st) simp
    show ?thesis
      using Some True inv q_full [OF mi True, of "readbuf bs" ?n "heap st"]
      by (intro exI [of _ MQERR_FULL] exI [of _ "Some mq"] exI [of _ "heap st"])
        (simp add: enqueue_def same step_ok_refl del: message_queue__q.simps)
  next
    case False
    then have room: "get_length mq < capacity mq"
      using length_bounds [OF wf] wf_bounds(1) [OF wf] by (fastforce simp: get_length_def)
    obtain r mq' h where q: "message_queue__q (Some mq) (Some (readbuf bs)) ?n (heap st) = Some (r, Some mq', h)"
      "mallocs_ok (heap st) \<longrightarrow> mallocs_ok h \<and> r = 0"
      "if r = 0 then mq_inv mq' \<and> mq_items mq' = mq_items mq @ [bs] \<and>
         capacity mq' = capacity mq \<and> clients mq' = clients mq \<and> start_idx mq' \<noteq> MQ_EMPTY_SENTINEL \<and>
         live h = live (heap st) + 1
       else r = MQERR_ALLOC_FAIL \<and> mq' = mq \<and> live h = live (heap st)"
      using q_outcome [OF mi, of ?n "readbuf bs" "heap st"] rb bs room by auto
    let ?st = "st\<lparr>mqueue := Some mq', heap := h\<rparr>"
    have run: "enqueue bs st = Some (r, ?st)"
      using Some q(1) by (simp add: enqueue_def del: message_queue__q.simps)
    have "ring_inv mq'" using q(3) q_start [OF q(1)] ri by (auto simp: ring_inv_def split: if_splits)
    then have "server_inv sfd ?st" using inv by (simp add: server_inv_def)
    moreover have "evolves st ?st" using Some q(3) by (auto simp: evolves_def split: if_splits)
    moreover have "delivered ?st" if "delivered st"
      using queued_delivered [OF that Some wf, of mq' bs ?st] q(3) room that Some
      by (cases "r = 0") (auto simp: mq_inv_def delivered_def)
    ultimately have "step_ok sfd st ?st" by (simp add: step_ok_def)
    then show ?thesis
      using run Some False q(2,3)
      by (intro exI [of _ r] exI [of _ "Some mq'"] exI [of _ h]) (auto split: if_splits)
  qed
qed

lemma drop_slow_ok:
  assumes inv: "server_inv sfd st"
  shows "\<exists>q h. drop_slow st = st\<lparr>mqueue := q, heap := h\<rparr> \<and> step_ok sfd st (drop_slow st) \<and>
    (case mqueue st of None \<Rightarrow> q = None
     | Some mq \<Rightarrow> \<exists>cs. q = Some (mq\<lparr>clients := cs\<rparr>) \<and> subseq cs (clients mq))"
proof (cases "mqueue st")
  case None
  have same: "st\<lparr>mqueue := None, heap := heap st\<rparr> = st" using None by (cases st) simp
  show ?thesis
    using None inv
    by (intro exI [of _ None] exI [of _ "heap st"]) (simp add: drop_slow_def same step_ok_refl)
next
  case (Some mq)
  obtain cs h where d: "message_queue__drop_slow_consumers (Some mq) (heap st) = (Some (mq\<lparr>clients := cs\<rparr>), h)"
    "subseq cs (clients mq)"
  proof (cases "start_idx mq = MQ_EMPTY_SENTINEL \<or> get_length mq < (capacity mq * 8) mod 2 ^ 64 div 10")
    case True
    then show ?thesis using that [of "clients mq" "heap st"] by auto
  next
    case False
    then show ?thesis
      using that [of "filter (\<lambda>c. \<not> client_off mq c < drop_before_offset mq) (clients mq)"
          "snd (drop_loop mq (clients mq) (heap st))"] drop_loop_filter(1) [of mq "clients mq" "heap st"]
      by (auto simp: split_def)
  qed
  let ?st = "st\<lparr>mqueue := Some (mq\<lparr>clients := cs\<rparr>), heap := h\<rparr>"
  have run: "drop_slow st = ?st"
    using Some d(1) by (simp add: drop_slow_def del: message_queue__drop_slow_consumers.simps)
  moreover have "step_ok sfd st ?st"
    using inv fewer_clients [OF inv Some d(2), of ?st] by (simp add: server_inv_def)
  ultimately show ?thesis
    using Some d(2) by (intro exI [of _ "Some (mq\<lparr>clients := cs\<rparr>)"] exI [of _ h]) auto
qed

lemmas mq_codes = MQERR_NULL_POINTER_def MQERR_FULL_def MQERR_ALLOC_FAIL_def MQERR_MESSAGE_TOO_LONG_def

text \<open>A message that was read: what becomes of it, and what the handler returns.\<close>

definition queued :: "byte list \<Rightarrow> server \<Rightarrow> int \<Rightarrow> server \<Rightarrow> bool" where
  "queued bs st rv st' \<longleftrightarrow>
     (case mqueue st of
        None \<Rightarrow> rv = - 2 \<and> mqueue st' = None
      | Some mq \<Rightarrow> \<exists>mq'. mqueue st' = Some mq' \<and> capacity mq' = capacity mq \<and>
          (if get_length mq = capacity mq then rv = - 55 \<and> mq_items mq' = mq_items mq
           else rv = 0 \<and> mq_items mq' = mq_items mq @ [bs] \<and> clients mq' = clients mq \<or>
             rv = - 3 \<and> mq' = mq \<and> \<not> mallocs_ok (heap st)))"

lemma queue_full_ok:
  assumes inv: "server_inv sfd st" and bs: "length bs \<le> MAX_MESSAGE_LENGTH"
    and mq: "mqueue st = Some mq" and full: "get_length mq = capacity mq"
  shows "\<exists>st'. after_q bs MQERR_FULL st = Some (Returned (- 55) st') \<and> step_ok sfd st st' \<and>
    fdstate st' = fdstate st \<and> conn st' = conn st \<and> closed st' = closed st \<and> queued bs st (- 55) st'"
proof -
  obtain cs h2 where d: "drop_slow st = st\<lparr>mqueue := Some (mq\<lparr>clients := cs\<rparr>), heap := h2\<rparr>"
    "step_ok sfd st (drop_slow st)"
    using drop_slow_ok [OF inv] mq by auto
  let ?st2 = "drop_slow st"
  have inv2: "server_inv sfd ?st2" using d(2) by (simp add: step_ok_def)
  have m2: "mqueue ?st2 = Some (mq\<lparr>clients := cs\<rparr>)" using d(1) by simp
  obtain h3 where e2: "enqueue bs ?st2 = Some (MQERR_FULL, ?st2\<lparr>mqueue := mqueue ?st2, heap := h3\<rparr>)"
    "h3 = heap ?st2"
    using enqueue_ok [OF inv2 bs] m2 full by auto
  have same: "?st2\<lparr>mqueue := mqueue ?st2, heap := heap ?st2\<rparr> = ?st2" by (cases ?st2) simp
  let ?d = "Barf ''EAGAIN, push back on client to send data again''"
  have "after_q bs MQERR_FULL st = Some (Returned (- 55) (say ?d ?st2))"
    using e2 same by (simp add: after_q_def mq_codes)
  moreover have "step_ok sfd st (say ?d ?st2)" by (rule step_ok_said [OF d(2)])
  ultimately show ?thesis using mq full m2 d(1) by (simp add: queued_def say_def)
qed

text \<open>The result is not \<open>MQERR_FULL\<close>: a message is stored, or refused with one line on standard error.\<close>

lemma queue_rest_ok:
  assumes st1: "st1 = st\<lparr>mqueue := q, heap := h\<rparr>" and step: "step_ok sfd st st1"
    and r: "(r, rv, d) \<in> {(0, 0, None), (MQERR_NULL_POINTER, - 2, Some d1), (MQERR_ALLOC_FAIL, - 3, Some d2)}"
    and d: "d1 = Barf ''message queue is null fundamentally wrong, better restart''"
      "d2 = Barf ''Message Queue Allocation Failure.''"
  shows "\<exists>st'. after_q bs r st1 = Some (Returned rv st') \<and> step_ok sfd st st' \<and>
    fdstate st' = fdstate st \<and> mqueue st' = q \<and> conn st' = conn st \<and> closed st' = closed st"
proof -
  define st' where "st' = (case d of None \<Rightarrow> st1 | Some x \<Rightarrow> say x st1)"
  have "after_q bs r st1 = Some (Returned rv st')"
    using r d by (auto simp: after_q_def mq_codes st'_def)
  then show ?thesis using step step_ok_said [OF step] st1 by (cases d) (auto simp: st'_def say_def)
qed

lemma queue_message_ok:
  assumes inv: "server_inv sfd st" and bs: "length bs \<le> MAX_MESSAGE_LENGTH"
  shows "\<exists>r st1 rv st'. enqueue bs st = Some (r, st1) \<and> after_q bs r st1 = Some (Returned rv st') \<and>
    step_ok sfd st st' \<and> fdstate st' = fdstate st \<and> conn st' = conn st \<and> closed st' = closed st \<and>
    queued bs st rv st'"
proof -
  obtain r q h where e: "enqueue bs st = Some (r, st\<lparr>mqueue := q, heap := h\<rparr>)"
    "step_ok sfd st (st\<lparr>mqueue := q, heap := h\<rparr>)"
    "case mqueue st of
       None \<Rightarrow> r = MQERR_NULL_POINTER \<and> q = None
     | Some mq \<Rightarrow>
         if get_length mq = capacity mq then r = MQERR_FULL \<and> q = Some mq \<and> h = heap st
         else (mallocs_ok (heap st) \<longrightarrow> mallocs_ok h \<and> r = 0) \<and>
           (if r = 0 then \<exists>mq'. q = Some mq' \<and> mq_items mq' = mq_items mq @ [bs] \<and>
              clients mq' = clients mq \<and> capacity mq' = capacity mq
            else r = MQERR_ALLOC_FAIL \<and> q = Some mq)"
    using enqueue_ok [OF inv bs] by blast
  note rest = queue_rest_ok [OF refl e(2) _ refl refl, of r _ _ bs]
  show ?thesis
  proof (cases "\<exists>mq. mqueue st = Some mq \<and> get_length mq = capacity mq")
    case True
    then obtain mq where mq: "mqueue st = Some mq" "get_length mq = capacity mq" by blast
    have "r = MQERR_FULL" "st\<lparr>mqueue := q, heap := h\<rparr> = st" using e(3) mq by (cases st; simp)+
    then show ?thesis using e(1) queue_full_ok [OF inv bs mq] by auto
  next
    case False
    define rv :: int where "rv = (if r = 0 then 0 else if mqueue st = None then - 2 else - 3)"
    have "\<exists>st'. after_q bs r (st\<lparr>mqueue := q, heap := h\<rparr>) = Some (Returned rv st') \<and> step_ok sfd st st' \<and>
        fdstate st' = fdstate st \<and> mqueue st' = q \<and> conn st' = conn st \<and> closed st' = closed st"
      using e(3) False rest [of rv] by (auto simp: rv_def mq_codes split: option.splits if_splits)
    then show ?thesis
      using e(1,3) False by (fastforce simp: queued_def rv_def mq_codes split: option.splits if_splits)
  qed
qed

text \<open>A client that is gone: not watched, not registered (once), its descriptor closed.\<close>

definition gone :: "int \<Rightarrow> server \<Rightarrow> int \<Rightarrow> server \<Rightarrow> bool" where
  "gone fd st rv st' \<longleftrightarrow>
     rv = 0 \<and> set (watched (fdstate st')) = set (watched (fdstate st)) - {fd} \<and>
     closed st' = closed st @ [fd] \<and>
     (\<forall>mq. mqueue st = Some mq \<longrightarrow>
        mqueue st' = Some (mq\<lparr>clients := remove_first (\<lambda>c. client_fd c = fd) (clients mq)\<rparr>))"

definition client_event_post :: "pollfd \<Rightarrow> server \<Rightarrow> int \<Rightarrow> server \<Rightarrow> bool" where
  "client_event_post ev st rv st' \<longleftrightarrow>
     (if revents ev AND POLLIN \<noteq> 0 then
        (case fst (sys_read MAX_MESSAGE_LENGTH (conn st (pfd ev))) of
           Inl e \<Rightarrow> gone (pfd ev) st rv st'
         | Inr bs \<Rightarrow>
             if bs = [] then gone (pfd ev) st rv st'
             else queued bs st rv st' \<and> fdstate st' = fdstate st \<and> closed st' = closed st)
      else if revents ev AND (POLLHUP OR POLLRDHUP) \<noteq> 0 then gone (pfd ev) st rv st'
      else rv = 0 \<and> st' = st)"

lemma handle_client_event_ok:
  assumes inv: "server_inv sfd st" and ev: "pfd ev \<noteq> sfd"
  shows "\<exists>rv st'. handle_client_event ev st = Some (Returned rv st') \<and> step_ok sfd st st' \<and>
    fds_length (fdstate st') \<le> fds_length (fdstate st) \<and> client_event_post ev st rv st'"
proof (cases "revents ev AND POLLIN \<noteq> 0")
  case True
  obtain r c where rd: "sys_read MAX_MESSAGE_LENGTH (conn st (pfd ev)) = (r, c)" by fastforce
  let ?st1 = "st\<lparr>conn := (conn st)(pfd ev := c)\<rparr>"
  note fr = sys_read_frame [OF rd]
  have inv1: "server_inv sfd ?st1" using inv server_inv_frame [of ?st1 st sfd] by simp
  have "delivered ?st1 = delivered st" using fr by (intro delivered_frame) simp_all
  then have step1: "step_ok sfd st ?st1" using inv1 by (simp add: step_ok_def evolves_frame)
  have drop: "\<exists>st'. drop_client (pfd ev) ?st1 = Some st' \<and> step_ok sfd st st' \<and>
      fds_length (fdstate st') \<le> fds_length (fdstate st) \<and> gone (pfd ev) st 0 st'"
    using drop_client_ok [OF inv1 ev] step1 by (fastforce simp: gone_def intro: step_ok_trans)
  show ?thesis
  proof (cases "\<exists>bs. r = Inr bs \<and> bs \<noteq> []")
    case False
    then have r: "(\<exists>e. r = Inl e) \<or> r = Inr []" by (cases r) auto
    obtain st' where d: "drop_client (pfd ev) ?st1 = Some st'" "step_ok sfd st st'"
      "fds_length (fdstate st') \<le> fds_length (fdstate st)" "gone (pfd ev) st 0 st'"
      using drop by blast
    have "handle_client_event ev st = Some (Returned 0 st')"
      using True rd d(1) r by (auto simp: handle_client_event_def)
    then show ?thesis
      using True rd d r by (intro exI [of _ 0] exI [of _ st']) (auto simp: client_event_post_def)
  next
    case bs: True
    then obtain bs where bs: "r = Inr bs" "bs \<noteq> []" by blast
    then have len: "length bs \<le> MAX_MESSAGE_LENGTH" using rd inp.read_bound by blast
    obtain mq_err st2 rv st' where q: "enqueue bs ?st1 = Some (mq_err, st2)"
      "after_q bs mq_err st2 = Some (Returned rv st')" "step_ok sfd ?st1 st'"
      "fdstate st' = fdstate st" "closed st' = closed st" "queued bs ?st1 rv st'"
      using queue_message_ok [OF inv1 len] by auto
    have "handle_client_event ev st = Some (Returned rv st')"
      using True rd bs q(1,2) by (simp add: handle_client_event_def)
    moreover have "queued bs ?st1 rv st' = queued bs st rv st'"
      unfolding queued_def by (simp cong: option.case_cong)
    with q(6) have "queued bs st rv st'" by simp
    ultimately show ?thesis
      using True rd bs q step1
      by (intro exI [of _ rv] exI [of _ st']) (auto simp: client_event_post_def intro: step_ok_trans)
  qed
next
  case False
  then show ?thesis
    using drop_client_ok [OF inv ev] step_ok_refl [OF inv]
    by (fastforce simp: handle_client_event_def client_event_post_def gone_def)
qed

section \<open>The loops over the clients\<close>

lemma watched_entry:
  assumes "server_inv sfd st" and "i < fds_length (fdstate st)"
  shows "\<exists>ev. fds_at st i = Some ev \<and> pfd ev = watched (fdstate st) ! i \<and> (0 < i \<longrightarrow> pfd ev \<noteq> sfd)"
proof -
  have fi: "fds_inv (fdstate st)" "hd (watched (fdstate st)) = sfd" "watched (fdstate st) \<noteq> []"
    using assms(1) by (simp_all add: server_inv_def)
  have len: "i < length (fds (fdstate st))" "i < length (watched (fdstate st))"
    using fi(1) assms(2) watched_length [OF fi(1)] by (auto simp: fds_inv_def)
  have e: "pfd (fds (fdstate st) ! i) = watched (fdstate st) ! i"
    using len assms(2) by (simp add: watched_def)
  have "watched (fdstate st) ! i \<noteq> watched (fdstate st) ! 0" if "0 < i"
    using that fi(1,3) len(2) nth_eq_iff_index_eq [of "watched (fdstate st)" i 0] by (simp add: fds_inv_def)
  then show ?thesis using e len(1) fi(2,3) by (simp add: fds_at_def hd_conv_nth)
qed

lemma client_loop_ok:
  "server_inv sfd st \<Longrightarrow> 0 < i \<Longrightarrow>
     \<exists>st'. client_loop i st = Some (Inr st') \<and> step_ok sfd st st' \<and>
       fds_length (fdstate st') \<le> fds_length (fdstate st)"
proof (induction "fds_length (fdstate st) - i" arbitrary: i st rule: less_induct)
  case less
  show ?case
  proof (cases "i < fds_length (fdstate st)")
    case False
    then show ?thesis
      using less.prems by (simp add: client_loop.simps step_ok_refl)
  next
    case True
    obtain ev where ev: "fds_at st i = Some ev" "pfd ev \<noteq> sfd"
      using watched_entry [OF less.prems(1) True] less.prems(2) by auto
    obtain rv st1 where h: "handle_client_event ev st = Some (Returned rv st1)" "step_ok sfd st st1"
      "fds_length (fdstate st1) \<le> fds_length (fdstate st)"
      using handle_client_event_ok [OF less.prems(1) ev(2)] by blast
    have inv1: "server_inv sfd st1" using h(2) by (simp add: step_ok_def)
    have "fds_length (fdstate st1) - (i + 1) < fds_length (fdstate st) - i" using h(3) True by simp
    from less.hyps [OF this inv1] obtain st' where st': "client_loop (i + 1) st1 = Some (Inr st')"
      "step_ok sfd st1 st'" "fds_length (fdstate st') \<le> fds_length (fdstate st1)" by auto
    have "client_loop i st = Some (Inr st')"
      using True ev(1) h(1) st'(1) by (simp add: client_loop.simps [of i st])
    then show ?thesis
      using h st' by (intro exI [of _ st']) (auto intro: step_ok_trans)
  qed
qed

text \<open>A registered client whose offset is the end of a ring that is not full.\<close>

definition caught_up :: "server \<Rightarrow> int \<Rightarrow> bool" where
  "caught_up st fd \<longleftrightarrow>
     (\<forall>mq c. mqueue st = Some mq \<longrightarrow> get_length mq < capacity mq \<longrightarrow> c \<in> set (clients mq) \<longrightarrow>
        client_fd c = fd \<longrightarrow> 0 \<le> fd \<longrightarrow> roff c = int (get_length mq))"

lemma map_update_first: "(\<And>x. g (f x) = g x) \<Longrightarrow> map g (update_first p f xs) = map g xs"
  by (induction xs) auto

lemma update_first_other: "\<not> p y \<Longrightarrow> (\<And>x. p x \<Longrightarrow> p (f x)) \<Longrightarrow> y \<in> set (update_first p f xs) \<Longrightarrow> y \<in> set xs"
  by (induction xs) (auto split: if_splits)

text \<open>With distinct keys, the first entry of a key is the only one.\<close>

lemma update_first_only:
  assumes "distinct (filter Q (map k xs))" and "Q a" and "find (\<lambda>x. k x = a) xs = Some c"
    and "\<And>x. k (f x) = k x" and "y \<in> set (update_first (\<lambda>x. k x = a) f xs)"
  shows "(k y = a \<longrightarrow> y = f c) \<and> (k y \<noteq> a \<longrightarrow> y \<in> set xs)"
  using assms
proof (induction xs)
  case Nil
  then show ?case by simp
next
  case (Cons x xs)
  show ?case
  proof (cases "k x = a")
    case True
    then have "\<forall>z \<in> set xs. k z \<noteq> a" using Cons.prems(1,2) by (auto simp: image_iff)
    then show ?thesis using Cons.prems True by auto
  next
    case False
    then have "distinct (filter Q (map k xs))" "find (\<lambda>x. k x = a) xs = Some c"
      using Cons.prems(1,3) by (auto split: if_splits)
    then show ?thesis using Cons.IH Cons.prems False by auto
  qed
qed

lemma send_all_takes:
  "list_all takes_message (writes c) \<Longrightarrow> list_all takes_message (writes (snd (send_all ms c)))"
proof (induction ms arbitrary: c)
  case (Cons m ms)
  obtain r c1 where w: "sys_write m c = (r, c1)" by fastforce
  then have "list_all takes_message (writes c1)"
    using Cons.prems
    by (auto simp: sys_write_def Let_def split: list.splits write_choice.splits)
  then show ?case using Cons.IH [of c1] w by (cases r) (auto split: prod.splits)
qed simp

lemma ring_offset:
  assumes "ring_inv mq" and "start_idx mq \<noteq> MQ_EMPTY_SENTINEL"
  shows "start_idx mq = 0 \<and> (get_length mq < capacity mq \<longrightarrow> end_idx mq = int (get_length mq))"
proof -
  have "mq_wf mq" using assms(1) by (simp add: ring_inv_def mq_inv_def)
  then show ?thesis using assms length_bounds [of mq] by (simp add: ring_inv_def)
qed

lemma full_enough:
  assumes "mq_wf mq" and "list_all takes_message (writes c)"
  shows "\<exists>c'. send_all (drop k (mq_items mq)) c = (get_length mq - k, c') \<and>
    sink c' = sink c @ concat (drop k (mq_items mq)) \<and> list_all takes_message (writes c')"
proof -
  have "list_all mq_fits (drop k (mq_items mq))"
    using assms(1) content_length
    by (fastforce simp: mq_wf_def mq_items_def list_all_iff mq_fits_def dest: in_set_dropD)
  then obtain c' where "send_all (drop k (mq_items mq)) c = (length (drop k (mq_items mq)), c')"
    "sink c' = sink c @ concat (drop k (mq_items mq))"
    using send_all_full [OF assms(2)] by blast
  then show ?thesis
    using send_all_takes [OF assms(2), of "drop k (mq_items mq)"] items_length [OF assms(1)] by simp
qed

lemma flush_found:
  assumes ri: "ring_inv mq" and ne: "get_length mq \<noteq> 0"
    and c: "find (\<lambda>c. client_fd c = fd) (clients mq) = Some c"
  shows "\<exists>rv off cn. message_queue__flush (Some mq) fd net =
      Some (rv, Some (mq\<lparr>clients := update_first (\<lambda>c. client_fd c = fd) (\<lambda>c. c\<lparr>roff := off\<rparr>) (clients mq)\<rparr>),
            net(fd := cn)) \<and>
    0 \<le> off \<and> off < int (capacity mq) \<and>
    (get_length mq < capacity mq \<longrightarrow> roff c \<le> int (get_length mq) \<longrightarrow>
       list_all takes_message (writes (net fd)) \<longrightarrow>
       off = int (get_length mq) \<and> list_all takes_message (writes cn) \<and>
       sink cn = sink (net fd) @ concat (drop (nat (roff c)) (mq_items mq)))"
proof -
  have wf: "mq_wf mq" using ri by (simp add: ring_inv_def mq_inv_def)
  have "c \<in> set (clients mq)" "client_fd c = fd" using c by (auto simp: find_Some_iff)
  then have b: "0 \<le> roff c" "roff c < int (capacity mq)" "client_fd c = fd"
    using wf by (auto simp: mq_wf_def)
  have st: "start_idx mq \<noteq> MQ_EMPTY_SENTINEL" using ne by (auto simp: get_length_def)
  obtain s off cn where l: "flush_loop mq fd (roff c) net = Some (s, off, net(fd := cn))" "0 \<le> off"
    "off < int (capacity mq)"
    using flush_loop_total [OF wf b(1,2)] by blast
  have run: "message_queue__flush (Some mq) fd net =
      Some (if s then 0 else - 1, Some (mq\<lparr>clients := update_first (\<lambda>c. client_fd c = fd)
              (\<lambda>c. c\<lparr>roff := off\<rparr>) (clients mq)\<rparr>), net(fd := cn))"
    using ne c l(1) b(3) by simp
  have "off = int (get_length mq) \<and> list_all takes_message (writes cn) \<and>
       sink cn = sink (net fd) @ concat (drop (nat (roff c)) (mq_items mq))"
    if small: "get_length mq < capacity mq" "roff c \<le> int (get_length mq)"
      "list_all takes_message (writes (net fd))"
  proof -
    let ?k = "nat (roff c)"
    obtain c' where s: "send_all (drop ?k (mq_items mq)) (net fd) = (get_length mq - ?k, c')"
      "sink c' = sink (net fd) @ concat (drop ?k (mq_items mq))" "list_all takes_message (writes c')"
      using full_enough [OF wf small(3)] by blast
    have "flush_loop mq fd (roff c) net = Some (True, end_idx mq, net(fd := c'))"
      using flush_loop_outcome [OF wf st, of ?k fd net] small b ring_offset [OF ri st] s(1) by simp
    then have "off = end_idx mq" "net(fd := cn) = net(fd := c')" using l(1) by auto
    then have "off = end_idx mq" "cn = c'" by (auto dest: fun_upd_eqD)
    then show ?thesis using s ring_offset [OF ri st] small(1) by simp
  qed
  then show ?thesis using run l(2,3) by blast
qed

text \<open>A flush that finds no reader, or nothing to read, changes nothing.\<close>

lemma flush_idle:
  assumes inv: "server_inv sfd st"
    and idle: "\<And>mq. mqueue st = Some mq \<Longrightarrow>
      get_length mq = 0 \<or> find (\<lambda>c. client_fd c = fd) (clients mq) = None"
  shows "\<exists>rv. message_queue__flush (mqueue st) fd (conn st) = Some (rv, mqueue st, conn st) \<and>
    (delivered st \<longrightarrow> caught_up st fd)"
proof (cases "mqueue st")
  case None
  then show ?thesis by (simp add: caught_up_def)
next
  case (Some mq)
  have wf: "mq_wf mq" using inv Some by (simp add: server_inv_def ring_inv_def mq_inv_def)
  have "caught_up st fd" if "delivered st"
  proof (cases "get_length mq = 0")
    case True
    have "client_ok (conn st) mq c \<and> 0 \<le> roff c" if "c \<in> set (clients mq)" for c
      using that \<open>delivered st\<close> Some True wf_bounds(1) [OF wf] wf by (simp add: delivered_def mq_wf_def)
    then show ?thesis using Some True by (force simp: caught_up_def client_ok_def)
  next
    case False
    then have "\<forall>c \<in> set (clients mq). client_fd c \<noteq> fd" using idle [OF Some] by (auto simp: find_None_iff)
    then show ?thesis using Some by (auto simp: caught_up_def)
  qed
  then show ?thesis using Some idle [OF Some] by (cases "get_length mq = 0") auto
qed

text \<open>The clients after a flush of one of them: it has everything, the others are as before.\<close>

lemma flushed_reader:
  assumes wf: "mq_wf mq" and c: "find (\<lambda>c. client_fd c = fd) (clients mq) = Some c"
    and dist: "distinct (filter (\<lambda>fd. 0 \<le> fd) (map client_fd (clients mq)))"
    and ok: "\<And>x. x \<in> set (clients mq) \<Longrightarrow> client_ok net mq x"
    and flushed: "roff c \<le> int (get_length mq) \<Longrightarrow> list_all takes_message (writes (net fd)) \<Longrightarrow>
      off = int (get_length mq) \<and> list_all takes_message (writes cn) \<and>
      sink cn = sink (net fd) @ concat (drop (nat (roff c)) (mq_items mq))"
    and y: "y \<in> set (update_first (\<lambda>c. client_fd c = fd) (\<lambda>c. c\<lparr>roff := off\<rparr>) (clients mq))"
  shows "client_ok (net(fd := cn)) (mq\<lparr>clients := cs\<rparr>) y \<and>
    (0 \<le> fd \<longrightarrow> client_fd y = fd \<longrightarrow> roff y = int (get_length mq)) \<and>
    (client_fd y \<noteq> fd \<longrightarrow> y \<in> set (clients mq))"
proof (cases "0 \<le> fd")
  case True
  have "c \<in> set (clients mq)" "client_fd c = fd" using c by (auto simp: find_Some_iff)
  with ok True have okc: "roff c \<le> int (get_length mq)"
    "sink (net fd) = concat (take (nat (roff c)) (mq_items mq))"
    "list_all takes_message (writes (net fd))" by (auto simp: client_ok_def)
  have out: "off = int (get_length mq)" "list_all takes_message (writes cn)"
    "sink cn = concat (take (nat (roff c)) (mq_items mq)) @ concat (drop (nat (roff c)) (mq_items mq))"
    using flushed okc by auto
  have all: "sink cn = concat (mq_items mq)"
    unfolding out(3) concat_append [symmetric] by simp
  have "(client_fd y = fd \<longrightarrow> y = c\<lparr>roff := off\<rparr>) \<and> (client_fd y \<noteq> fd \<longrightarrow> y \<in> set (clients mq))"
    using update_first_only [OF dist True c _ y] by simp
  then show ?thesis
    using out all ok items_length [OF wf] by (auto simp: client_ok_def)
next
  case False
  have "y \<in> set (clients mq)" if "client_fd y \<noteq> fd"
    using that y update_first_other [of "\<lambda>c. client_fd c = fd" y "\<lambda>c. c\<lparr>roff := off\<rparr>"] by simp
  then show ?thesis using False ok by (auto simp: client_ok_def)
qed

lemma flush_reader_ok:
  assumes inv: "server_inv sfd st" and mq: "mqueue st = Some mq" and ne: "get_length mq \<noteq> 0"
    and c: "find (\<lambda>c. client_fd c = fd) (clients mq) = Some c"
  shows "\<exists>rv q net. message_queue__flush (mqueue st) fd (conn st) = Some (rv, q, net) \<and>
    step_ok sfd st (st\<lparr>mqueue := q, conn := net\<rparr>) \<and>
    (delivered st \<longrightarrow> caught_up (st\<lparr>mqueue := q, conn := net\<rparr>) fd \<and>
       (\<forall>fd'. caught_up st fd' \<longrightarrow> caught_up (st\<lparr>mqueue := q, conn := net\<rparr>) fd'))"
proof -
  let ?p = "\<lambda>c. client_fd c = fd"
  have ri: "ring_inv mq" using inv mq by (simp add: server_inv_def)
  then have wf: "mq_wf mq" by (simp add: ring_inv_def mq_inv_def)
  obtain rv off cn where f: "message_queue__flush (Some mq) fd (conn st) =
      Some (rv, Some (mq\<lparr>clients := update_first ?p (\<lambda>c. c\<lparr>roff := off\<rparr>) (clients mq)\<rparr>),
        (conn st)(fd := cn))"
    "0 \<le> off" "off < int (capacity mq)"
    "get_length mq < capacity mq \<longrightarrow> roff c \<le> int (get_length mq) \<longrightarrow>
     list_all takes_message (writes (conn st fd)) \<longrightarrow>
     off = int (get_length mq) \<and> list_all takes_message (writes cn) \<and>
     sink cn = sink (conn st fd) @ concat (drop (nat (roff c)) (mq_items mq))"
    using flush_found [OF ri ne c, of "conn st"] by blast
  let ?cs = "update_first ?p (\<lambda>c. c\<lparr>roff := off\<rparr>) (clients mq)"
  let ?mq = "mq\<lparr>clients := ?cs\<rparr>"
  let ?st = "st\<lparr>mqueue := Some ?mq, conn := (conn st)(fd := cn)\<rparr>"
  have "mq_wf ?mq"
    using f(2,3) wf by (intro clients_update_wf) (auto simp: mq_wf_def dest!: set_update_first)
  then have "server_inv sfd ?st"
    using inv ri by (simp add: server_inv_def ring_inv_def mq_inv_def)
  moreover have "evolves st ?st" using mq by (simp add: evolves_def)
  moreover have facts: "client_ok (conn ?st) ?mq y \<and>
      (0 \<le> fd \<longrightarrow> client_fd y = fd \<longrightarrow> roff y = int (get_length mq)) \<and>
      (client_fd y \<noteq> fd \<longrightarrow> y \<in> set (clients mq))"
    if d: "delivered st" and small: "get_length mq < capacity mq" and y: "y \<in> set ?cs" for y
  proof -
    have before: "distinct (filter (\<lambda>fd. 0 \<le> fd) (map client_fd (clients mq)))"
      "\<And>x. x \<in> set (clients mq) \<Longrightarrow> client_ok (conn st) mq x"
      using d mq small by (auto simp: delivered_def)
    have "client_ok ((conn st)(fd := cn)) ?mq y \<and>
        (0 \<le> fd \<longrightarrow> client_fd y = fd \<longrightarrow> roff y = int (get_length mq)) \<and>
        (client_fd y \<noteq> fd \<longrightarrow> y \<in> set (clients mq))"
      using f(4) small by (intro flushed_reader [OF wf c before _ y]) blast+
    then show ?thesis by simp
  qed
  moreover have "delivered ?st" if d: "delivered st"
    using facts [OF d] d mq by (auto simp: delivered_def map_update_first)
  moreover have "caught_up ?st fd'" if d: "delivered st" and fd': "fd' = fd \<or> caught_up st fd'" for fd'
  proof -
    have "roff y = int (get_length mq)"
      if y: "get_length mq < capacity mq" "y \<in> set ?cs" "client_fd y = fd'" "0 \<le> fd'" for y
      using facts [OF d y(1,2)] y fd' mq by (cases "fd' = fd") (simp_all add: caught_up_def)
    then show ?thesis by (simp add: caught_up_def)
  qed
  ultimately show ?thesis
    using f(1) mq by (intro exI [of _ rv] exI [of _ "Some ?mq"] exI [of _ "(conn st)(fd := cn)"])
      (simp add: step_ok_def del: message_queue__flush.simps)
qed

lemma flush_client_ok:
  assumes inv: "server_inv sfd st"
  shows "\<exists>rv q net. message_queue__flush (mqueue st) fd (conn st) = Some (rv, q, net) \<and>
    step_ok sfd st (st\<lparr>mqueue := q, conn := net\<rparr>) \<and>
    (delivered st \<longrightarrow> caught_up (st\<lparr>mqueue := q, conn := net\<rparr>) fd \<and>
       (\<forall>fd'. caught_up st fd' \<longrightarrow> caught_up (st\<lparr>mqueue := q, conn := net\<rparr>) fd'))"
proof (cases "\<exists>mq c. mqueue st = Some mq \<and> get_length mq \<noteq> 0 \<and>
    find (\<lambda>c. client_fd c = fd) (clients mq) = Some c")
  case True
  then show ?thesis using flush_reader_ok [OF inv] by blast
next
  case False
  then obtain rv where f: "message_queue__flush (mqueue st) fd (conn st) = Some (rv, mqueue st, conn st)"
    "delivered st \<longrightarrow> caught_up st fd"
    using flush_idle [OF inv, of fd] by (metis option.exhaust)
  have same: "st\<lparr>mqueue := mqueue st, conn := conn st\<rparr> = st" by (cases st) simp
  show ?thesis
    by (rule exI [of _ rv], rule exI [of _ "mqueue st"], rule exI [of _ "conn st"])
      (unfold same, simp only: f(1) step_ok_refl [OF inv], simp add: f(2))
qed

lemma flush_clients_ok:
  "server_inv sfd st \<Longrightarrow> 
     \<exists>st'. flush_clients i st = Some st' \<and> step_ok sfd st st' \<and> fdstate st' = fdstate st \<and>
       (delivered st \<longrightarrow>
          (\<forall>j. i \<le> j \<longrightarrow> j < fds_length (fdstate st) \<longrightarrow> caught_up st' (watched (fdstate st) ! j)) \<and>
          (\<forall>fd. caught_up st fd \<longrightarrow> caught_up st' fd))"
proof (induction "fds_length (fdstate st) - i" arbitrary: i st rule: less_induct)
  case less
  show ?case
  proof (cases "i < fds_length (fdstate st)")
    case False
    then show ?thesis using less.prems by (simp add: flush_clients.simps step_ok_refl)
  next
    case True
    obtain ev where ev: "fds_at st i = Some ev" "pfd ev = watched (fdstate st) ! i"
      using watched_entry [OF less.prems(1) True] by auto
    obtain rv q net where f: "message_queue__flush (mqueue st) (pfd ev) (conn st) = Some (rv, q, net)"
      "step_ok sfd st (st\<lparr>mqueue := q, conn := net\<rparr>)"
      "delivered st \<longrightarrow> caught_up (st\<lparr>mqueue := q, conn := net\<rparr>) (pfd ev) \<and>
       (\<forall>fd'. caught_up st fd' \<longrightarrow> caught_up (st\<lparr>mqueue := q, conn := net\<rparr>) fd')"
      using flush_client_ok [OF less.prems(1), of "pfd ev"] by blast
    let ?st1 = "st\<lparr>mqueue := q, conn := net\<rparr>"
    have inv1: "server_inv sfd ?st1" using f(2) by (simp add: step_ok_def)
    have "fds_length (fdstate ?st1) - (i + 1) < fds_length (fdstate st) - i" using True by simp
    from less.hyps [OF this inv1] obtain st' where st': "flush_clients (i + 1) ?st1 = Some st'"
      "step_ok sfd ?st1 st'" "fdstate st' = fdstate st"
      "delivered ?st1 \<longrightarrow>
         (\<forall>j. i + 1 \<le> j \<longrightarrow> j < fds_length (fdstate st) \<longrightarrow> caught_up st' (watched (fdstate st) ! j)) \<and>
         (\<forall>fd. caught_up ?st1 fd \<longrightarrow> caught_up st' fd)" by auto
    have "flush_clients i st = Some st'"
      using True ev(1) f(1) st'(1) by (simp add: flush_clients.simps [of i st])
    moreover have "(\<forall>j. i \<le> j \<longrightarrow> j < fds_length (fdstate st) \<longrightarrow> caught_up st' (watched (fdstate st) ! j)) \<and>
          (\<forall>fd. caught_up st fd \<longrightarrow> caught_up st' fd)" if d: "delivered st"
    proof -
      have d1: "delivered ?st1" using f(2) d unfolding step_ok_def by blast
      have "caught_up st' (watched (fdstate st) ! j)" if "i \<le> j" "j < fds_length (fdstate st)" for j
        using that st'(4) d1 f(3) d ev(2) by (cases "j = i") simp_all
      then show ?thesis using st'(4) d1 f(3) d by blast
    qed
    ultimately show ?thesis using st'(3) step_ok_trans [OF f(2) st'(2)] by blast
  qed
qed

section \<open>A server event\<close>

text \<open>What the kernel promises of \<open>accept\<close>: the descriptor is not one that is in use, and nothing
  has been sent on the connection. That its writes take whole messages is assumed for the
  theorem on delivery.\<close>

definition accept_fresh :: "server \<Rightarrow> bool" where
  "accept_fresh st \<longleftrightarrow>
     (case accepts st of
        Some (fd, c) # rest \<Rightarrow>
          0 \<le> fd \<and> fd \<notin> set (watched (fdstate st)) \<and>
          (\<forall>mq. mqueue st = Some mq \<longrightarrow> fd \<notin> client_fd ` set (clients mq)) \<and>
          sink c = [] \<and> list_all takes_message (writes c)
      | _ \<Rightarrow> True)"

lemma accept_fresh_frame:
  assumes "accepts st' = accepts st" and "mqueue st' = mqueue st"
    and "watched (fdstate st') = watched (fdstate st)"
  shows "accept_fresh st' = accept_fresh st"
  unfolding accept_fresh_def assms ..

text \<open>A step that keeps everything if the kernel keeps that promise.\<close>

definition server_step :: "int \<Rightarrow> server \<Rightarrow> server \<Rightarrow> bool" where
  "server_step server_fd st st' \<longleftrightarrow>
     server_inv server_fd st' \<and> evolves st st' \<and> (accept_fresh st \<longrightarrow> delivered st \<longrightarrow> delivered st')"

lemma server_step_trans: "server_step sfd a b \<Longrightarrow> step_ok sfd b c \<Longrightarrow> server_step sfd a c"
  by (auto simp: server_step_def step_ok_def intro: evolves_trans)

lemma step_ok_server_step: "step_ok sfd a b \<Longrightarrow> server_step sfd a b"
  by (simp add: server_step_def step_ok_def)

definition connected :: "server \<Rightarrow> int \<Rightarrow> conns \<Rightarrow> bool" where
  "connected st fd net \<longleftrightarrow>
     (\<forall>x. x \<noteq> fd \<longrightarrow> net x = conn st x) \<and>
     (accept_fresh st \<longrightarrow> fd = - 1 \<or>
        0 \<le> fd \<and> (\<forall>mq. mqueue st = Some mq \<longrightarrow> fd \<notin> client_fd ` set (clients mq)) \<and>
        sink (net fd) = [] \<and> list_all takes_message (writes (net fd)))"

lemma accept_state:
  "\<exists>fd acc net. sys_accept st = (fd, st\<lparr>accepts := acc, conn := net\<rparr>) \<and> connected st fd net"
proof (cases "accepts st")
  case Nil
  then show ?thesis
    by (intro exI [of _ "- 1"] exI [of _ "accepts st"] exI [of _ "conn st"])
      (cases st, simp add: sys_accept_def connected_def)
next
  case (Cons a rest)
  show ?thesis
  proof (cases a)
    case None
    then show ?thesis
      using Cons by (intro exI [of _ "- 1"] exI [of _ rest] exI [of _ "conn st"])
        (cases st, simp add: sys_accept_def connected_def)
  next
    case (Some p)
    then show ?thesis
      using Cons
      by (intro exI [of _ "fst p"] exI [of _ rest] exI [of _ "(conn st)(fst p := snd p)"])
        (cases p, auto simp: sys_accept_def accept_fresh_def connected_def)
  qed
qed

text \<open>A client that is registered, or not for lack of memory.\<close>

lemma registered_inv:
  assumes inv: "server_inv sfd st" and mq: "mqueue st = Some mq" and z: "roff c = 0"
    and new: "mq' = mq \<or> mq' = mq\<lparr>clients := c # clients mq\<rparr>"
    and st': "fdstate st' = fdstate st" "mqueue st' = Some mq'"
  shows "server_inv sfd st'"
proof -
  have ri: "ring_inv mq" using inv mq by (simp add: server_inv_def)
  then have wf: "mq_wf mq" by (simp add: ring_inv_def mq_inv_def)
  have "mq_wf (mq\<lparr>clients := c # clients mq\<rparr>)"
    using wf z wf_bounds(1) [OF wf] by (intro clients_update_wf) (auto simp: mq_wf_def)
  then have "ring_inv mq'" using ri new by (auto simp: ring_inv_def mq_inv_def)
  then show ?thesis using inv st' by (simp add: server_inv_def)
qed

lemma registered_delivered:
  assumes del: "delivered st" and mq: "mqueue st = Some mq"
    and fresh: "client_fd c = - 1 \<or> 0 \<le> client_fd c \<and> client_fd c \<notin> client_fd ` set (clients mq)"
    and quiet: "0 \<le> client_fd c \<longrightarrow>
      sink (conn st (client_fd c)) = [] \<and> list_all takes_message (writes (conn st (client_fd c)))"
    and z: "roff c = 0" and new: "mq' = mq \<or> mq' = mq\<lparr>clients := c # clients mq\<rparr>"
    and st': "conn st' = conn st" "mqueue st' = Some mq'"
  shows "delivered st'"
proof -
  have "client_ok (conn st) mq c" using quiet z by (auto simp: client_ok_def)
  moreover have "client_ok (conn st) (mq\<lparr>clients := cs\<rparr>) x = client_ok (conn st) mq x" for cs x
    by (simp add: client_ok_def)
  ultimately show ?thesis using del mq fresh st' new by (auto simp: delivered_def)
qed

lemma watch_cases:
  assumes "fds_inv fs"
  shows "\<exists>rv fs'. fd_state__watch fs fd = Some (rv, fs') \<and>
    (if \<not> fds_room fs then rv = - 1 \<and> fs' = fs
     else rv = 0 \<and> watched fs' = (if fd \<in> set (watched fs) \<or> NOT fd \<in> set (watched fs)
       then watched fs else watched fs @ [fd]))"
  using ws.add_full [OF assms, of fd] ws.add_known [OF assms, of fd] ws.add_new [OF assms, of fd]
  by (cases "fds_room fs"; cases "fd \<in> set (watched fs) \<or> NOT fd \<in> set (watched fs)") auto

lemma connected_delivered:
  assumes "connected st fd net" and "accept_fresh st" and "delivered st"
    and "mqueue st' = mqueue st" and "conn st' = net"
  shows "delivered st'"
proof -
  have "client_ok net mq c = client_ok (conn st) mq c" if "mqueue st = Some mq" "c \<in> set (clients mq)" for mq c
    using assms(1,2) that by (cases "client_fd c = fd") (auto simp: client_ok_def connected_def)
  then show ?thesis using assms(3-5) by (simp add: delivered_def)
qed

text \<open>The state once the descriptor is watched, or refused.\<close>

lemma accept_watched:
  assumes "server_inv sfd st" and "connected st fd net" and "fd_state__watch (fdstate st) fd = Some (rv, fs)"
  shows "server_step sfd st (st\<lparr>accepts := acc, conn := net, fdstate := fs\<rparr>)"
proof -
  have "fds_inv (fdstate st)" "hd (watched (fdstate st)) = sfd" "watched (fdstate st) \<noteq> []"
    using assms(1) by (simp_all add: server_inv_def)
  then have "fds_inv fs" "watched fs \<noteq> []" "hd (watched fs) = sfd"
    using ws.add_total [of "fdstate st" fd] assms(3) by auto
  then show ?thesis
    using assms(1) connected_delivered [OF assms(2)] by (simp add: server_step_def server_inv_def evolves_frame)
qed

lemma accept_client_ok:
  assumes inv: "server_inv sfd st"
  shows "\<exists>rv st'. accept_client st = Some (rv, st') \<and> server_step sfd st st' \<and> rv \<in> {0, - 2, - 3}"
proof -
  obtain fd acc net where a: "sys_accept st = (fd, st\<lparr>accepts := acc, conn := net\<rparr>)" "connected st fd net"
    using accept_state by blast
  obtain rv fs where w: "fd_state__watch (fdstate st) fd = Some (rv, fs)"
    using ws.add_total [of "fdstate st" fd] inv by (auto simp: server_inv_def)
  let ?st1 = "st\<lparr>accepts := acc, conn := net, fdstate := fs\<rparr>"
  have step1: "server_step sfd st ?st1" by (rule accept_watched [OF inv a(2) w])
  then have inv1: "server_inv sfd ?st1" by (simp add: server_step_def)
  consider (unwatched) "rv = - 1" | (no_queue) "rv \<noteq> - 1" "mqueue st = None"
    | (queue) mq where "rv \<noteq> - 1" "mqueue st = Some mq" by fastforce
  then show ?thesis
  proof cases
    case unwatched
    then show ?thesis using a(1) w step1 by (simp add: accept_client_def)
  next
    case no_queue
    then have "server_step sfd st (?st1\<lparr>mqueue := None\<rparr>)" using step1 by (cases st) simp
    then show ?thesis using a(1) w no_queue by (simp add: accept_client_def)
  next
    case (queue mq)
    obtain ok h where al: "alloc_object (heap st) = (ok, h)" by fastforce
    let ?c = "\<lparr>client_fd = fd, roff = (if start_idx mq = MQ_EMPTY_SENTINEL then 0 else start_idx mq)\<rparr>"
    let ?mq = "if ok then mq\<lparr>clients := ?c # clients mq\<rparr> else mq"
    let ?st2 = "?st1\<lparr>mqueue := Some ?mq, heap := h\<rparr>"
    have run: "accept_client st = Some (if ok then 0 else - 3, ?st2)"
      using a(1) w queue al by (cases ok) (simp_all add: accept_client_def)
    have "ring_inv mq" using inv queue by (simp add: server_inv_def)
    then have z: "roff ?c = 0" by (auto simp: ring_inv_def)
    have new: "?mq = mq \<or> ?mq = mq\<lparr>clients := ?c # clients mq\<rparr>" by simp
    have "delivered ?st2" if d: "accept_fresh st" "delivered st"
      using registered_delivered [OF connected_delivered [OF a(2) d, of ?st1] _ _ _ z new, of ?st2] a(2) d queue
      by (auto simp: connected_def)
    then have "server_step sfd st ?st2"
      using registered_inv [OF inv1 _ z new, of ?st2] queue by (simp add: server_step_def evolves_def)
    then show ?thesis using run by simp
  qed
qed

lemma handle_server_event_ok:
  assumes inv: "server_inv sfd st"
  shows "\<exists>rv st'. handle_server_event ev st = Some (rv, st') \<and> server_step sfd st st' \<and>
    (rv = - 1 \<longleftrightarrow> revents ev AND (POLLERR OR POLLNVAL) \<noteq> 0) \<and> rv \<in> {0, - 1, - 2, - 3}"
proof (cases "revents ev AND (POLLERR OR POLLNVAL) \<noteq> 0")
  case True
  then show ?thesis
    using step_ok_server_step [OF step_ok_refl [OF inv]] by (simp add: handle_server_event_def)
next
  case False
  let ?say = "\<lambda>b d st. if b then say d st else st"
  obtain rv st1 where a: "(if revents ev AND POLLIN \<noteq> 0 then accept_client st else Some (0, st)) = Some (rv, st1)"
    "server_step sfd st st1" "rv \<in> {0, - 2, - 3}"
  proof (cases "revents ev AND POLLIN \<noteq> 0")
    case True
    then show ?thesis using that accept_client_ok [OF inv] by auto
  next
    case False
    then show ?thesis using that [of 0 st] step_ok_server_step [OF step_ok_refl [OF inv]] by simp
  qed
  have inv1: "server_inv sfd st1" using a(2) by (simp add: server_step_def)
  have talk: "step_ok sfd s (?say b d s)" if "server_inv sfd s" for b d s
    using that step_ok_say step_ok_refl by auto
  let ?st2 = "?say (revents ev AND POLLOUT \<noteq> 0) (Barf ''server: POLLOUT'') st1"
  let ?st3 = "?say (revents ev AND (POLLHUP OR POLLRDHUP) \<noteq> 0) (Barf ''POLLHUP | POLLRDHUP'') ?st2"
  have s2: "step_ok sfd st1 ?st2" by (rule talk [OF inv1])
  then have "server_inv sfd ?st2" by (simp add: step_ok_def)
  then have "step_ok sfd ?st2 ?st3" by (rule talk)
  with s2 have "step_ok sfd st1 ?st3" by (rule step_ok_trans)
  then have "server_step sfd st ?st3" using a(2) server_step_trans by blast
  moreover have "handle_server_event ev st = Some (if rv \<noteq> 0 then (rv, st1) else (0, ?st3))"
    using False a(1) by (simp add: handle_server_event_def Let_def)
  ultimately show ?thesis using a(2,3) False by auto
qed

section \<open>A round\<close>

lemma set_revents_pfd [simp]:
  "map pfd (set_revents rs ps) = map pfd ps" "length (set_revents rs ps) = length ps"
  by (induction rs ps rule: set_revents.induct) auto

lemma deliver_events_ok:
  assumes inv: "server_inv sfd st"
  shows "step_ok sfd st (deliver_events rs st)" "watched (fdstate (deliver_events rs st)) = watched (fdstate st)"
    "accept_fresh (deliver_events rs st) = accept_fresh st"
    "fds_length (fdstate (deliver_events rs st)) = fds_length (fdstate st)"
proof -
  let ?st = "deliver_events rs st" and ?fs = "fdstate st"
  have fi: "fds_inv ?fs" using inv by (simp add: server_inv_def)
  then have n: "fds_length ?fs \<le> length (fds ?fs)" by (simp add: fds_inv_def)
  show w: "watched (fdstate ?st) = watched ?fs"
    using n by (simp add: deliver_events_def Let_def watched_def)
  then have "fds_inv (fdstate ?st)"
    using fi n by (simp add: fds_inv_def deliver_events_def Let_def)
  moreover have m: "mqueue ?st = mqueue st" "conn ?st = conn st" "accepts ?st = accepts st"
    by (simp_all add: deliver_events_def Let_def)
  ultimately have "server_inv sfd ?st" using w inv by (simp add: server_inv_def)
  then show "step_ok sfd st ?st"
    using m evolves_frame [OF m(1)] delivered_frame [OF m(1)] by (simp add: step_ok_def)
  show "accept_fresh ?st = accept_fresh st" using m(3,1) w by (rule accept_fresh_frame)
  show "fds_length (fdstate ?st) = fds_length ?fs" by (simp add: deliver_events_def Let_def)
qed

lemma round_clients_ok:
  assumes inv: "server_inv sfd st"
  shows "\<exists>st'. round_clients st = Some (Continue st') \<and> step_ok sfd st st' \<and>
    (delivered st \<longrightarrow> (\<forall>fd \<in> set (tl (watched (fdstate st'))). caught_up st' fd))"
proof -
  obtain st1 where c: "client_loop 1 st = Some (Inr st1)" "step_ok sfd st st1"
    using client_loop_ok [OF inv, of 1] by auto
  have inv1: "server_inv sfd st1" using c(2) by (simp add: step_ok_def)
  obtain st2 where f: "flush_clients 1 st1 = Some st2" "step_ok sfd st1 st2" "fdstate st2 = fdstate st1"
    "delivered st1 \<longrightarrow> (\<forall>j. 1 \<le> j \<longrightarrow> j < fds_length (fdstate st1) \<longrightarrow> caught_up st2 (watched (fdstate st1) ! j))"
    using flush_clients_ok [OF inv1, of 1] by blast
  have fi: "fds_inv (fdstate st1)" using inv1 by (simp add: server_inv_def)
  have "caught_up st2 fd" if dl: "delivered st" and fd: "fd \<in> set (tl (watched (fdstate st2)))" for fd
  proof -
    obtain j where "j < length (tl (watched (fdstate st1)))" "fd = tl (watched (fdstate st1)) ! j"
      using fd f(3) by (metis in_set_conv_nth)
    then have "Suc j < fds_length (fdstate st1)" "fd = watched (fdstate st1) ! Suc j"
      using watched_length [OF fi] by (simp_all add: nth_tl)
    moreover have "delivered st1" using c(2) dl unfolding step_ok_def by blast
    ultimately show ?thesis using f(4) by (metis One_nat_def le_add1 plus_1_eq_Suc)
  qed
  then show ?thesis
    using c(1) f(1) step_ok_trans [OF c(2) f(2)] by (simp add: round_clients_def)
qed

text \<open>After a round that goes on, every watched client has caught up.\<close>

definition all_caught_up :: "server \<Rightarrow> bool" where
  "all_caught_up st \<longleftrightarrow> (\<forall>fd \<in> set (tl (watched (fdstate st))). caught_up st fd)"

definition round_post :: "int \<Rightarrow> poll_result \<Rightarrow> server \<Rightarrow> round \<Rightarrow> bool" where
  "round_post server_fd p st r \<longleftrightarrow>
     (case r of
        Continue st' \<Rightarrow> server_step server_fd st st' \<and>
          (accept_fresh st \<longrightarrow> delivered st \<longrightarrow> all_caught_up st')
      | Break st' \<Rightarrow> server_step server_fd st st'
      | ProcessExit d \<Rightarrow> False)"

text \<open>The state in which the events of a round are handled.\<close>

lemma polled_ok:
  fixes p
  assumes inv: "server_inv sfd st"
  defines "st0 \<equiv> (case p of PollReady rs \<Rightarrow> deliver_events rs st
                      | _ \<Rightarrow> say (Barf ''...'') (deliver_events [] st))"
  shows "step_ok sfd st st0" and "accept_fresh st0 = accept_fresh st"
    and "fds_length (fdstate st0) = fds_length (fdstate st)"
proof -
  note d = deliver_events_ok [OF inv]
  have "step_ok sfd st (say (Barf ''...'') (deliver_events [] st))"
    using d(1) [of "[]"] step_ok_say step_ok_trans by (metis step_ok_def)
  then show "step_ok sfd st st0" using d(1) by (cases p) (simp_all add: st0_def)
  show "accept_fresh st0 = accept_fresh st"
    using d(3) accept_fresh_frame [of "say (Barf ''...'') (deliver_events [] st)" "deliver_events [] st"]
    by (cases p) (simp_all add: st0_def say_def)
  show "fds_length (fdstate st0) = fds_length (fdstate st)"
    using d(4) by (cases p) (simp_all add: st0_def say_def)
qed

lemma poll_round_ok:
  assumes inv: "server_inv sfd st"
  shows "\<exists>r. poll_round p st = Some r \<and> round_post sfd p st r"
proof (cases "p = PollFails")
  case True
  then show ?thesis
    using step_ok_server_step [OF step_ok_say [OF inv]] by (simp add: poll_round_def round_post_def)
next
  case False
  define st0 where "st0 = (case p of PollReady rs \<Rightarrow> deliver_events rs st
                      | _ \<Rightarrow> say (Barf ''...'') (deliver_events [] st))"
  note st0 = polled_ok [OF inv, of p, folded st0_def]
  have inv0: "server_inv sfd st0" using st0(1) by (simp add: step_ok_def)
  have "0 < fds_length (fdstate st0)"
    using inv0 watched_length [of "fdstate st0"] unfolding server_inv_def
    by (metis length_greater_0_conv)
  then obtain ev where ev: "fds_at st0 0 = Some ev" using watched_entry [OF inv0] by blast
  obtain rv st1 where h: "handle_server_event ev st0 = Some (rv, st1)" "server_step sfd st0 st1"
    using handle_server_event_ok [OF inv0] by blast
  have step1: "server_step sfd st st1"
    using st0 h(2) unfolding server_step_def step_ok_def by (blast intro: evolves_trans)
  have inv1: "server_inv sfd st1" using h(2) by (simp add: server_step_def)
  show ?thesis
  proof (cases "rv = - 1")
    case True
    then show ?thesis
      using False ev h(1) server_step_trans [OF step1 step_ok_say [OF inv1]]
      unfolding poll_round_def st0_def [symmetric]
      by (cases p) (simp_all add: round_post_def flip: st0_def)
  next
    case rv: False
    define st2 where "st2 = (if rv = - 2 then say (Barf ''failed to add client to watch list'') st1
                           else if rv = - 3
                           then say (Barf ''failed to add client to message queue watcher'') st1
                           else st1)"
    have s2: "step_ok sfd st1 st2"
      using inv1 step_ok_say step_ok_refl by (simp add: st2_def)
    then have inv2: "server_inv sfd st2" by (simp add: step_ok_def)
    obtain st' where c: "round_clients st2 = Some (Continue st')" "step_ok sfd st2 st'"
      "delivered st2 \<longrightarrow> (\<forall>fd \<in> set (tl (watched (fdstate st'))). caught_up st' fd)"
      using round_clients_ok [OF inv2] by blast
    have "poll_round p st = Some (Continue st')"
      using False ev h(1) rv c(1) unfolding poll_round_def st0_def [symmetric]
      by (cases p) (simp_all add: Let_def flip: st0_def st2_def)
    moreover have step2: "server_step sfd st st2" by (rule server_step_trans [OF step1 s2])
    moreover have "server_step sfd st st'" by (rule server_step_trans [OF step2 c(2)])
    moreover have "all_caught_up st'" if "accept_fresh st" "delivered st"
      using that step2 c(3) by (simp add: server_step_def all_caught_up_def)
    ultimately show ?thesis by (simp add: round_post_def)
  qed
qed

section \<open>Runs\<close>

lemma serve_ok:
  "server_inv sfd st \<Longrightarrow>
     \<exists>r. serve ps st = Some r \<and>
       (case r of
          Continue st' \<Rightarrow> server_inv sfd st' \<and> evolves st st'
        | Break st' \<Rightarrow> server_inv sfd st' \<and> evolves st st'
        | ProcessExit d \<Rightarrow> False)"
proof (induction ps arbitrary: st)
  case Nil
  then show ?case by simp
next
  case (Cons p ps)
  obtain r where r: "poll_round p st = Some r" "round_post sfd p st r"
    using poll_round_ok [OF Cons.prems] by blast
  show ?case
  proof (cases r)
    case (Continue st1)
    then have s: "server_inv sfd st1" "evolves st st1"
      using r(2) by (simp_all add: round_post_def server_step_def)
    obtain q where q: "serve ps st1 = Some q"
      "case q of
          Continue st' \<Rightarrow> server_inv sfd st' \<and> evolves st1 st'
        | Break st' \<Rightarrow> server_inv sfd st' \<and> evolves st1 st'
        | ProcessExit d \<Rightarrow> False"
      using Cons.IH [OF s(1)] by blast
    then show ?thesis
      using r(1) Continue evolves_trans [OF s(2)] by (cases q) simp_all
  next
    case (Break st1)
    then show ?thesis using r by (simp add: round_post_def server_step_def)
  next
    case (ProcessExit d)
    then show ?thesis using r(2) by (simp add: round_post_def)
  qed
qed

lemma unat_MAX_NUM_OF_CLIENTS: "unat MAX_NUM_OF_CLIENTS = 64000"
  by (simp add: MAX_NUM_OF_CLIENTS_def)

lemma start_ok:
  "\<exists>r. poll_server_start sfd h net acc = Some r \<and>
     (case r of
        Inl d \<Rightarrow> \<not> mallocs_ok h
      | Inr (Inl rv) \<Rightarrow> False
      | Inr (Inr st) \<Rightarrow> server_inv sfd st \<and> delivered st \<and> all_caught_up st \<and> accepts st = acc \<and>
          watched (fdstate st) = [sfd] \<and> (\<forall>mq. mqueue st = Some mq \<longrightarrow> clients mq = []))"
proof -
  obtain q h1 where q: "message_queue__init MAX_NUM_OF_CLIENTS h = (q, h1)" by fastforce
  have h1: "mallocs_ok h \<Longrightarrow> mallocs_ok h1"
    using q by (auto simp: message_queue__init_def split: if_splits prod.splits bool.splits
        dest: alloc_object_ok)
  have rq: "ring_inv mq \<and> clients mq = []" if "q = Some mq" for mq
    using init_mq [of MAX_NUM_OF_CLIENTS h mq h1] q that unat_MAX_NUM_OF_CLIENTS
    by (auto simp: ring_inv_def message_queue__init_def split: if_splits prod.splits bool.splits)
  show ?thesis
  proof (cases "fds_state__init h1")
    case (Pair a h2)
    show ?thesis
    proof (cases a)
      case (Inl d)
      have "\<not> mallocs_ok h1"
        using Pair Inl by (auto simp: fds_state__init_def split: prod.splits bool.splits
            dest: alloc_object_ok)
      then show ?thesis using q Pair Inl h1 by (auto simp: poll_server_start_def)
    next
      case (Inr fs)
      have fs: "fds_inv fs" "watched fs = []" "fds_room fs"
        using init_fds [of h1 fs h2] Pair Inr watched_length [of fs]
        by (auto simp: fds_room_def DEFAULT_FDS_CAPACITY_def)
      obtain fs1 where w: "fd_state__watch fs sfd = Some (0, fs1)" "fds_inv fs1" "watched fs1 = [sfd]"
        using ws.add_new [OF fs(1,3), of sfd] fs(2) by auto
      then show ?thesis
        using q Pair Inr rq
        by (auto simp: poll_server_start_def server_inv_def delivered_def all_caught_up_def)
    qed
  qed
qed

text \<open>The runs in which the kernel keeps its promise on \<open>accept\<close>.\<close>

inductive poll_run :: "server \<Rightarrow> server \<Rightarrow> bool" where
  start: "poll_run st st"
| round: "poll_run st st1 \<Longrightarrow> accept_fresh st1 \<Longrightarrow> poll_round p st1 = Some (Continue st2) \<Longrightarrow>
     poll_run st st2"

lemma poll_run_ok:
  "poll_run st st' \<Longrightarrow> server_inv sfd st \<Longrightarrow> delivered st \<Longrightarrow> all_caught_up st \<Longrightarrow>
     server_inv sfd st' \<and> delivered st' \<and> all_caught_up st'"
proof (induction rule: poll_run.induct)
  case (start st)
  then show ?case by simp
next
  case (round st st1 p st2)
  then have s: "server_inv sfd st1" "delivered st1" by simp_all
  then show ?case
    using poll_round_ok [OF s(1), of p] round.hyps(2,3) by (auto simp: round_post_def server_step_def)
qed

section \<open>Properties\<close>

text \<open>A server with one client, which has sent two bytes.\<close>

definition chat_mq :: MessageQueue where
  "chat_mq = \<lparr>capacity = 3, messages = [None, None, None], start_idx = MQ_EMPTY_SENTINEL, end_idx = 0,
     clients = [\<lparr>client_fd = 7, roff = 0\<rparr>]\<rparr>"

definition chat_server :: server where
  "chat_server = \<lparr>fdstate = example_fds, mqueue = Some chat_mq, heap = example_heap,
     conn = (\<lambda>fd. example_heap\<lparr>pending := [104, 105]\<rparr>), accepts = [], closed = [], log = []\<rparr>"

lemma chat_server_ok: "server_inv 3 chat_server" "delivered chat_server" "all_caught_up chat_server"
proof -
  have "mq_inv chat_mq" using empty_mq [of 3]
    by (simp add: chat_mq_def mq_inv_def mq_wf_def mq_items_def mq_strs_def MQ_EMPTY_SENTINEL_def numeral_3_eq_3)
  then show "server_inv 3 chat_server"
    using example_fds_inv
    by (simp add: server_inv_def chat_server_def ring_inv_def example_fds_def watched_def) (simp add: chat_mq_def)
  show "delivered chat_server" "all_caught_up chat_server"
    by (simp_all add: delivered_def all_caught_up_def caught_up_def chat_server_def chat_mq_def client_ok_def
        get_length_def example_heap_def example_fds_def watched_def)
qed

lemma chat_round:
  "\<exists>st. poll_round (PollReady [0, POLLIN]) chat_server = Some (Continue st) \<and>
     map_option mq_items (mqueue st) = Some [[104, 105]] \<and>
     map_option clients (mqueue st) = Some [\<lparr>client_fd = 7, roff = 1\<rparr>] \<and>
     map_option capacity (mqueue st) = Some 3 \<and> watched (fdstate st) = [3, 7]"
proof -
  have "(case poll_round (PollReady [0, POLLIN]) chat_server of Some (Continue st) \<Rightarrow>
     map_option mq_items (mqueue st) = Some [[104, 105]] \<and>
     map_option clients (mqueue st) = Some [\<lparr>client_fd = 7, roff = 1\<rparr>] \<and>
     map_option capacity (mqueue st) = Some 3 \<and> watched (fdstate st) = [3, 7] | _ \<Rightarrow> False)"
    by code_simp
  then show ?thesis by (auto split: option.splits round.splits)
qed

text \<open>A server whose ring is full.\<close>

definition full_server :: server where
  "full_server = chat_server\<lparr>mqueue := Some full_mq\<rparr>"

lemma full_server_ok: "server_inv 3 full_server" "get_length full_mq = capacity full_mq"
proof -
  have "ring_inv full_mq" using full_mq_inv(1) by (simp add: ring_inv_def full_mq_def)
  then show "server_inv 3 full_server"
    using chat_server_ok(1) by (simp add: server_inv_def full_server_def)
  show "get_length full_mq = capacity full_mq"
    by (simp add: full_mq_def get_length_def MQ_EMPTY_SENTINEL_def)
qed

text \<open>
  C1. The server never leaves its arrays and never exits on its own: whatever the heap does,
  whoever connects and whatever \<open>ppoll\<close>, \<open>accept\<close>, \<open>read\<close> and \<open>write\<close> answer, the start
  either fails for want of memory or gives a server, and from there every sequence of rounds
  has a defined result in which the watch list is valid with the server first and the ring is
  valid and starts at index 0; the exit for a message that is too long is never taken.
\<close>

theorem poll_server_invariant:
  "\<exists>r. poll_server_start server_fd h net acc = Some r \<and>
     (case r of
        Inl d \<Rightarrow> \<not> mallocs_ok h
      | Inr (Inl rv) \<Rightarrow> False
      | Inr (Inr st) \<Rightarrow>
          server_inv server_fd st \<and>
          (\<exists>q. serve ps st = Some q \<and>
             (case q of
                Continue st' \<Rightarrow> server_inv server_fd st'
              | Break st' \<Rightarrow> server_inv server_fd st'
              | ProcessExit d \<Rightarrow> False)))"
proof -
  obtain r where r: "poll_server_start server_fd h net acc = Some r"
    "case r of
        Inl d \<Rightarrow> \<not> mallocs_ok h
      | Inr (Inl rv) \<Rightarrow> False
      | Inr (Inr st) \<Rightarrow> server_inv server_fd st \<and> delivered st \<and> all_caught_up st \<and> accepts st = acc \<and>
          watched (fdstate st) = [server_fd] \<and> (\<forall>mq. mqueue st = Some mq \<longrightarrow> clients mq = [])"
    using start_ok [of server_fd h net acc] by blast
  have "\<exists>q. serve ps st = Some q \<and>
      (case q of Continue st' \<Rightarrow> server_inv server_fd st' | Break st' \<Rightarrow> server_inv server_fd st'
       | ProcessExit d \<Rightarrow> False)" if "server_inv server_fd st" for st
    using serve_ok [OF that, of ps] by (fastforce split: round.splits)
  with r show ?thesis by (intro exI [of _ r]) (auto split: sum.splits)
qed

text \<open>
  C31. What a client event does, on every branch: a client whose \<open>read\<close> fails or is at end of
  file, or which hung up, is no longer watched, is unregistered and its descriptor is closed;
  the bytes that a \<open>read\<close> delivers are queued as one message, unless the queue is missing (-2),
  full (-55, also after the slow consumers are dropped) or out of memory (-3); any other event
  changes nothing. No branch leaves an array or exits.
\<close>

theorem client_event_correct:
  assumes "server_inv server_fd st" and "pfd ev \<noteq> server_fd"
  shows "\<exists>rv st'. handle_client_event ev st = Some (Returned rv st') \<and> server_inv server_fd st' \<and>
    client_event_post ev st rv st'"
  using handle_client_event_ok [OF assms] by (auto simp: step_ok_def)

theorem client_event_correct_witness:
  "\<exists>st' mq'. handle_client_event \<lparr>pfd = 7, events = 0x2001, revents = POLLIN\<rparr> chat_server =
       Some (Returned 0 st') \<and>
     mqueue st' = Some mq' \<and> mq_items mq' = [[104, 105]]"
proof -
  let ?ev = "\<lparr>pfd = 7, events = 0x2001, revents = POLLIN\<rparr>"
  obtain rv st' where h: "handle_client_event ?ev chat_server = Some (Returned rv st')"
    "client_event_post ?ev chat_server rv st'"
    using client_event_correct [OF chat_server_ok(1), of ?ev] by auto
  have "fst (sys_read MAX_MESSAGE_LENGTH (conn chat_server 7)) = Inr [104, 105]"
    by (simp add: chat_server_def example_heap_def sys_read_def deliver_def MAX_MESSAGE_LENGTH_def)
  then have q: "queued [104, 105] chat_server rv st'"
    using h(2) by (simp add: client_event_post_def POLLIN_def)
  have "mqueue chat_server = Some chat_mq" "mallocs_ok (heap chat_server)"
    "get_length chat_mq \<noteq> capacity chat_mq" "mq_items chat_mq = []"
    using example_heap_ok(1)
    by (simp_all add: chat_server_def chat_mq_def get_length_def mq_items_def mq_strs_def)
  then show ?thesis using h(1) q by (auto simp: queued_def)
qed

text \<open>A client that is watched is registered when there is a queue and memory for it.\<close>

lemma accept_registers:
  assumes inv: "server_inv sfd st" and acc: "sys_accept st = (fd, st\<lparr>accepts := acc, conn := net\<rparr>)"
    and w: "fd_state__watch (fdstate st) fd = Some (0, fs)" and run: "accept_client st = Some (rv, st')"
  shows "fdstate st' = fs \<and> closed st' = closed st \<and>
    (case mqueue st of
       None \<Rightarrow> rv = - 3 \<and> mqueue st' = None
     | Some mq \<Rightarrow>
         if rv = 0 then mqueue st' = Some (mq\<lparr>clients := \<lparr>client_fd = fd, roff = 0\<rparr> # clients mq\<rparr>)
         else rv = - 3 \<and> mqueue st' = Some mq \<and> \<not> mallocs_ok (heap st))"
proof (cases "mqueue st")
  case None
  then show ?thesis using run w acc by (auto simp: accept_client_def)
next
  case (Some mq)
  have off: "(if start_idx mq = MQ_EMPTY_SENTINEL then 0 else start_idx mq) = 0"
    using inv Some by (auto simp: server_inv_def ring_inv_def)
  obtain ok h2 where al: "alloc_object (heap st) = (ok, h2)" by fastforce
  then have "\<not> ok \<longrightarrow> \<not> mallocs_ok (heap st)" using alloc_object_ok by blast
  then show ?thesis using run w acc Some al off by (cases ok) (auto simp: accept_client_def)
qed

text \<open>
  C32. What a server event that brings a connection does: without room in the watch list the
  result is -2 and the new descriptor is forgotten, open; otherwise it is watched and then
  registered, to be sent the ring from its start, that is every message since the server
  started. When the registration fails (-3) it stays watched, so it may send and receives
  nothing. A failed \<open>accept\<close> is not noticed: descriptor -1 is watched and registered.
\<close>

theorem server_event_correct:
  assumes "server_inv server_fd st" and "revents ev = POLLIN" and "sys_accept st = (fd, st1)"
  shows "\<exists>rv st'. handle_server_event ev st = Some (rv, st') \<and> closed st' = closed st \<and>
    server_inv server_fd st' \<and>
    (let W = watched (fdstate st); W' = watched (fdstate st') in
     if \<not> fds_room (fdstate st) then rv = - 2 \<and> W' = W \<and> mqueue st' = mqueue st
     else W' = (if fd \<in> set W \<or> NOT fd \<in> set W then W else W @ [fd]) \<and>
       (case mqueue st of
          None \<Rightarrow> rv = - 3 \<and> mqueue st' = None
        | Some mq \<Rightarrow>
            if rv = 0
            then mqueue st' = Some (mq\<lparr>clients := \<lparr>client_fd = fd, roff = 0\<rparr> # clients mq\<rparr>)
            else rv = - 3 \<and> mqueue st' = Some mq \<and> \<not> mallocs_ok (heap st)))"
proof -
  obtain rv st' where h: "handle_server_event ev st = Some (rv, st')" "server_step server_fd st st'"
    using handle_server_event_ok [OF assms(1)] by blast
  have inv': "server_inv server_fd st'" using h(2) by (simp add: server_step_def)
  obtain acc net where a: "sys_accept st = (fd, st\<lparr>accepts := acc, conn := net\<rparr>)"
    using accept_state [of st] assms(3) by auto
  have "handle_server_event ev st = accept_client st"
    using assms(2)
    by (auto simp: handle_server_event_def POLLIN_def POLLERR_def POLLNVAL_def POLLOUT_def POLLHUP_def
        POLLRDHUP_def split: bind_splits)
  then have run: "accept_client st = Some (rv, st')" using h(1) by simp
  have "fds_inv (fdstate st)" using assms(1) by (simp add: server_inv_def)
  from watch_cases [OF this, of fd] obtain wr fs where w: "fd_state__watch (fdstate st) fd = Some (wr, fs)"
    "if \<not> fds_room (fdstate st) then wr = - 1 \<and> fs = fdstate st
     else wr = 0 \<and> watched fs = (if fd \<in> set (watched (fdstate st)) \<or> NOT fd \<in> set (watched (fdstate st))
       then watched (fdstate st) else watched (fdstate st) @ [fd])" by blast
  show ?thesis
  proof (cases "fds_room (fdstate st)")
    case False
    then show ?thesis using h(1) inv' run w a by (auto simp: accept_client_def)
  next
    case True
    then have "fd_state__watch (fdstate st) fd = Some (0, fs)" using w by simp
    from accept_registers [OF assms(1) a this run] show ?thesis
      using h(1) inv' True w(2) by (simp add: Let_def)
  qed
qed

theorem server_event_correct_witness:
  "\<exists>st' mq'. handle_server_event \<lparr>pfd = 3, events = 0x2001, revents = POLLIN\<rparr> chat_server = Some (0, st') \<and>
     watched (fdstate st') = [3, 7, - 1] \<and> mqueue st' = Some mq' \<and>
     clients mq' = [\<lparr>client_fd = - 1, roff = 0\<rparr>, \<lparr>client_fd = 7, roff = 0\<rparr>]"
proof -
  have a: "sys_accept chat_server = (- 1, chat_server)"
    by (simp add: sys_accept_def chat_server_def)
  have c: "fds_room (fdstate chat_server)" "watched (fdstate chat_server) = [3, 7]"
    "mqueue chat_server = Some chat_mq" "mallocs_ok (heap chat_server)"
    "clients chat_mq = [\<lparr>client_fd = 7, roff = 0\<rparr>]"
    using example_heap_ok(1)
    by (simp_all add: chat_server_def example_fds_def fds_room_def watched_def chat_mq_def)
  show ?thesis
    using server_event_correct [OF chat_server_ok(1) _ a, of "\<lparr>pfd = 3, events = 0x2001, revents = POLLIN\<rparr>"] c
    by (auto simp: Let_def not_int_def split: if_splits)
qed

text \<open>
  C6. Delivery: as long as the ring has not filled up and writes take whole messages, the
  connection of a registered client has received a prefix of the sequence of all messages
  since the server started, and after every round that of a watched client all of them, once
  each and in the order in which they were queued, its own messages included.
\<close>

theorem chat_delivery:
  assumes "server_inv server_fd st0" and "delivered st0" and "all_caught_up st0" and "poll_run st0 st"
    and "mqueue st = Some mq" and "get_length mq < capacity mq"
    and "c \<in> set (clients mq)" and "0 \<le> client_fd c"
  shows "(\<exists>k. sink (conn st (client_fd c)) = concat (take k (mq_items mq))) \<and>
    (client_fd c \<in> set (tl (watched (fdstate st))) \<longrightarrow>
       sink (conn st (client_fd c)) = concat (mq_items mq))"
proof -
  have ok: "server_inv server_fd st" "delivered st" "all_caught_up st"
    using poll_run_ok [OF assms(4,1-3)] by auto
  have co: "client_ok (conn st) mq c" using ok(2) assms(5-7) by (simp add: delivered_def)
  have "mq_wf mq" using ok(1) assms(5) by (simp add: server_inv_def ring_inv_def mq_inv_def)
  note len = items_length [OF this]
  have "roff c = int (get_length mq)" if "client_fd c \<in> set (tl (watched (fdstate st)))"
    using ok(3) that assms(5-8) by (simp add: all_caught_up_def caught_up_def)
  then show ?thesis using co assms(8) len by (auto simp: client_ok_def)
qed

theorem chat_delivery_witness:
  "\<exists>st. poll_run chat_server st \<and> sink (conn st 7) = [104, 105]"
proof -
  obtain st where r: "poll_round (PollReady [0, POLLIN]) chat_server = Some (Continue st)"
    and m: "map_option mq_items (mqueue st) = Some [[104, 105]]"
      "map_option clients (mqueue st) = Some [\<lparr>client_fd = 7, roff = 1\<rparr>]"
      "map_option capacity (mqueue st) = Some 3" "watched (fdstate st) = [3, 7]"
    using chat_round by blast
  have fresh: "accept_fresh chat_server" by (simp add: accept_fresh_def chat_server_def)
  have run: "poll_run chat_server st" by (rule poll_run.round [OF poll_run.start fresh r])
  obtain mq where q: "mqueue st = Some mq" "mq_items mq = [[104, 105]]" "capacity mq = 3"
    "clients mq = [\<lparr>client_fd = 7, roff = 1\<rparr>]"
    using m by (cases "mqueue st") auto
  have "server_inv 3 st" using poll_run_ok [OF run chat_server_ok] by simp
  then have "mq_wf mq" using q(1) by (simp add: server_inv_def ring_inv_def mq_inv_def)
  then have "get_length mq < capacity mq" using items_length [of mq] q(2,3) by simp
  then show ?thesis
    using chat_delivery [OF chat_server_ok run q(1), of "\<lparr>client_fd = 7, roff = 1\<rparr>"] q(2,4) m(4) run
    by auto
qed

text \<open>
  C33. Once the ring is full the server is dead: whatever happens afterwards, in every later
  state the ring holds exactly the messages it held then, so no message sent from then on is
  ever queued or delivered.
\<close>

theorem poll_full_forever:
  assumes "server_inv server_fd st" and "mqueue st = Some mq" and "get_length mq = capacity mq"
  shows "\<exists>r. serve ps st = Some r \<and>
    (case r of
       Continue st' \<Rightarrow> map_option mq_items (mqueue st') = Some (mq_items mq)
     | Break st' \<Rightarrow> map_option mq_items (mqueue st') = Some (mq_items mq)
     | ProcessExit d \<Rightarrow> False)"
proof -
  have "mq_wf mq" using assms(1,2) by (simp add: server_inv_def ring_inv_def mq_inv_def)
  then have n: "length (mq_items mq) = capacity mq" using items_length assms(3) by simp
  have same: "map_option mq_items (mqueue st') = Some (mq_items mq)"
    if inv: "server_inv server_fd st'" and ev: "evolves st st'" for st'
  proof -
    obtain mq' where m: "mqueue st' = Some mq'" "capacity mq' = capacity mq"
      "prefix (mq_items mq) (mq_items mq')"
      using ev assms(2) by (auto simp: evolves_def)
    have wf: "mq_wf mq'" using inv m(1) by (simp add: server_inv_def ring_inv_def mq_inv_def)
    have "get_length mq' \<le> capacity mq'"
      using length_bounds [OF wf] by (fastforce simp: get_length_def)
    then have "length (mq_items mq') \<le> length (mq_items mq)"
      using items_length [OF wf] m(2) n by simp
    then have "mq_items mq' = mq_items mq"
      using m(3) by (metis prefix_length_prefix prefix_order.antisym prefix_order.refl)
    with m(1) show ?thesis by simp
  qed
  obtain r where r: "serve ps st = Some r"
    "case r of
       Continue st' \<Rightarrow> server_inv server_fd st' \<and> evolves st st'
     | Break st' \<Rightarrow> server_inv server_fd st' \<and> evolves st st'
     | ProcessExit d \<Rightarrow> False"
    using serve_ok [OF assms(1), of ps] by blast
  then show ?thesis using same by (cases r) simp_all
qed

theorem poll_full_forever_witness:
  "\<exists>r. serve [PollReady [0, POLLIN], PollReady [0, POLLIN]] full_server = Some r \<and>
    (case r of
       Continue st' \<Rightarrow> map_option mq_items (mqueue st') = Some [[65], [66], [67], [68], [69]]
     | Break st' \<Rightarrow> map_option mq_items (mqueue st') = Some [[65], [66], [67], [68], [69]]
     | ProcessExit d \<Rightarrow> False)"
proof -
  have m: "mqueue full_server = Some full_mq" by (simp add: full_server_def)
  show ?thesis
    by (rule poll_full_forever [OF full_server_ok(1) m full_server_ok(2), unfolded full_mq_inv(2)])
qed

end
