(* ===== verification/TcpServers.thy ===== *)
theory TcpServers
  imports Cat "HOL-Library.Sublist"
begin

text \<open>
  The TCP echo servers \<open>tcp/pthreads/tcp_pthread.c\<close> and
  \<open>tcp/single_connection/single_connection_server.c\<close>, and the start of the chat server:
  its argument of \<open>tcp/polling/main.c\<close> and its socket of \<open>tcp/polling/utils.c\<close>. A connection is a descriptor of \<open>Posix\<close>: its
  input is what the peer sends until it closes, its output what the peer receives.
\<close>

section \<open>The port argument\<close>

text \<open>What \<open>main\<close> makes of its arguments: the messages it exits with, or the port.\<close>

definition echo_port :: "string list \<Rightarrow> diag list + 16 word" where
  "echo_port argv =
     (if length argv \<noteq> 2 then Inl [Barf (''Usage: ./'' @ concat (take 1 argv) @ '' <portno>'' @ [CHR 0x0A])]
      else
        (let port = fst (strtol (argv ! 1)) in
         if port = 0 then Inl [Perror ''strtoul: port number not converted to number'']
         else if port < 1024 \<or> port > 65535
         then Inl [Barf ''port number should be 1024 <= port <= 65535'']
         else Inr (of_int port)))"

definition single_port :: "string list \<Rightarrow> diag list + 16 word" where
  "single_port argv =
     (if length argv \<noteq> 2 then Inl [Barf ''usage: ./tcp_single <port>'']
      else
        (let port = fst (strtol (argv ! 1)) in
         if port = 0 then Inl [Perror ''strtoul: port number not converted to number'']
         else if port < 1024 \<or> port > 65535
         then Inl [Barf ''port number should be 1024 <= port <= 65535'']
         else Inr (of_int port)))"

definition chat_port :: "string list \<Rightarrow> diag list + int" where
  "chat_port argv =
     (if length argv < 2 then Inl [Barf (''Usage: '' @ concat (take 1 argv) @ '' <port>>'' @ [CHR 0x0A])]
      else
        (let (portno, rest) = strtol (argv ! 1) in
         if rest \<noteq> [] \<or> portno \<le> 1024 \<or> portno \<ge> 65535
         then Inl [Barf (''Error: port number should be 1024 < port < 65535'' @ [CHR 0x0A])]
         else Inr portno))"

text \<open>\<open>snprintf(portno, 6, "%hu", port)\<close> keeps what fits before the NUL.\<close>

definition port_text :: "16 word \<Rightarrow> string" where
  "port_text port = take 5 (decimal (unat port))"

section \<open>The listening socket\<close>

text \<open>
  The answers of the resolver and the kernel: the status of \<open>getaddrinfo\<close> with its message,
  the result of \<open>socket\<close> for each address of the list, of \<open>bind\<close> and of \<open>listen\<close>.
\<close>

record net_setup =
  gai_status :: int
  gai_message :: string
  sockets :: "int list"
  bind_result :: int
  listen_result :: int

text \<open>The loop over the addresses: the last result of \<open>socket\<close>, and whether an address is left.\<close>

fun first_socket :: "int list \<Rightarrow> int \<Rightarrow> int \<times> bool" where
  "first_socket [] fd = (fd, False)"
| "first_socket (r # rs) fd = (if r > 0 then (r, True) else first_socket rs r)"

text \<open>How often the address list is freed, and the exit messages or the socket.\<close>

definition get_tcp_server_socket :: "net_setup \<Rightarrow> nat \<times> (diag list + int)" where
  "get_tcp_server_socket n =
     (if gai_status n \<noteq> 0 then (0, Inl [Barf (''gai error: '' @ gai_message n @ [CHR 0x0A])])
      else
        (let (socketfd, validaddr) = first_socket (sockets n) (- 1) in
         if \<not> validaddr then (1, Inl [Barf ''failed to assign a valid address''])
         else if bind_result n = - 1 then (1, Inl [Perror ''bind''])
         else if socketfd < 0 then (2, Inl [Barf ''socketfd < 0. Failed to socket() to valid address''])
         else (1, Inr socketfd)))"

text \<open>The one of \<open>utils.c\<close> also listens.\<close>

definition utils_server_socket :: "net_setup \<Rightarrow> nat \<times> (diag list + int)" where
  "utils_server_socket n =
     (if gai_status n \<noteq> 0 then (0, Inl [Barf (''gai error: '' @ gai_message n @ [CHR 0x0A])])
      else
        (let (socketfd, validaddr) = first_socket (sockets n) (- 1) in
         if \<not> validaddr then (1, Inl [Barf (''failed to assign a valid address'' @ [CHR 0x0A])])
         else if bind_result n = - 1 then (1, Inl [Perror ''bind''])
         else if listen_result n = - 1 then (1, Inl [Perror ''listen''])
         else (1, Inr socketfd)))"

text \<open>The beginning of \<open>server_loop\<close> of the single connection server.\<close>

definition single_server_socket :: "net_setup \<Rightarrow> nat \<times> (diag list + int)" where
  "single_server_socket n =
     (if gai_status n \<noteq> 0 then (0, Inl [Barf (''gai error: '' @ gai_message n @ [CHR 0x0A])])
      else
        (let (socketfd, validaddr) = first_socket (sockets n) (- 1) in
         if socketfd < 0 then (1, Inl [Perror ''socket failed to connect''])
         else if \<not> validaddr then (1, Inl [Barf ''failed to assign a valid address''])
         else if bind_result n < 0 then (1, Inl [Perror ''bind''])
         else if listen_result n = - 1 then (0, Inl [Perror ''listen''])
         else (0, Inr socketfd)))"

section \<open>One connection of the threaded server\<close>

function handle_client_request :: "os \<Rightarrow> diag list \<times> os" where
  "handle_client_request s =
     (case sys_read 4096 s of
        (Inl e, s1) \<Rightarrow> ([Perror ''recv''], s1)
      | (Inr bytes_recv, s1) \<Rightarrow>
          if bytes_recv = [] then ([], s1)
          else
            (case sys_write bytes_recv s1 of
               (Inl e, s2) \<Rightarrow> ([Perror ''send''], s2)
             | (Inr bytes_sent, s2) \<Rightarrow> handle_client_request s2))"
  by pat_completeness auto
termination
proof (relation "measure (\<lambda>s. length (pending s))", goal_cases)
  case 1
  then show ?case by simp
next
  case (2 s r s1 bs w s2 n)
  have "length (pending s1) < length (pending s)"
    using 2 inp.read_progress [of 4096 s bs s1] by simp
  moreover have "pending s2 = pending s1"
    using 2 sys_write_frame [of bs s1 "Inr n" s2] by simp
  ultimately show ?case by simp
qed

declare handle_client_request.simps [simp del]

section \<open>The threaded server\<close>

text \<open>
  The process: its heap, the connection behind every descriptor, the client descriptors it has
  open, the threads by the descriptor in their arguments, the children, what the coming calls
  of \<open>pthread_create\<close> and \<open>fork\<close> return, and its two outputs.
\<close>

record tcp_process =
  t_heap :: os
  conns :: "int \<Rightarrow> os"
  clients :: "int list"
  workers :: "int list"
  children :: "int list"
  creates :: "int list"
  forks :: "int list"
  shown :: "byte list"
  noted :: "diag list"

definition note_diags :: "diag list \<Rightarrow> tcp_process \<Rightarrow> tcp_process" where
  "note_diags ds p = p\<lparr>noted := noted p @ ds\<rparr>"

definition close_client :: "int \<Rightarrow> tcp_process \<Rightarrow> tcp_process" where
  "close_client fd p = p\<lparr>clients := remove1 fd (clients p)\<rparr>"

text \<open>\<open>pthread_create\<close> returns 0 when the schedule has run out.\<close>

definition pthread_impl :: "int \<Rightarrow> tcp_process \<Rightarrow> tcp_process" where
  "pthread_impl client_socketfd p =
     (case alloc_object (t_heap p) of
        (False, h) \<Rightarrow> note_diags [Perror ''malloc''] (p\<lparr>t_heap := h\<rparr>)
      | (True, h) \<Rightarrow>
          (let rc = (if creates p = [] then 0 else hd (creates p));
               p1 = p\<lparr>t_heap := h, creates := tl (creates p)\<rparr>
           in
           if rc \<noteq> 0 then
             close_client client_socketfd
               ((note_diags [Perror ''pthread_create''] p1)\<lparr>t_heap := c_free (Some ()) h\<rparr>)
           else p1\<lparr>workers := workers p1 @ [client_socketfd]\<rparr>))"

text \<open>A thread from its start to its end, when no other thread runs meanwhile.\<close>

definition thread_worker :: "int \<Rightarrow> tcp_process \<Rightarrow> tcp_process" where
  "thread_worker csockfd p =
     (let (ds, c) = handle_client_request (conns p csockfd);
          p1 = p\<lparr>t_heap := c_free (Some ()) (t_heap p), conns := (conns p)(csockfd := c),
                 workers := remove1 csockfd (workers p)\<rparr>
      in close_client csockfd (note_diags ds p1))"

text \<open>The variant with a process per client, which \<open>server_loop\<close> does not call; \<open>fork\<close>
  succeeds when the schedule has run out. The descriptor of the child is its own copy.\<close>

definition fork_server_impl :: "int \<Rightarrow> tcp_process \<Rightarrow> tcp_process" where
  "fork_server_impl client_socketfd p =
     (let pid = (if forks p = [] then 1 else hd (forks p));
          p1 = p\<lparr>forks := tl (forks p)\<rparr>;
          p2 = (if pid = - 1 then note_diags [Perror ''fork''] p1
                else p1\<lparr>children := children p1 @ [client_socketfd]\<rparr>)
      in close_client client_socketfd p2)"

definition forked_child :: "int \<Rightarrow> tcp_process \<Rightarrow> tcp_process" where
  "forked_child client_socketfd p =
     (let (ds, c) = handle_client_request (conns p client_socketfd)
      in note_diags ds (p\<lparr>conns := (conns p)(client_socketfd := c),
                         children := remove1 client_socketfd (children p)\<rparr>))"

text \<open>One round of \<open>server_loop\<close>: the result of \<open>accept\<close>, the connection behind it, and the
  address as \<open>inet_ntop\<close> writes it when it is of one of the two families.\<close>

definition server_round :: "int \<Rightarrow> os \<Rightarrow> string option \<Rightarrow> tcp_process \<Rightarrow> tcp_process" where
  "server_round client_socketfd c ipaddr p =
     (if client_socketfd = - 1 then note_diags [Perror ''accept''] p
      else
        (let p1 = p\<lparr>clients := clients p @ [client_socketfd],
                     conns := (conns p)(client_socketfd := c)\<rparr>;
             p2 = (case ipaddr of
                     None \<Rightarrow> p1
                   | Some ip \<Rightarrow>
                       p1\<lparr>shown := shown p1 @ bytes_of (''incoming connection from '' @ ip @ [CHR 0x0A])\<rparr>)
         in pthread_impl client_socketfd p2))"

text \<open>The process when each thread runs as a whole: the main thread accepts a descriptor that is
  not in use, or a worker runs.\<close>

inductive tcp_step :: "tcp_process \<Rightarrow> tcp_process \<Rightarrow> bool" where
  accepts: "fd \<notin> set (clients p) \<Longrightarrow> tcp_step p (server_round fd c ip p)"
| works: "fd \<in> set (workers p) \<Longrightarrow> tcp_step p (thread_worker fd p)"

inductive tcp_run :: "tcp_process \<Rightarrow> tcp_process \<Rightarrow> bool" where
  run_start: "tcp_run p p"
| run_step: "tcp_run p q \<Longrightarrow> tcp_step q r \<Longrightarrow> tcp_run p r"

inductive_cases tcp_stepE: "tcp_step p q"

text \<open>The same steps as a list of events, which are refused where the step is not possible.\<close>

datatype tcp_event = Accepts int os "string option" | Finishes int

fun tcp_do :: "tcp_event \<Rightarrow> tcp_process \<Rightarrow> tcp_process option" where
  "tcp_do (Accepts fd c ip) p = (if fd \<in> set (clients p) then None else Some (server_round fd c ip p))"
| "tcp_do (Finishes fd) p = (if fd \<in> set (workers p) then Some (thread_worker fd p) else None)"

fun tcp_events :: "tcp_event list \<Rightarrow> tcp_process \<Rightarrow> tcp_process option" where
  "tcp_events [] p = Some p"
| "tcp_events (e # es) p = do { q \<leftarrow> tcp_do e p; tcp_events es q }"

section \<open>The threaded server step by step\<close>

text \<open>
  The same code, interrupted between any two calls. A thread that has been created but has not
  yet run is in \<open>workers\<close>; then it is where its phase says: before \<open>recv\<close>, before \<open>send\<close> with the
  bytes received, or before \<open>close\<close>. The main thread is before \<open>accept\<close>, has accepted a
  descriptor, has allocated the arguments, or has failed to create the thread and is about to
  free them, or to close the descriptor.
\<close>

datatype thread_phase = Receives | Sends "byte list" | Closes

datatype main_phase = Accepting | Accepted int | HasArgs int | FreesArgs int | Drops int

record threaded =
  proc :: tcp_process
  running :: "int \<rightharpoonup> thread_phase"
  main_at :: main_phase

definition set_conn :: "int \<Rightarrow> os \<Rightarrow> tcp_process \<Rightarrow> tcp_process" where
  "set_conn fd c p = p\<lparr>conns := (conns p)(fd := c)\<rparr>"

text \<open>\<open>accept\<close> and the report of the address.\<close>

definition main_accepts :: "int \<Rightarrow> os \<Rightarrow> string option \<Rightarrow> tcp_process \<Rightarrow> tcp_process \<times> main_phase" where
  "main_accepts client_socketfd c ipaddr p =
     (if client_socketfd = - 1 then (note_diags [Perror ''accept''] p, Accepting)
      else
        (set_conn client_socketfd c
           (p\<lparr>clients := clients p @ [client_socketfd],
              shown := shown p @
                (case ipaddr of
                   None \<Rightarrow> []
                 | Some ip \<Rightarrow> bytes_of (''incoming connection from '' @ ip @ [CHR 0x0A]))\<rparr>),
         Accepted client_socketfd))"

text \<open>The calls of \<open>pthread_impl\<close> one by one.\<close>

fun main_moves :: "main_phase \<Rightarrow> tcp_process \<Rightarrow> tcp_process \<times> main_phase" where
  "main_moves Accepting p = (p, Accepting)"
| "main_moves (Accepted fd) p =
     (case alloc_object (t_heap p) of
        (False, h) \<Rightarrow> (note_diags [Perror ''malloc''] (p\<lparr>t_heap := h\<rparr>), Accepting)
      | (True, h) \<Rightarrow> (p\<lparr>t_heap := h\<rparr>, HasArgs fd))"
| "main_moves (HasArgs fd) p =
     (let rc = (if creates p = [] then 0 else hd (creates p));
          p1 = p\<lparr>creates := tl (creates p)\<rparr>
      in
      if rc \<noteq> 0 then (note_diags [Perror ''pthread_create''] p1, FreesArgs fd)
      else (p1\<lparr>workers := workers p1 @ [fd]\<rparr>, Accepting))"
| "main_moves (FreesArgs fd) p = (p\<lparr>t_heap := c_free (Some ()) (t_heap p)\<rparr>, Drops fd)"
| "main_moves (Drops fd) p = (close_client fd p, Accepting)"

text \<open>The calls of \<open>thread_worker\<close> and \<open>handle_client_request\<close> one by one; the thread first copies
  the descriptor and frees its arguments.\<close>

definition thread_starts :: "int \<Rightarrow> tcp_process \<Rightarrow> tcp_process" where
  "thread_starts fd p =
     p\<lparr>t_heap := c_free (Some ()) (t_heap p), workers := remove1 fd (workers p)\<rparr>"

fun thread_moves :: "int \<Rightarrow> thread_phase \<Rightarrow> tcp_process \<Rightarrow> tcp_process \<times> thread_phase option" where
  "thread_moves fd Receives p =
     (case sys_read 4096 (conns p fd) of
        (Inl e, c) \<Rightarrow> (note_diags [Perror ''recv''] (set_conn fd c p), Some Closes)
      | (Inr bytes_recv, c) \<Rightarrow>
          (set_conn fd c p, Some (if bytes_recv = [] then Closes else Sends bytes_recv)))"
| "thread_moves fd (Sends bytes_recv) p =
     (case sys_write bytes_recv (conns p fd) of
        (Inl e, c) \<Rightarrow> (note_diags [Perror ''send''] (set_conn fd c p), Some Closes)
      | (Inr bytes_sent, c) \<Rightarrow> (set_conn fd c p, Some Receives))"
| "thread_moves fd Closes p = (close_client fd p, None)"

text \<open>One step of one thread, in any interleaving; \<open>accept\<close> returns a descriptor that is not open.\<close>

inductive thread_step :: "threaded \<Rightarrow> threaded \<Rightarrow> bool" where
  step_accept: "main_at t = Accepting \<Longrightarrow> fd \<notin> set (clients (proc t)) \<Longrightarrow>
    main_accepts fd c ip (proc t) = (p, m) \<Longrightarrow> thread_step t (t\<lparr>proc := p, main_at := m\<rparr>)"
| step_main: "main_at t \<noteq> Accepting \<Longrightarrow> main_moves (main_at t) (proc t) = (p, m) \<Longrightarrow>
    thread_step t (t\<lparr>proc := p, main_at := m\<rparr>)"
| step_start: "fd \<in> set (workers (proc t)) \<Longrightarrow>
    thread_step t (t\<lparr>proc := thread_starts fd (proc t), running := (running t)(fd \<mapsto> Receives)\<rparr>)"
| step_thread: "running t fd = Some ph \<Longrightarrow> thread_moves fd ph (proc t) = (p, ph') \<Longrightarrow>
    thread_step t (t\<lparr>proc := p, running := (running t)(fd := ph')\<rparr>)"

inductive_cases thread_stepE: "thread_step t u"

text \<open>The descriptor and the number of argument blocks in the hands of the main thread.\<close>

fun main_fds :: "main_phase \<Rightarrow> int set" where
  "main_fds Accepting = {}"
| "main_fds (Accepted fd) = {fd}"
| "main_fds (HasArgs fd) = {fd}"
| "main_fds (FreesArgs fd) = {fd}"
| "main_fds (Drops fd) = {fd}"

definition main_blocks :: "main_phase \<Rightarrow> nat" where
  "main_blocks m = (case m of HasArgs fd \<Rightarrow> 1 | FreesArgs fd \<Rightarrow> 1 | _ \<Rightarrow> 0)"

text \<open>\<open>server_loop\<close> and \<open>main\<close> up to the first \<open>accept\<close>: the messages the process exits with, or
  its socket, and the process that waits on it with any heap and any coming answers of
  \<open>pthread_create\<close>.\<close>

definition echo_listen :: "net_setup \<Rightarrow> diag list + int" where
  "echo_listen n =
     (case snd (get_tcp_server_socket n) of
        Inl ds \<Rightarrow> Inl ds
      | Inr socketfd \<Rightarrow> if listen_result n = - 1 then Inl [Perror ''listen''] else Inr socketfd)"

definition echo_main ::
    "string list \<Rightarrow> net_setup \<Rightarrow> os \<Rightarrow> (int \<Rightarrow> os) \<Rightarrow> int list \<Rightarrow> diag list + int \<times> tcp_process" where
  "echo_main argv n h net answers =
     (case echo_port argv of
        Inl ds \<Rightarrow> Inl ds
      | Inr port \<Rightarrow>
          (case echo_listen n of
             Inl ds \<Rightarrow> Inl ds
           | Inr socketfd \<Rightarrow>
               Inr (socketfd, \<lparr>t_heap = h, conns = net, clients = [], workers = [], children = [],
                              creates = answers, forks = [], shown = [], noted = []\<rparr>)))"

section \<open>The single connection server\<close>

text \<open>
  The state of \<open>server_loop\<close>: the bytes of \<open>incoming_addr\<close>, \<open>incoming_addr_len\<close>, \<open>ipaddr\<close>, the
  open client descriptors, and the two outputs. \<open>accept\<close> stores at most \<open>incoming_addr_len\<close>
  bytes of the peer's address and sets the length to that of the whole address.
\<close>

record single_server =
  incoming_addr :: "byte list"
  incoming_addr_len :: nat
  ipaddr :: string
  s_clients :: "int list"
  s_shown :: "byte list"
  s_noted :: "diag list"

definition single_start :: single_server where
  "single_start = \<lparr>incoming_addr = replicate 128 0, incoming_addr_len = 4, ipaddr = [],
     s_clients = [], s_shown = [], s_noted = []\<rparr>"

definition store_address :: "byte list \<Rightarrow> single_server \<Rightarrow> single_server" where
  "store_address addr p =
     (let n = min (incoming_addr_len p) (length addr)
      in p\<lparr>incoming_addr := take n addr @ drop n (incoming_addr p), incoming_addr_len := length addr\<rparr>)"

text \<open>\<open>inet_ntop\<close> for the four bytes of an IPv4 address; \<open>ntop6\<close> stands for the other family.\<close>

definition dotted :: "byte list \<Rightarrow> string" where
  "dotted bs = (case map (\<lambda>b. decimal (unat b)) bs of
     [a, b, c, d] \<Rightarrow> a @ ''.'' @ b @ ''.'' @ c @ ''.'' @ d | _ \<Rightarrow> [])"

definition peer_text :: "(byte list \<Rightarrow> string) \<Rightarrow> single_server \<Rightarrow> string" where
  "peer_text ntop6 p =
     (let family = unat (incoming_addr p ! 0) + 256 * unat (incoming_addr p ! 1) in
      if family = 2 then dotted (take 4 (drop 4 (incoming_addr p)))
      else if family = 10 then ntop6 (take 16 (drop 8 (incoming_addr p)))
      else ipaddr p)"

text \<open>The inner loop: whether it ended because the peer closed, and the messages. A failed
  \<open>send\<close> does not end it.\<close>

function single_echo :: "os \<Rightarrow> bool \<times> diag list \<times> os" where
  "single_echo s =
     (case sys_read 4096 s of
        (Inl e, s1) \<Rightarrow> (False, [Perror ''recv''], s1)
      | (Inr bytes_recv, s1) \<Rightarrow>
          if bytes_recv = [] then (True, [], s1)
          else
            (case sys_write bytes_recv s1 of
               (w, s2) \<Rightarrow>
                 (case single_echo s2 of
                    (closed, ds, s3) \<Rightarrow>
                      (closed, (case w of Inl e \<Rightarrow> [Perror ''send''] | Inr n \<Rightarrow> []) @ ds, s3))))"
  by pat_completeness auto
termination
proof (relation "measure (\<lambda>s. length (pending s))", goal_cases)
  case 1
  then show ?case by simp
next
  case (2 s r s1 bs w s2)
  have "length (pending s1) < length (pending s)"
    using 2 inp.read_progress [of 4096 s bs s1] by simp
  moreover have "pending s2 = pending s1"
    using 2 sys_write_frame [of bs s1 w s2] by simp
  ultimately show ?case by simp
qed

declare single_echo.simps [simp del]

text \<open>One round of the outer loop after a successful \<open>accept\<close>; the socket is closed only when
  the peer has closed.\<close>

definition single_round ::
    "(byte list \<Rightarrow> string) \<Rightarrow> int \<Rightarrow> byte list \<Rightarrow> os \<Rightarrow> single_server \<Rightarrow> single_server \<times> os" where
  "single_round ntop6 fd addr c p =
     (let p1 = (store_address addr p)\<lparr>s_clients := s_clients p @ [fd]\<rparr>;
          (w, c1) = sys_write (bytes_of (''hello'' @ [CHR 0x0A])) c;
          hello = (case w of Inl e \<Rightarrow> [Perror ''send''] | Inr n \<Rightarrow> []);
          (closed, ds, c2) = single_echo c1;
          p2 = p1\<lparr>s_noted := s_noted p1 @ hello @ ds\<rparr>
      in
      if closed then
        (let ip = peer_text ntop6 p2
         in (p2\<lparr>ipaddr := ip,
                s_shown := s_shown p2 @ bytes_of (''closing connection: '' @ ip @ [CHR 0x0A]),
                s_clients := remove1 fd (s_clients p2)\<rparr>, c2))
      else (p2, c2))"

text \<open>The outer loop over what \<open>accept\<close> returns: NULL for a failure, which ends the process.\<close>

fun single_loop ::
    "(byte list \<Rightarrow> string) \<Rightarrow> (int \<times> byte list \<times> os) option list \<Rightarrow> single_server \<Rightarrow>
       (bool \<times> single_server \<times> os list)" where
  "single_loop ntop6 [] p = (False, p, [])"
| "single_loop ntop6 (None # rest) p = (True, p\<lparr>s_noted := s_noted p @ [Perror ''accept'']\<rparr>, [])"
| "single_loop ntop6 (Some (fd, addr, c) # rest) p =
     (let (p1, c1) = single_round ntop6 fd addr c p; (ended, p2, cs) = single_loop ntop6 rest p1
      in (ended, p2, c1 # cs))"

text \<open>\<open>main\<close>: the messages it exits with before it listens, or the state after the peers of the
  schedule and whether the process has ended then, as it does after a failed \<open>accept\<close>.\<close>

definition single_main ::
    "string list \<Rightarrow> net_setup \<Rightarrow> (byte list \<Rightarrow> string) \<Rightarrow> (int \<times> byte list \<times> os) option list \<Rightarrow>
       diag list + bool \<times> single_server \<times> os list" where
  "single_main argv n ntop6 peers =
     (case single_port argv of
        Inl ds \<Rightarrow> Inl ds
      | Inr port \<Rightarrow>
          (case snd (single_server_socket n) of
             Inl ds \<Rightarrow> Inl ds
           | Inr socketfd \<Rightarrow> Inr (single_loop ntop6 peers single_start)))"

end
