(* ===== verification/TcpProps.thy ===== *)
theory TcpProps
  imports TcpServers
begin

text \<open>
  The properties of the TCP servers: the echo of one connection, from \<open>main\<close> to what each
  peer of the two echo servers receives, the ownership of descriptors
  and argument blocks in every interleaving of the threads, the port checks of the three
  programs side by side, and what the single connection server says of its peers.
\<close>

section \<open>Echo\<close>

definition echoed :: "os \<Rightarrow> diag list \<Rightarrow> os \<Rightarrow> bool" where
  "echoed s ds s' \<longleftrightarrow>
     (\<exists>got sent. pending s = got @ pending s' \<and> sink s' = sink s @ sent \<and> subseq sent got \<and>
        (writes_full s \<longrightarrow> sent = got) \<and> (ds = [] \<longrightarrow> pending s' = []) \<and>
        (reads_ok s \<and> writes_full s \<longrightarrow> ds = []) \<and> live s' = live s)"

text \<open>One block read and sent, whole or in part.\<close>

lemma echo_block:
  assumes rd: "sys_read 4096 s = (Inr bs, s1)" and wr: "sys_write bs s1 = (w, s2)"
  shows "\<exists>k. pending s = bs @ pending s2 \<and> sink s2 = sink s @ take k bs \<and> live s2 = live s \<and>
    (reads_ok s \<longrightarrow> reads_ok s2) \<and>
    (writes_full s \<longrightarrow> take k bs = bs \<and> writes_full s2 \<and> (\<exists>n. w = Inr n))"
proof -
  note fr = sys_read_frame [OF rd] and wfr = sys_write_frame [OF wr]
  have len: "length bs \<le> PAGE_SIZE" using inp.read_bound [OF rd] by (simp add: PAGE_SIZE_def)
  have full: "writes_full s \<longrightarrow> sink s2 = sink s @ bs \<and> writes_full s2 \<and> (\<exists>n. w = Inr n)"
    using full_write [OF _ len wr] fr writes_full_frame [of s1 s] wr
    by (auto simp: sys_write_def writes_full_def Let_def split: list.splits write_choice.splits)
  obtain k where k: "sink s2 = sink s @ take k bs" using outp.write_prefix [OF wr] fr by auto
  have "reads_ok s \<longrightarrow> reads_ok s2"
    using sys_read_reads_ok [OF _ rd] wfr by (auto simp: reads_ok_def)
  then show ?thesis using full k inp.read_content [OF rd] wfr fr by (intro exI [of _ k]) auto
qed

lemma echoed_more:
  assumes "pending s = bs @ pending s2" "sink s2 = sink s @ take k bs" "live s2 = live s"
    and "reads_ok s \<longrightarrow> reads_ok s2" and "writes_full s \<longrightarrow> take k bs = bs \<and> writes_full s2"
    and rest: "echoed s2 ds s'"
  shows "echoed s ds s'"
proof -
  obtain got sent where ih: "pending s2 = got @ pending s'" "sink s' = sink s2 @ sent"
    "subseq sent got" "writes_full s2 \<longrightarrow> sent = got" "ds = [] \<longrightarrow> pending s' = []"
    "reads_ok s2 \<and> writes_full s2 \<longrightarrow> ds = []" "live s' = live s2"
    using rest unfolding echoed_def by blast
  have "subseq (take k bs @ sent) (bs @ got)"
    using ih(3) by (intro list_emb_append_mono) (auto simp: prefix_imp_subseq take_is_prefix)
  then show ?thesis
    unfolding echoed_def using assms ih
    by (intro exI [of _ "bs @ got"] exI [of _ "take k bs @ sent"]) auto
qed

lemma echo_outcome: "handle_client_request s = (ds, s') \<Longrightarrow> echoed s ds s'"
proof (induction s arbitrary: ds s' rule: handle_client_request.induct)
  case (1 s)
  obtain r s1 where rd: "sys_read 4096 s = (r, s1)" by fastforce
  note fr = sys_read_frame [OF rd]
  show ?case
  proof (cases r)
    case (Inl e)
    then have "ds = [Perror ''recv'']" "s' = s1"
      using "1.prems" rd by (simp_all add: handle_client_request.simps [of s])
    moreover have "\<not> reads_ok s" using sys_read_reads_ok [OF _ rd] Inl by auto
    moreover have "pending s1 = pending s" using inp.read_error rd Inl by blast
    ultimately show ?thesis using fr by (simp add: echoed_def)
  next
    case (Inr bs)
    note rd' = rd [unfolded Inr]
    show ?thesis
    proof (cases "bs = []")
      case True
      then have "ds = []" "s' = s1"
        using "1.prems" rd Inr by (simp_all add: handle_client_request.simps [of s])
      moreover have "pending s = []" using inp.read_eof rd Inr True by fastforce
      ultimately show ?thesis using fr inp.read_content [OF rd'] True by (simp add: echoed_def)
    next
      case False
      obtain w s2 where wr: "sys_write bs s1 = (w, s2)" by fastforce
      obtain k where k: "pending s = bs @ pending s2" "sink s2 = sink s @ take k bs" "live s2 = live s"
        "reads_ok s \<longrightarrow> reads_ok s2"
        "writes_full s \<longrightarrow> take k bs = bs \<and> writes_full s2 \<and> (\<exists>n. w = Inr n)"
        using echo_block [OF rd' wr] by blast
      show ?thesis
      proof (cases w)
        case (Inl e)
        then have "ds = [Perror ''send'']" "s' = s2"
          using "1.prems" rd \<open>r = Inr bs\<close> False wr by (simp_all add: handle_client_request.simps [of s])
        then show ?thesis
          unfolding echoed_def using Inl k
          by (intro exI [of _ bs] exI [of _ "take k bs"]) (auto simp: prefix_imp_subseq take_is_prefix)
      next
        case (Inr n)
        then have run: "handle_client_request s2 = (ds, s')"
          using "1.prems" rd \<open>r = Inr bs\<close> False wr by (simp add: handle_client_request.simps [of s])
        have "echoed s2 ds s'"
          using "1.IH" [OF rd [symmetric] \<open>r = Inr bs\<close> False wr [symmetric] Inr run] .
        then show ?thesis using echoed_more [OF k(1-4)] k(5) by blast
      qed
    qed
  qed
qed

section \<open>Connections in a run of the threaded server\<close>

text \<open>What a list of events does to one connection, seen from that connection alone.\<close>

fun conn_view :: "int \<Rightarrow> tcp_event \<Rightarrow> os \<Rightarrow> os" where
  "conn_view fd (Accepts g c ip) s = (if g = fd \<and> g \<noteq> - 1 then c else s)"
| "conn_view fd (Finishes g) s = (if g = fd then snd (handle_client_request s) else s)"

definition concerns :: "int \<Rightarrow> tcp_event \<Rightarrow> bool" where
  "concerns fd e = (case e of Accepts g c ip \<Rightarrow> g = fd | Finishes g \<Rightarrow> g = fd)"

lemma pthread_impl_conns [simp]: "conns (pthread_impl fd p) = conns p"
  by (auto simp: pthread_impl_def note_diags_def close_client_def Let_def split: prod.splits bool.splits)

lemma server_round_conns:
  "conns (server_round fd c ip p) = (if fd = - 1 then conns p else (conns p)(fd := c))"
  by (simp add: server_round_def note_diags_def Let_def split: option.splits)

lemma thread_worker_conns:
  "conns (thread_worker fd p) = (conns p)(fd := snd (handle_client_request (conns p fd)))"
  by (simp add: thread_worker_def close_client_def note_diags_def split: prod.splits)

lemma tcp_do_conns: "tcp_do e p = Some q \<Longrightarrow> conns q fd = conn_view fd e (conns p fd)"
  by (cases e) (auto simp: server_round_conns thread_worker_conns split: if_splits)

lemma tcp_events_conns: "tcp_events es p = Some q \<Longrightarrow> conns q fd = fold (conn_view fd) es (conns p fd)"
  by (induction es arbitrary: p) (auto simp: tcp_do_conns split: bind_splits)

lemma tcp_do_step: "tcp_do e p = Some q \<Longrightarrow> tcp_step p q"
  by (cases e) (auto intro: tcp_step.intros split: if_splits)

lemma tcp_events_run: "tcp_events es q = Some r \<Longrightarrow> tcp_run p q \<Longrightarrow> tcp_run p r"
proof (induction es arbitrary: q)
  case Nil
  then show ?case by simp
next
  case (Cons e es)
  then show ?case using run_step [OF _ tcp_do_step] by (auto split: bind_splits)
qed

lemma tcp_events_append: "tcp_events (as @ bs) p = do { q \<leftarrow> tcp_events as p; tcp_events bs q }"
  by (induction as arbitrary: p) (auto split: bind_splits)

lemma tcp_do_clients: "tcp_do e p = Some q \<Longrightarrow> \<not> concerns fd e \<Longrightarrow> fd \<notin> set (clients p) \<Longrightarrow> fd \<notin> set (clients q)"
  by (cases e) (auto simp: concerns_def server_round_def pthread_impl_def thread_worker_def note_diags_def
      close_client_def Let_def dest: notin_set_remove1 split: if_splits option.splits prod.splits bool.splits)

lemma tcp_events_clients:
  "tcp_events es p = Some q \<Longrightarrow> list_all (\<lambda>e. \<not> concerns fd e) es \<Longrightarrow> fd \<notin> set (clients p) \<Longrightarrow> fd \<notin> set (clients q)"
  by (induction es arbitrary: p) (auto split: bind_splits dest: tcp_do_clients)

lemma conn_view_other: "\<not> concerns fd e \<Longrightarrow> conn_view fd e s = s"
  by (cases e) (auto simp: concerns_def)

lemma conn_views_other: "list_all (\<lambda>e. \<not> concerns fd e) es \<Longrightarrow> fold (conn_view fd) es s = s"
  by (induction es) (simp_all add: conn_view_other)

text \<open>
  A thread of the server echoes its connection: what it sends back is, byte for byte and in
  order, part of what it received; all of it when no write is short or fails, and then without
  a message unless a read fails, up to the end of the input. It closes its descriptor, frees its
  arguments and touches no other connection.
\<close>

theorem thread_worker_echoes:
  assumes "q = thread_worker fd p"
  shows "\<exists>got sent. pending (conns p fd) = got @ pending (conns q fd) \<and>
      sink (conns q fd) = sink (conns p fd) @ sent \<and> subseq sent got \<and>
      (writes_full (conns p fd) \<longrightarrow> sent = got) \<and>
      (reads_ok (conns p fd) \<and> writes_full (conns p fd) \<longrightarrow>
         noted q = noted p \<and> pending (conns q fd) = []) \<and>
      (\<forall>g. g \<noteq> fd \<longrightarrow> conns q g = conns p g) \<and>
      clients q = remove1 fd (clients p) \<and> live (t_heap q) = live (t_heap p) - 1"
proof -
  obtain ds c where h: "handle_client_request (conns p fd) = (ds, c)" by fastforce
  then have q: "conns q fd = c" "noted q = noted p @ ds" "\<forall>g. g \<noteq> fd \<longrightarrow> conns q g = conns p g"
    "clients q = remove1 fd (clients p)" "live (t_heap q) = live (t_heap p) - 1"
    by (simp_all add: assms thread_worker_def close_client_def note_diags_def)
  then show ?thesis using echo_outcome [OF h, unfolded echoed_def] by (metis append_Nil2)
qed

definition example_process :: tcp_process where
  "example_process = \<lparr>t_heap = example_os, conns = (\<lambda>_. example_os), clients = [], workers = [],
     children = [], creates = [], forks = [], shown = [], noted = []\<rparr>"

definition example_peer :: os where
  "example_peer = example_os\<lparr>pending := [104, 105, 10], reads := [Short 2]\<rparr>"

lemma thread_worker_echoes_witness:
  "sink (conns (thread_worker 7 (server_round 7 example_peer None example_process)) 7) = [104, 105, 10]"
proof -
  let ?p = "server_round 7 example_peer None example_process"
  have c: "conns ?p 7 = example_peer"
    by (simp add: server_round_def pthread_impl_def alloc_object_def example_process_def example_os_def)
  have ok: "reads_ok example_peer" "writes_full example_peer"
    by (simp_all add: example_peer_def example_os_def reads_ok_def writes_full_def)
  show ?thesis
    using thread_worker_echoes [of "thread_worker 7 ?p" 7 ?p] ok unfolding c
    by (auto simp: example_peer_def example_os_def)
qed

section \<open>Who owns the descriptors\<close>

lemma echo_diags:
  "handle_client_request s = (ds, s') \<Longrightarrow> ds \<in> {[], [Perror ''recv''], [Perror ''send'']}"
proof (induction s arbitrary: ds s' rule: handle_client_request.induct)
  case (1 s)
  obtain r s1 where rd: "sys_read 4096 s = (r, s1)" by fastforce
  show ?case
  proof (cases "\<exists>bs. r = Inr bs \<and> bs \<noteq> []")
    case False
    then show ?thesis
      using "1.prems" rd by (cases r) (auto simp: handle_client_request.simps [of s])
  next
    case True
    then obtain bs where bs: "r = Inr bs" "bs \<noteq> []" by blast
    obtain w s2 where wr: "sys_write bs s1 = (w, s2)" by fastforce
    show ?thesis
    proof (cases w)
      case (Inl e)
      then show ?thesis using "1.prems" rd bs wr by (simp add: handle_client_request.simps [of s])
    next
      case (Inr n)
      then have "handle_client_request s2 = (ds, s')"
        using "1.prems" rd bs wr by (simp add: handle_client_request.simps [of s])
      from "1.IH" [OF rd [symmetric] bs wr [symmetric] Inr this] show ?thesis .
    qed
  qed
qed

definition tcp_inv :: "tcp_process \<Rightarrow> tcp_process \<Rightarrow> bool" where
  "tcp_inv p q \<longleftrightarrow>
     distinct (clients q) \<and> distinct (workers q) \<and> set (workers q) \<subseteq> set (clients q) \<and>
     live (t_heap q) = live (t_heap p) + int (length (workers q)) \<and>
     length (clients q) = length (workers q) + count_list (noted q) (Perror ''malloc'') \<and>
     (mallocs_ok (t_heap p) \<longrightarrow> mallocs_ok (t_heap q) \<and> Perror ''malloc'' \<notin> set (noted q))"

lemma pthread_impl_inv:
  assumes "tcp_inv p q" and "fd \<notin> set (clients q)"
    and "r = q\<lparr>clients := clients q @ [fd], conns := cs, shown := txts\<rparr>"
  shows "tcp_inv p (pthread_impl fd r)"
proof -
  obtain ok h where a: "alloc_object (t_heap r) = (ok, h)" by fastforce
  note fr = alloc_object_frame [OF a] alloc_object_ok [OF _ a]
  have fresh: "fd \<notin> set (workers q)" using assms(1,2) by (auto simp: tcp_inv_def)
  show ?thesis
    using assms a fr fresh
    by (cases ok)
      (auto simp: pthread_impl_def note_diags_def close_client_def tcp_inv_def remove1_append Let_def)
qed

lemma server_round_inv:
  assumes "tcp_inv p q" and "fd \<notin> set (clients q)"
  shows "tcp_inv p (server_round fd c ip q)"
proof (cases "fd = - 1")
  case True
  then show ?thesis using assms(1) by (simp add: server_round_def note_diags_def tcp_inv_def)
next
  case False
  let ?out = "shown q @ (case ip of None \<Rightarrow> []
    | Some t \<Rightarrow> bytes_of (''incoming connection from '' @ t @ [CHR 0x0A]))"
  have "server_round fd c ip q = pthread_impl fd
      (q\<lparr>clients := clients q @ [fd], conns := (conns q)(fd := c), shown := ?out\<rparr>)"
    using False by (cases ip; cases q) (simp_all add: server_round_def)
  then show ?thesis using pthread_impl_inv [OF assms refl] by simp
qed

lemma remove1_length: "x \<in> set xs \<Longrightarrow> length xs = Suc (length (remove1 x xs))"
  by (induction xs) auto

lemma thread_worker_inv:
  assumes "tcp_inv p q" and "fd \<in> set (workers q)"
  shows "tcp_inv p (thread_worker fd q)"
proof -
  obtain ds c where h: "handle_client_request (conns q fd) = (ds, c)" by fastforce
  then have ds: "count_list ds (Perror ''malloc'') = 0" "Perror ''malloc'' \<notin> set ds"
    using echo_diags [OF h] by auto
  have "fd \<in> set (clients q)" using assms by (auto simp: tcp_inv_def)
  note l = remove1_length [OF assms(2)] remove1_length [OF this]
  show ?thesis
    using assms h ds l
    by (auto simp: thread_worker_def close_client_def note_diags_def tcp_inv_def)
qed

lemma tcp_run_inv: "tcp_run p q \<Longrightarrow> tcp_inv p p \<Longrightarrow> tcp_inv p q"
proof (induction rule: tcp_run.induct)
  case (run_start p)
  then show ?case .
next
  case (run_step p q r)
  then show ?case by (auto elim!: tcp_stepE intro: server_round_inv thread_worker_inv)
qed

text \<open>Now with every step of every thread. Who owns a descriptor: a thread, started or not, or the main
  thread until it has handed it over.\<close>

definition fine_inv :: "tcp_process \<Rightarrow> threaded \<Rightarrow> bool" where
  "fine_inv p t \<longleftrightarrow>
     (let q = proc t; ws = workers q; rs = dom (running t); ms = main_fds (main_at t) in
        distinct (clients q) \<and> distinct ws \<and> finite rs \<and>
        (\<forall>fd \<in> set ws. running t fd = None \<and> fd \<notin> ms) \<and> (\<forall>fd \<in> ms. running t fd = None) \<and>
        set ws \<union> ms \<subseteq> set (clients q) \<and> (\<forall>fd ph. running t fd = Some ph \<longrightarrow> fd \<in> set (clients q)) \<and>
        live (t_heap q) = live (t_heap p) + int (length ws) + int (main_blocks (main_at t)) \<and>
        length (clients q) = length ws + card rs + card ms + count_list (noted q) (Perror ''malloc'') \<and>
        (mallocs_ok (t_heap p) \<longrightarrow> mallocs_ok (t_heap q) \<and> Perror ''malloc'' \<notin> set (noted q)))"

lemma main_accepts_inv:
  assumes "fine_inv p t" and "main_at t = Accepting" and "fd \<notin> set (clients (proc t))"
    and "main_accepts fd c ip (proc t) = (q, m)"
  shows "fine_inv p (t\<lparr>proc := q, main_at := m\<rparr>)"
  using assms
  by (auto simp: fine_inv_def Let_def main_accepts_def set_conn_def note_diags_def main_blocks_def
      split: if_splits)

lemma main_moves_inv:
  assumes inv: "fine_inv p t" and m: "main_moves (main_at t) (proc t) = (q, m)"
  shows "fine_inv p (t\<lparr>proc := q, main_at := m\<rparr>)"
proof (cases "main_at t")
  case Accepting
  then show ?thesis using assms by (cases t) (simp add: fine_inv_def)
next
  case (Accepted fd)
  obtain ok h where a: "alloc_object (t_heap (proc t)) = (ok, h)" by fastforce
  show ?thesis
    using assms a Accepted alloc_object_frame [OF a] alloc_object_ok [OF _ a]
    by (cases ok) (auto simp: fine_inv_def Let_def note_diags_def main_blocks_def)
next
  case (HasArgs fd)
  then show ?thesis
    using assms by (auto simp: fine_inv_def Let_def note_diags_def main_blocks_def split: if_splits)
next
  case (FreesArgs fd)
  then have q: "q = (proc t)\<lparr>t_heap := c_free (Some ()) (t_heap (proc t))\<rparr>" "m = Drops fd"
    using m by simp_all
  show ?thesis
    using inv FreesArgs unfolding fine_inv_def Let_def by (simp add: q main_blocks_def)
next
  case (Drops fd)
  have "fd \<in> set (clients (proc t))" using inv Drops by (auto simp: fine_inv_def Let_def)
  moreover have q: "q = close_client fd (proc t)" "m = Accepting" using m Drops by simp_all
  ultimately have len: "length (clients (proc t)) = Suc (length (clients q))"
    using remove1_length by (simp add: close_client_def)
  have rest: "workers q = workers (proc t)" "t_heap q = t_heap (proc t)" "noted q = noted (proc t)"
    "clients q = remove1 fd (clients (proc t))"
    by (simp_all add: q(1) close_client_def)
  show ?thesis
    using inv len Drops unfolding fine_inv_def Let_def
    by (auto simp: q(2) rest main_blocks_def dest: in_set_remove1 [THEN iffD2, rotated])
qed

lemma thread_starts_inv:
  assumes "fine_inv p t" and "fd \<in> set (workers (proc t))"
  shows "fine_inv p (t\<lparr>proc := thread_starts fd (proc t), running := (running t)(fd \<mapsto> Receives)\<rparr>)"
proof -
  have "fd \<notin> dom (running t)" "finite (dom (running t))"
    using assms by (auto simp: fine_inv_def Let_def)
  then have "card (insert fd (dom (running t))) = Suc (card (dom (running t)))" by simp
  then show ?thesis
    using assms remove1_length [OF assms(2)] by (auto simp: fine_inv_def Let_def thread_starts_def)
qed

lemma thread_moves_process:
  assumes "thread_moves fd ph p = (q, ph')"
  shows "t_heap q = t_heap p \<and> workers q = workers p \<and>
    clients q = (if ph' = None then remove1 fd (clients p) else clients p) \<and>
    count_list (noted q) (Perror ''malloc'') = count_list (noted p) (Perror ''malloc'') \<and>
    (Perror ''malloc'' \<in> set (noted q) \<longleftrightarrow> Perror ''malloc'' \<in> set (noted p))"
  using assms
  by (cases "(fd, ph, p)" rule: thread_moves.cases)
    (auto simp: note_diags_def set_conn_def close_client_def split: prod.splits sum.splits)

lemma thread_moves_inv:
  assumes inv: "fine_inv p t" and run: "running t fd = Some ph"
    and m: "thread_moves fd ph (proc t) = (q, ph')"
  shows "fine_inv p (t\<lparr>proc := q, running := (running t)(fd := ph')\<rparr>)"
proof (cases ph')
  case (Some ph1)
  have "insert fd (dom (running t)) = dom (running t)" using run by auto
  moreover have "fd \<notin> set (workers (proc t))" "fd \<notin> main_fds (main_at t)" "fd \<in> set (clients (proc t))"
    using inv run by (auto simp: fine_inv_def Let_def)
  ultimately show ?thesis
    using inv thread_moves_process [OF m] Some by (auto simp: fine_inv_def Let_def)
next
  case None
  have fd: "fd \<in> dom (running t)" "fd \<in> set (clients (proc t))"
    using inv run by (auto simp: fine_inv_def Let_def)
  have "finite (dom (running t))" using inv by (simp add: fine_inv_def Let_def)
  then obtain n where n: "card (dom (running t)) = Suc n" "card (dom (running t) - {fd}) = n"
    using fd(1) by (metis card.remove)
  have other: "fd \<notin> set (workers (proc t))" "fd \<notin> main_fds (main_at t)"
    using inv run by (auto simp: fine_inv_def Let_def)
  note q = thread_moves_process [OF m, unfolded None simp_thms if_True]
  have len: "length (clients (proc t)) = Suc (length (clients q))"
    using q remove1_length [OF fd(2)] by simp
  show ?thesis
    using inv n other len unfolding fine_inv_def Let_def
    by (auto simp: q None dest: in_set_remove1 [THEN iffD2, rotated])
qed

lemma thread_step_inv:
  assumes "thread_step t u" and "fine_inv p t"
  shows "fine_inv p u"
  using assms(1)
proof (cases rule: thread_step.cases)
  case (step_accept fd c ip q m)
  then show ?thesis using main_accepts_inv [OF assms(2)] by blast
next
  case (step_main q m)
  then show ?thesis using main_moves_inv [OF assms(2)] by blast
next
  case (step_start fd)
  then show ?thesis using thread_starts_inv [OF assms(2)] by blast
next
  case (step_thread fd ph q ph')
  then show ?thesis using thread_moves_inv [OF assms(2)] by blast
qed

lemma thread_run_inv: "rtranclp thread_step t u \<Longrightarrow> fine_inv p t \<Longrightarrow> fine_inv p u"
  by (induction rule: rtranclp_induct) (simp_all add: thread_step_inv)

text \<open>A thread whose calls are not interrupted is \<open>thread_worker\<close>, and the main thread then is
  \<open>server_round\<close>: runs of whole threads are among the interleavings.\<close>

definition threads_of :: "tcp_process \<Rightarrow> threaded" where
  "threads_of p = \<lparr>proc = p, running = Map.empty, main_at = Accepting\<rparr>"

lemma step_first:
  "thread_step t u \<Longrightarrow> rtranclp thread_step u v \<Longrightarrow> rtranclp thread_step t v"
  by (rule converse_rtranclp_into_rtranclp)

lemma note_none [simp]: "note_diags [] p = p"
  by (simp add: note_diags_def)

lemma main_step:
  "main_at t \<noteq> Accepting \<Longrightarrow> main_moves (main_at t) (proc t) = (p, m) \<Longrightarrow>
     rtranclp thread_step (t\<lparr>proc := p, main_at := m\<rparr>) u \<Longrightarrow> rtranclp thread_step t u"
  by (rule step_first [OF step_main])

lemma pthread_runs:
  assumes "main_at t = Accepted fd"
  shows "rtranclp thread_step t (t\<lparr>proc := pthread_impl fd (proc t), main_at := Accepting\<rparr>)"
proof -
  obtain ok h where a: "alloc_object (t_heap (proc t)) = (ok, h)" by fastforce
  let ?rc = "if creates (proc t) = [] then 0 else hd (creates (proc t))"
  let ?t1 = "t\<lparr>proc := (proc t)\<lparr>t_heap := h\<rparr>, main_at := HasArgs fd\<rparr>"
  consider "\<not> ok" | "ok" "?rc \<noteq> 0" | "ok" "?rc = 0" by blast
  then show ?thesis
  proof cases
    case 1
    then have "main_moves (main_at t) (proc t) = (pthread_impl fd (proc t), Accepting)"
      using assms a by (simp add: pthread_impl_def)
    then show ?thesis by (rule main_step [rotated]) (use assms in simp_all)
  next
    case 2
    have m: "main_moves (main_at t) (proc t) = ((proc t)\<lparr>t_heap := h\<rparr>, HasArgs fd)"
      using assms a \<open>ok\<close> by simp
    have rc: "creates (proc t) \<noteq> []" "hd (creates (proc t)) \<noteq> 0" using 2(2) by (auto split: if_splits)
    define p2 where
      "p2 = note_diags [Perror ''pthread_create''] ((proc t)\<lparr>t_heap := h, creates := tl (creates (proc t))\<rparr>)"
    define p3 where "p3 = p2\<lparr>t_heap := c_free (Some ()) h\<rparr>"
    have whole: "pthread_impl fd (proc t) = close_client fd p3"
      using 2 a by (simp add: pthread_impl_def p2_def p3_def)
    have m1: "main_moves (HasArgs fd) ((proc t)\<lparr>t_heap := h\<rparr>) = (p2, FreesArgs fd)"
      using rc by (simp add: p2_def Let_def)
    have m2: "main_moves (FreesArgs fd) p2 = (p3, Drops fd)" by (simp add: p3_def p2_def note_diags_def)
    have m3: "main_moves (Drops fd) p3 = (pthread_impl fd (proc t), Accepting)" by (simp add: whole)
    have r3: "rtranclp thread_step (t\<lparr>proc := p3, main_at := Drops fd\<rparr>)
        (t\<lparr>proc := pthread_impl fd (proc t), main_at := Accepting\<rparr>)"
      by (rule main_step [of _ "pthread_impl fd (proc t)" Accepting])
        (use m3 in \<open>simp_all del: main_moves.simps\<close>)
    have r2: "rtranclp thread_step (t\<lparr>proc := p2, main_at := FreesArgs fd\<rparr>)
        (t\<lparr>proc := pthread_impl fd (proc t), main_at := Accepting\<rparr>)"
      by (rule main_step [of _ p3 "Drops fd"])
        (use m2 r3 in \<open>simp_all del: main_moves.simps\<close>)
    have "rtranclp thread_step ?t1 (t\<lparr>proc := pthread_impl fd (proc t), main_at := Accepting\<rparr>)"
      by (rule main_step [of _ p2 "FreesArgs fd"])
        (use m1 r2 in \<open>simp_all del: main_moves.simps\<close>)
    then show ?thesis by (rule main_step [OF _ m, rotated]) (simp add: assms)
  next
    case 3
    have m: "main_moves (main_at t) (proc t) = ((proc t)\<lparr>t_heap := h\<rparr>, HasArgs fd)"
      using assms a \<open>ok\<close> by simp
    have rc: "creates (proc t) = [] \<or> hd (creates (proc t)) = 0" using 3(2) by (auto split: if_splits)
    have "rtranclp thread_step ?t1 (t\<lparr>proc := pthread_impl fd (proc t), main_at := Accepting\<rparr>)"
      by (rule main_step [of _ "pthread_impl fd (proc t)" Accepting])
        (use \<open>ok\<close> rc a in \<open>auto simp: pthread_impl_def Let_def\<close>)
    then show ?thesis by (rule main_step [OF _ m, rotated]) (simp add: assms)
  qed
qed

lemma main_runs:
  assumes "main_at t = Accepting" and "fd \<notin> set (clients (proc t))"
  shows "rtranclp thread_step t (t\<lparr>proc := server_round fd c ip (proc t)\<rparr>)"
proof (cases "fd = - 1")
  case True
  then have "main_accepts fd c ip (proc t) = (server_round fd c ip (proc t), Accepting)"
    by (simp add: main_accepts_def server_round_def)
  note step = step_accept [OF assms this]
  have "t\<lparr>proc := server_round fd c ip (proc t), main_at := Accepting\<rparr> = t\<lparr>proc := server_round fd c ip (proc t)\<rparr>"
    using assms(1) by (cases t) simp
  then show ?thesis using step by (metis r_into_rtranclp)
next
  case False
  obtain p1 where p1: "main_accepts fd c ip (proc t) = (p1, Accepted fd)"
    "server_round fd c ip (proc t) = pthread_impl fd p1"
    using False by (cases ip; cases "proc t") (simp_all add: main_accepts_def server_round_def set_conn_def)
  let ?t1 = "t\<lparr>proc := p1, main_at := Accepted fd\<rparr>"
  have "rtranclp thread_step ?t1 (?t1\<lparr>proc := pthread_impl fd (proc ?t1), main_at := Accepting\<rparr>)"
    by (rule pthread_runs) simp
  then have "rtranclp thread_step t (?t1\<lparr>proc := pthread_impl fd (proc ?t1), main_at := Accepting\<rparr>)"
    by (rule step_first [OF step_accept [OF assms p1(1)]])
  moreover have "?t1\<lparr>proc := pthread_impl fd (proc ?t1), main_at := Accepting\<rparr> =
      t\<lparr>proc := server_round fd c ip (proc t)\<rparr>"
    using assms(1) p1(2) by (cases t) simp
  ultimately show ?thesis by simp
qed

lemma thread_stepped:
  "running t fd = Some ph \<Longrightarrow> thread_moves fd ph (proc t) = (p, ph') \<Longrightarrow>
     rtranclp thread_step (t\<lparr>proc := p, running := (running t)(fd := ph')\<rparr>) u \<Longrightarrow> rtranclp thread_step t u"
  by (rule step_first [OF step_thread])

lemma echo_runs:
  "running t fd = Some Receives \<Longrightarrow> handle_client_request (conns (proc t) fd) = (ds, c) \<Longrightarrow>
     rtranclp thread_step t
       (t\<lparr>proc := note_diags ds (set_conn fd c (proc t)), running := (running t)(fd \<mapsto> Closes)\<rparr>)"
proof (induction "conns (proc t) fd" arbitrary: t ds c rule: handle_client_request.induct)
  case 1
  let ?s = "conns (proc t) fd"
  obtain r s1 where rd: "sys_read 4096 ?s = (r, s1)" by fastforce
  show ?case
  proof (cases "\<exists>bs. r = Inr bs \<and> bs \<noteq> []")
    case False
    then have "c = s1" "ds = (case r of Inl e \<Rightarrow> [Perror ''recv''] | Inr bs \<Rightarrow> [])"
      using "1.prems"(2) rd by (cases r; simp add: handle_client_request.simps [of ?s])+
    then have "thread_moves fd Receives (proc t) = (note_diags ds (set_conn fd c (proc t)), Some Closes)"
      using False rd by (cases r) simp_all
    from thread_stepped [OF "1.prems"(1) this] show ?thesis by blast
  next
    case True
    then obtain bs where bs: "r = Inr bs" "bs \<noteq> []" by blast
    obtain w s2 where wr: "sys_write bs s1 = (w, s2)" by fastforce
    let ?t1 = "t\<lparr>proc := set_conn fd s1 (proc t), running := (running t)(fd \<mapsto> Sends bs)\<rparr>"
    have m1: "thread_moves fd Receives (proc t) = (set_conn fd s1 (proc t), Some (Sends bs))"
      using rd bs by simp
    have "rtranclp thread_step ?t1
        (t\<lparr>proc := note_diags ds (set_conn fd c (proc t)), running := (running t)(fd \<mapsto> Closes)\<rparr>)"
    proof (cases w)
      case (Inl e)
      then have "ds = [Perror ''send'']" "c = s2"
        using "1.prems"(2) rd bs wr by (simp_all add: handle_client_request.simps [of ?s])
      then have "thread_moves fd (Sends bs) (proc ?t1) = (note_diags ds (set_conn fd c (proc t)), Some Closes)"
        using Inl wr by (simp add: set_conn_def)
      from thread_stepped [OF _ this] show ?thesis by simp
    next
      case (Inr n)
      let ?t2 = "t\<lparr>proc := set_conn fd s2 (proc t), running := (running t)(fd \<mapsto> Receives)\<rparr>"
      have s2: "conns (proc ?t2) fd = s2" by (simp add: set_conn_def)
      then have wr2: "(w, conns (proc ?t2) fd) = sys_write bs s1" using wr by simp
      have rest: "handle_client_request (conns (proc ?t2) fd) = (ds, c)"
        using "1.prems"(2) rd bs wr Inr unfolding s2 by (simp add: handle_client_request.simps [of ?s])
      have "rtranclp thread_step ?t2
          (?t2\<lparr>proc := note_diags ds (set_conn fd c (proc ?t2)), running := (running ?t2)(fd \<mapsto> Closes)\<rparr>)"
        using "1.hyps" [OF rd [symmetric] bs wr2 Inr _ rest] by simp
      then have "rtranclp thread_step ?t2
          (t\<lparr>proc := note_diags ds (set_conn fd c (proc t)), running := (running t)(fd \<mapsto> Closes)\<rparr>)"
        by (simp add: set_conn_def)
      note r = this
      show ?thesis
        by (rule thread_stepped [of ?t1 fd "Sends bs" "set_conn fd s2 (proc t)" "Some Receives"])
          (use Inr wr r in \<open>simp_all add: set_conn_def\<close>)
    qed
    then show ?thesis by (rule thread_stepped [OF "1.prems"(1) m1])
  qed
qed

lemma thread_runs:
  assumes "fd \<in> set (workers (proc t))" and "running t fd = None"
  shows "rtranclp thread_step t (t\<lparr>proc := thread_worker fd (proc t)\<rparr>)"
proof -
  let ?t1 = "t\<lparr>proc := thread_starts fd (proc t), running := (running t)(fd \<mapsto> Receives)\<rparr>"
  obtain ds c where h: "handle_client_request (conns (proc t) fd) = (ds, c)" by fastforce
  let ?t2 = "t\<lparr>proc := note_diags ds (set_conn fd c (thread_starts fd (proc t))),
    running := (running t)(fd \<mapsto> Closes)\<rparr>"
  have "rtranclp thread_step ?t1 ?t2"
    using echo_runs [of ?t1 fd ds c] h by (simp add: thread_starts_def)
  then have "rtranclp thread_step t ?t2"
    by (rule step_first [OF step_start [OF assms(1)]])
  moreover have "thread_step ?t2 (?t2\<lparr>proc := thread_worker fd (proc t), running := (running ?t2)(fd := None)\<rparr>)"
    using h by (intro step_thread [of _ _ Closes])
      (simp_all add: thread_worker_def thread_starts_def set_conn_def note_diags_def close_client_def)
  moreover have "?t2\<lparr>proc := thread_worker fd (proc t), running := (running ?t2)(fd := None)\<rparr> =
      t\<lparr>proc := thread_worker fd (proc t)\<rparr>"
    using assms(2) by (cases t) (simp add: fun_upd_idem)
  ultimately show ?thesis by (metis rtranclp.rtrancl_into_rtrancl)
qed

lemma whole_threads_interleave: "tcp_run p q \<Longrightarrow> rtranclp thread_step (threads_of p) (threads_of q)"
proof (induction rule: tcp_run.induct)
  case (run_start p)
  then show ?case by simp
next
  case (run_step p q r)
  from run_step.hyps(2) have "rtranclp thread_step (threads_of q) (threads_of r)"
  proof (cases rule: tcp_step.cases)
    case (accepts fd c ip)
    then show ?thesis using main_runs [of "threads_of q" fd c ip] by (simp add: threads_of_def)
  next
    case (works fd)
    then show ?thesis using thread_runs [of fd "threads_of q"] by (simp add: threads_of_def)
  qed
  then show ?case using run_step.IH by simp
qed

text \<open>
  C13. Between any two calls of any thread, in every interleaving of the main thread and its
  workers, whatever \<open>accept\<close>, \<open>malloc\<close>, \<open>pthread_create\<close>, \<open>recv\<close> and \<open>send\<close> return: each client
  descriptor the process has open belongs to exactly one thread, which is waiting for its first
  turn, running, or the main thread that has not handed it over yet, except one descriptor for every
  failed \<open>malloc\<close> in \<open>pthread_impl\<close>, which is never closed; and the heap holds exactly one block
  of arguments for each thread that has not begun, and the one in the hands of the main thread, so a
  failed \<open>pthread_create\<close> loses nothing. Without failed allocations no descriptor is lost.
\<close>

theorem tcp_descriptors_owned:
  assumes "rtranclp thread_step (threads_of p) t" and "clients p = []" and "workers p = []" and "noted p = []"
  shows "let q = proc t; owned = set (workers q) \<union> dom (running t) \<union> main_fds (main_at t) in
    distinct (clients q) \<and> distinct (workers q) \<and>
    set (workers q) \<inter> dom (running t) = {} \<and>
    (set (workers q) \<union> dom (running t)) \<inter> main_fds (main_at t) = {} \<and>
    owned \<subseteq> set (clients q) \<and>
    card (set (clients q) - owned) = count_list (noted q) (Perror ''malloc'') \<and>
    live (t_heap q) = live (t_heap p) + int (length (workers q)) + int (main_blocks (main_at t)) \<and>
    (mallocs_ok (t_heap p) \<longrightarrow> set (clients q) = owned)"
proof -
  have "fine_inv p (threads_of p)" using assms(2-4) by (simp add: fine_inv_def threads_of_def main_blocks_def)
  then have inv: "fine_inv p t" by (rule thread_run_inv [OF assms(1)])
  let ?q = "proc t" and ?ws = "set (workers (proc t))" and ?rs = "dom (running t)" and ?ms = "main_fds (main_at t)"
  have disj: "?ws \<inter> ?rs = {}" "(?ws \<union> ?rs) \<inter> ?ms = {}" "?ws \<union> ?rs \<union> ?ms \<subseteq> set (clients ?q)"
    using inv by (auto simp: fine_inv_def Let_def)
  have fin: "finite ?rs" "finite ?ms" using inv by (cases "main_at t"; simp add: fine_inv_def Let_def)+
  have "card (?ws \<union> ?rs \<union> ?ms) = length (workers ?q) + card ?rs + card ?ms"
    using inv disj(1,2) fin by (simp add: card_Un_disjoint distinct_card fine_inv_def Let_def)
  then have c: "card (set (clients ?q) - (?ws \<union> ?rs \<union> ?ms)) = count_list (noted ?q) (Perror ''malloc'')"
    using inv disj(3) fin by (simp add: card_Diff_subset distinct_card fine_inv_def Let_def)
  have "set (clients ?q) = ?ws \<union> ?rs \<union> ?ms" if "mallocs_ok (t_heap p)"
  proof -
    have "card (set (clients ?q) - (?ws \<union> ?rs \<union> ?ms)) = 0" using inv that c by (simp add: fine_inv_def Let_def)
    then show ?thesis using disj(3) by auto
  qed
  then show ?thesis using inv disj c by (simp add: fine_inv_def Let_def)
qed

lemma tcp_descriptors_owned_witness:
  "\<exists>t. rtranclp thread_step (threads_of example_process) t \<and> running t = [7 \<mapsto> Receives] \<and>
     live (t_heap (proc t)) = 1 \<and> set (clients (proc t)) = {7, 8}"
proof -
  let ?p1 = "server_round 7 example_peer None example_process"
  let ?p2 = "server_round 8 example_peer (Some ''::1'') ?p1"
  let ?t = "(threads_of ?p2)\<lparr>proc := thread_starts 7 ?p2, running := [7 \<mapsto> Receives]\<rparr>"
  have p1: "clients ?p1 = [7]" "workers ?p1 = [7]"
    by (simp_all add: server_round_def pthread_impl_def alloc_object_def example_process_def example_os_def)
  have p2: "workers ?p2 = [7, 8]"
    by (simp add: server_round_def pthread_impl_def alloc_object_def example_process_def example_os_def)
  have "tcp_run example_process ?p1"
    by (intro run_step [OF run_start] accepts) (simp add: example_process_def)
  then have "tcp_run example_process ?p2" by (rule run_step) (intro accepts, simp add: p1)
  then have "rtranclp thread_step (threads_of example_process) (threads_of ?p2)"
    by (rule whole_threads_interleave)
  moreover have "thread_step (threads_of ?p2) ?t"
    using step_start [of 7 "threads_of ?p2"] p2 by (simp add: threads_of_def)
  ultimately have run: "rtranclp thread_step (threads_of example_process) ?t" by simp
  have "mallocs_ok (t_heap example_process)" "live (t_heap example_process) = 0"
    by (simp_all add: example_process_def example_os_def mallocs_ok_def)
  moreover have "workers (proc ?t) = [8]" by (simp add: thread_starts_def p2)
  moreover have "main_at ?t = Accepting" by (simp add: threads_of_def)
  ultimately have "live (t_heap (proc ?t)) = 1 \<and> set (clients (proc ?t)) = {7, 8}"
    using tcp_descriptors_owned [OF run] by (auto simp: example_process_def main_blocks_def Let_def)
  then show ?thesis using run by (intro exI [of _ ?t]) simp
qed

text \<open>The address list is freed once when there is one; the branch that would free it again is
  not reached.\<close>

lemma first_socket_positive: "first_socket rs fd = (r, True) \<Longrightarrow> 0 < r"
  by (induction rs fd rule: first_socket.induct) (auto split: if_splits)

lemma server_socket_frees_once:
  assumes "gai_status n = 0"
  shows "fst (get_tcp_server_socket n) = 1 \<and> fst (utils_server_socket n) = 1"
  using assms first_socket_positive [of "sockets n" "- 1"]
  by (cases "first_socket (sockets n) (- 1)") (fastforce simp: get_tcp_server_socket_def utils_server_socket_def Let_def)

text \<open>
  C14. The threaded server from \<open>main\<close> to a peer, in every interleaving of the threads: whatever
  happens before the peer is accepted, while its thread runs and after it has ended, its
  connection is left as the thread alone leaves it. So the peer gets back part of what it sent,
  in order; all of it, up to the end, when reads do not fail and sends are whole; and in the
  end its descriptor is closed.
\<close>

theorem threaded_echo_end_to_end:
  assumes "echo_main argv n h net answers = Inr (sock, p)"
    and "tcp_events (before @ [Accepts fd c ip] @ meanwhile @ [Finishes fd] @ after) p = Some q"
    and "fd \<noteq> - 1" and "list_all (\<lambda>e. \<not> concerns fd e) (meanwhile @ after)"
  shows "conns q fd = snd (handle_client_request c) \<and> fd \<notin> set (clients q) \<and>
    (\<exists>got sent. pending c = got @ pending (conns q fd) \<and> sink (conns q fd) = sink c @ sent \<and> subseq sent got \<and>
       (reads_ok c \<and> writes_full c \<longrightarrow> sent = pending c \<and> pending (conns q fd) = []))"
proof -
  have other: "fold (conn_view fd) meanwhile s = s" "fold (conn_view fd) after s = s" for s
    using assms(4) conn_views_other by auto
  have c: "conns q fd = snd (handle_client_request c)"
    using tcp_events_conns [OF assms(2), of fd] assms(3) other by simp
  obtain r where r: "tcp_events (before @ [Accepts fd c ip] @ meanwhile) p = Some r"
    "fd \<in> set (workers r)" "tcp_events after (thread_worker fd r) = Some q"
    using assms(2) by (auto simp: tcp_events_append split: bind_splits if_splits)
  have "tcp_inv p p"
    using assms(1) by (auto simp: echo_main_def tcp_inv_def split: sum.splits if_splits)
  then have "tcp_inv p r" using tcp_run_inv [OF tcp_events_run [OF r(1) run_start]] by simp
  then have "fd \<notin> set (clients (thread_worker fd r))"
    by (simp add: thread_worker_def note_diags_def close_client_def tcp_inv_def split: prod.split)
  then have "fd \<notin> set (clients q)" using tcp_events_clients [OF r(3)] assms(4) by simp
  moreover obtain ds s' where "handle_client_request c = (ds, s')" by fastforce
  ultimately show ?thesis using c echo_outcome [of c ds s'] by (auto simp: echoed_def)
qed

definition example_net :: net_setup where
  "example_net = \<lparr>gai_status = 0, gai_message = [], sockets = [3], bind_result = 0, listen_result = 0\<rparr>"

lemma threaded_echo_end_to_end_witness:
  "\<exists>q. tcp_events [Accepts 7 example_peer None, Accepts 8 example_os (Some ''::1''), Finishes 7] example_process = Some q \<and>
     sink (conns q 7) = [104, 105, 10] \<and> 7 \<notin> set (clients q)"
proof -
  have start: "echo_main [''echo'', ''4000''] example_net example_os (\<lambda>_. example_os) [] = Inr (3, example_process)"
  proof -
    have "echo_port [''echo'', ''4000''] = Inr 4000" "echo_listen example_net = Inr 3"
      by code_simp+
    then show ?thesis by (simp add: echo_main_def example_process_def)
  qed
  obtain q where q: "tcp_events ([] @ [Accepts 7 example_peer None] @ [Accepts 8 example_os (Some ''::1'')] @
      [Finishes 7] @ []) example_process = Some q"
    by (simp add: server_round_def pthread_impl_def alloc_object_def example_process_def example_os_def)
  have "reads_ok example_peer" "writes_full example_peer"
    by (simp_all add: example_peer_def example_os_def reads_ok_def writes_full_def)
  moreover have "list_all (\<lambda>e. \<not> concerns 7 e) ([Accepts 8 example_os (Some ''::1'')] @ [])"
    by (simp add: concerns_def)
  ultimately have "sink (conns q 7) = sink example_peer @ pending example_peer" "7 \<notin> set (clients q)"
    using threaded_echo_end_to_end [OF start q] by auto
  moreover have "sink example_peer @ pending example_peer = [104, 105, 10]"
    by (simp add: example_peer_def example_os_def)
  ultimately show ?thesis using q by simp
qed

section \<open>Ports\<close>

lemma word_port:
  assumes "1024 \<le> v" and "v \<le> 65535"
  shows "int (unat (of_int v :: 16 word)) = v"
  using assms by (simp add: unsigned_of_int take_bit_int_eq_self)

text \<open>
  The three programs read the port with \<open>strtol\<close> but do not agree: the two echo servers
  take any number from 1024 to 65535 whatever follows it in the argument, the chat server
  demands that nothing follows and refuses 1024 and 65535 themselves. The text that the echo
  servers make of the port is never cut short by their six bytes.
\<close>

theorem port_checks_compared:
  "(echo_port [prog, arg] = Inr p \<longleftrightarrow> fst (strtol arg) = int (unat p) \<and> 1024 \<le> unat p) \<and>
   (single_port [prog, arg] = Inr p \<longleftrightarrow> echo_port [prog, arg] = Inr p) \<and>
   (chat_port [prog, arg] = Inr (int (unat p)) \<longleftrightarrow>
      echo_port [prog, arg] = Inr p \<and> snd (strtol arg) = [] \<and> unat p \<notin> {1024, 65535}) \<and>
   port_text p = decimal (unat p)"
proof -
  let ?v = "fst (strtol arg)"
  have p: "unat p \<le> 65535" using unsigned_less [where w = p and 'a = nat] by simp
  have same: "(of_int (int (unat p)) :: 16 word) = p" by simp
  have echo: "echo_port [prog, arg] = Inr p \<longleftrightarrow> ?v = int (unat p) \<and> 1024 \<le> unat p"
  proof
    assume e: "echo_port [prog, arg] = Inr p"
    then have "1024 \<le> ?v" "?v \<le> 65535" "p = of_int ?v"
      by (auto simp: echo_port_def Let_def split: if_splits)
    with word_port show "?v = int (unat p) \<and> 1024 \<le> unat p"
      by (metis nat_int nat_le_iff of_nat_le_iff of_nat_numeral)
  next
    assume v: "?v = int (unat p) \<and> 1024 \<le> unat p"
    then have "1024 \<le> int (unat p)" "int (unat p) \<le> 65535" using p by linarith+
    then show "echo_port [prog, arg] = Inr p"
      using v same by (simp add: echo_port_def Let_def)
  qed
  have "single_port [prog, arg] = Inr p \<longleftrightarrow> echo_port [prog, arg] = Inr p"
    by (simp add: single_port_def echo_port_def Let_def)
  moreover have "chat_port [prog, arg] = Inr (int (unat p)) \<longleftrightarrow>
      echo_port [prog, arg] = Inr p \<and> snd (strtol arg) = [] \<and> unat p \<notin> {1024, 65535}"
  proof -
    have "uint p \<le> 1024 \<longleftrightarrow> unat p \<le> 1024" "65535 \<le> uint p \<longleftrightarrow> 65535 \<le> unat p"
      unfolding uint_nat by presburger+
    then show ?thesis unfolding echo using p by (cases "strtol arg") (auto simp: chat_port_def)
  qed
  moreover have "length (decimal (unat p)) \<le> 5" using decimal_length [of "unat p" 5] p by simp
  ultimately show ?thesis using echo by (simp add: port_text_def)
qed

section \<open>The peers of the single connection server\<close>

text \<open>The address of an IPv4 peer as \<open>accept\<close> gives it.\<close>

definition ipv4_address :: "byte list \<Rightarrow> byte list \<Rightarrow> byte list" where
  "ipv4_address port host = [2, 0] @ port @ host @ replicate 8 0"

lemma single_echo_closes:
  "reads_ok s \<Longrightarrow> fst (single_echo s)"
proof (induction s rule: single_echo.induct)
  case (1 s)
  obtain r s1 where rd: "sys_read 4096 s = (r, s1)" by fastforce
  obtain bs where bs: "r = Inr bs" "reads_ok s1" using sys_read_reads_ok [OF "1.prems" rd] by blast
  show ?case
  proof (cases "bs = []")
    case True
    then show ?thesis using rd bs by (simp add: single_echo.simps [of s])
  next
    case False
    obtain w s2 where wr: "sys_write bs s1 = (w, s2)" by fastforce
    have "reads_ok s2" using sys_write_frame [OF wr] bs(2) by (simp add: reads_ok_def)
    then have "fst (single_echo s2)" using "1.IH" [OF rd [symmetric] bs(1) False wr [symmetric]] by simp
    then show ?thesis
      using rd bs(1) False wr by (cases "single_echo s2") (simp add: single_echo.simps [of s])
  qed
qed

lemma single_round_closed:
  fixes addr :: "byte list"
  assumes "reads_ok c" and "fd \<notin> set (s_clients p)"
  defines "q \<equiv> store_address addr p"
  shows "\<exists>c' ds. single_round ntop6 fd addr c p =
    (q\<lparr>s_clients := s_clients p, s_noted := s_noted p @ ds, ipaddr := peer_text ntop6 q,
       s_shown := s_shown p @ bytes_of (''closing connection: '' @ peer_text ntop6 q @ [CHR 0x0A])\<rparr>, c')"
proof -
  obtain w c1 where w: "sys_write (bytes_of (''hello'' @ [CHR 0x0A])) c = (w, c1)" by fastforce
  then have "reads_ok c1" using assms(1) sys_write_frame [OF w] by (simp add: reads_ok_def)
  then obtain ds c2 where e: "single_echo c1 = (True, ds, c2)"
    using single_echo_closes [of c1] by (cases "single_echo c1") auto
  have "remove1 fd (s_clients p @ [fd]) = s_clients p" using assms(2) by (simp add: remove1_append)
  then show ?thesis
    using w e unfolding q_def
    by (cases p) (auto simp: single_round_def store_address_def Let_def peer_text_def)
qed

text \<open>Every byte that is sent comes back, in order.\<close>

lemma single_echo_full:
  "reads_ok s \<Longrightarrow> writes_full s \<Longrightarrow>
     \<exists>s'. single_echo s = (True, [], s') \<and> sink s' = sink s @ pending s \<and> pending s' = []"
proof (induction s rule: single_echo.induct)
  case (1 s)
  obtain r s1 where rd: "sys_read 4096 s = (r, s1)" by fastforce
  obtain bs where bs: "r = Inr bs" using sys_read_reads_ok [OF "1.prems"(1) rd] by blast
  note rd' = rd [unfolded bs] and fr = sys_read_frame [OF rd]
  show ?case
  proof (cases "bs = []")
    case True
    then have "pending s = []" using inp.read_eof rd' by fastforce
    then show ?thesis
      using True rd bs fr inp.read_content [OF rd'] by (simp add: single_echo.simps [of s])
  next
    case False
    obtain w s2 where wr: "sys_write bs s1 = (w, s2)" by fastforce
    obtain k where k: "pending s = bs @ pending s2" "sink s2 = sink s @ take k bs"
      "reads_ok s \<longrightarrow> reads_ok s2" "writes_full s \<longrightarrow> take k bs = bs \<and> writes_full s2 \<and> (\<exists>n. w = Inr n)"
      using echo_block [OF rd' wr] by blast
    then obtain n where n: "w = Inr n" using "1.prems" by blast
    obtain s' where "single_echo s2 = (True, [], s')" "sink s' = sink s2 @ pending s2" "pending s' = []"
      using "1.IH" [OF rd [symmetric] bs False wr [symmetric]] k(3,4) "1.prems" by blast
    then show ?thesis
      using k "1.prems" rd bs False wr n by (simp add: single_echo.simps [of s])
  qed
qed

lemma single_round_full:
  assumes "reads_ok c" and "writes_full c" and "fd \<notin> set (s_clients p)"
  shows "\<exists>q c'. single_round ntop6 fd addr c p = (q, c') \<and> s_clients q = s_clients p \<and> s_noted q = s_noted p \<and>
    sink c' = sink c @ bytes_of (''hello'' @ [CHR 0x0A]) @ pending c \<and> pending c' = []"
proof -
  let ?hello = "bytes_of (''hello'' @ [CHR 0x0A])"
  have len: "length ?hello \<le> PAGE_SIZE" by (simp add: bytes_of_def PAGE_SIZE_def)
  obtain w c1 where w: "sys_write ?hello c = (w, c1)" by fastforce
  have c1: "sink c1 = sink c @ ?hello" "writes_full c1" "reads_ok c1" "pending c1 = pending c" "\<exists>n. w = Inr n"
    using full_write [OF assms(2) len w] sys_write_frame [OF w] assms(1,2) w
    by (auto simp: reads_ok_def sys_write_def writes_full_def Let_def split: list.splits write_choice.splits)
  obtain c2 where "single_echo c1 = (True, [], c2)" "sink c2 = sink c1 @ pending c1" "pending c2 = []"
    using single_echo_full [OF c1(3,2)] by blast
  moreover have "remove1 fd (s_clients p @ [fd]) = s_clients p" using assms(3) by (simp add: remove1_append)
  ultimately show ?thesis
    using w c1 by (auto simp: single_round_def store_address_def Let_def)
qed

lemma single_loop_full:
  assumes "list_all (\<lambda>(fd, addr, c). reads_ok c \<and> writes_full c) ps" and "s_clients p = []"
  shows "\<exists>q cs. single_loop ntop6 (map Some ps) p = (False, q, cs) \<and> s_clients q = [] \<and> s_noted q = s_noted p \<and>
    map sink cs = map (\<lambda>(fd, addr, c). sink c @ bytes_of (''hello'' @ [CHR 0x0A]) @ pending c) ps \<and>
    list_all (\<lambda>c. pending c = []) cs"
  using assms
proof (induction ps arbitrary: p)
  case Nil
  then show ?case by simp
next
  case (Cons x ps)
  obtain fd addr c where x: "x = (fd, addr, c)" by (cases x) auto
  obtain q c' where "single_round ntop6 fd addr c p = (q, c')" "s_clients q = []" "s_noted q = s_noted p"
    "sink c' = sink c @ bytes_of (''hello'' @ [CHR 0x0A]) @ pending c" "pending c' = []"
    using single_round_full [of c fd p ntop6 addr] Cons.prems x by auto
  moreover from this obtain q' cs where "single_loop ntop6 (map Some ps) q = (False, q', cs)"
    "s_clients q' = []" "s_noted q' = s_noted q"
    "map sink cs = map (\<lambda>(fd, addr, c). sink c @ bytes_of (''hello'' @ [CHR 0x0A]) @ pending c) ps"
    "list_all (\<lambda>c. pending c = []) cs"
    using Cons.IH [of q] Cons.prems(1) by auto
  ultimately show ?case by (simp add: x)
qed

text \<open>
  C26. The single connection server from \<open>main\<close>: when reads do not fail and sends are whole, it
  serves one peer after the other for as long as they come; each receives the greeting
  \<open>hello\<close> and then every byte it has sent, in order, its connection is read to the end and
  closed before the next one is accepted, and nothing is reported on standard error.
\<close>

theorem single_server_echoes:
  assumes "single_port argv = Inr port" and "snd (single_server_socket n) = Inr socketfd"
    and "list_all (\<lambda>(fd, addr, c). reads_ok c \<and> writes_full c) ps"
  shows "\<exists>q cs. single_main argv n ntop6 (map Some ps) = Inr (False, q, cs) \<and>
    map sink cs = map (\<lambda>(fd, addr, c). sink c @ bytes_of (''hello'' @ [CHR 0x0A]) @ pending c) ps \<and>
    list_all (\<lambda>c. pending c = []) cs \<and> s_clients q = [] \<and> s_noted q = []"
  using single_loop_full [OF assms(3), of single_start ntop6] assms(1,2)
  by (auto simp: single_main_def single_start_def)

lemma single_server_echoes_witness:
  "\<exists>q c1 c2. single_main [''single'', ''4000''] example_net (\<lambda>_. [])
      [Some (4, [], example_peer), Some (4, [], example_peer)] = Inr (False, q, [c1, c2]) \<and>
    sink c2 = bytes_of (''hello'' @ [CHR 0x0A]) @ [104, 105, 10]"
proof -
  have "single_port [''single'', ''4000''] = Inr 4000" "snd (single_server_socket example_net) = Inr 3"
    by code_simp+
  moreover have "list_all (\<lambda>(fd, addr, c). reads_ok c \<and> writes_full c)
      [(4 :: int, [] :: byte list, example_peer), (4, [], example_peer)]"
    by (simp add: example_peer_def example_os_def reads_ok_def writes_full_def)
  ultimately show ?thesis
    using single_server_echoes [of _ _ _ _ "[(4, [], example_peer), (4, [], example_peer)]" "\<lambda>_. []"]
    by (fastforce simp: example_peer_def example_os_def)
qed

text \<open>
  C27. \<open>incoming_addr_len\<close> starts as the size of itself instead of the size of the address, so
  the first \<open>accept\<close> stores four bytes only: whoever the first IPv4 peer is, the server reports
  that it closed the connection to 0.0.0.0. From the second peer on the address is right.
\<close>

theorem single_first_address_lost:
  assumes "reads_ok c1" and "reads_ok c2" and "length port1 = 2" and "length port2 = 2"
    and "length host1 = 4" and "length host2 = 4"
  shows "\<exists>p cs. single_loop ntop6 [Some (fd1, ipv4_address port1 host1, c1),
      Some (fd2, ipv4_address port2 host2, c2)] single_start = (False, p, cs) \<and>
    s_clients p = [] \<and>
    s_shown p = bytes_of (''closing connection: 0.0.0.0'' @ [CHR 0x0A] @
      ''closing connection: '' @ dotted host2 @ [CHR 0x0A])"
proof -
  let ?a1 = "ipv4_address port1 host1" and ?a2 = "ipv4_address port2 host2"
  have zero: "dotted (replicate 4 0) = ''0.0.0.0''" by code_simp
  obtain x y where xy: "port1 = [x, y]" using assms(3) by (auto simp: length_Suc_conv numeral_2_eq_2)
  let ?q1 = "store_address ?a1 single_start"
  have q1: "incoming_addr ?q1 = [2, 0] @ port1 @ replicate 124 0" "incoming_addr_len ?q1 = 16"
    using assms(3,5) by (simp_all add: store_address_def single_start_def ipv4_address_def)
  have t1: "peer_text ntop6 ?q1 = ''0.0.0.0''"
    using q1 zero by (simp add: peer_text_def Let_def xy)
  obtain c1' ds1 where r1: "single_round ntop6 fd1 ?a1 c1 single_start =
    (?q1\<lparr>s_clients := [], s_noted := ds1, ipaddr := ''0.0.0.0'',
        s_shown := bytes_of (''closing connection: 0.0.0.0'' @ [CHR 0x0A])\<rparr>, c1')"
    using single_round_closed [OF assms(1), of fd1 single_start ntop6 ?a1] t1
    by (auto simp: single_start_def)
  let ?p1 = "?q1\<lparr>s_clients := [], s_noted := ds1, ipaddr := ''0.0.0.0'',
        s_shown := bytes_of (''closing connection: 0.0.0.0'' @ [CHR 0x0A])\<rparr>"
  let ?q2 = "store_address ?a2 ?p1"
  have "incoming_addr ?q2 = ?a2 @ replicate 112 0"
    using q1 assms(3-6) by (simp add: store_address_def ipv4_address_def xy)
  then have t2: "peer_text ntop6 ?q2 = dotted host2"
    using assms(4,6) by (simp add: peer_text_def Let_def ipv4_address_def)
  obtain c2' ds2 where r2: "single_round ntop6 fd2 ?a2 c2 ?p1 =
    (?q2\<lparr>s_clients := [], s_noted := ds2, ipaddr := dotted host2,
        s_shown := s_shown ?p1 @ bytes_of (''closing connection: '' @ dotted host2 @ [CHR 0x0A])\<rparr>, c2')"
    using single_round_closed [OF assms(2), of fd2 ?p1 ntop6 ?a2] t2 by auto
  show ?thesis using r1 r2 by (simp add: bytes_of_def)
qed

lemma single_first_address_lost_witness:
  "\<exists>p cs. single_loop (\<lambda>_. []) [Some (4, ipv4_address [31, 144] [192, 168, 0, 7], example_peer),
      Some (4, ipv4_address [31, 145] [10, 0, 0, 1], example_os)] single_start = (False, p, cs) \<and>
    s_shown p = bytes_of (''closing connection: 0.0.0.0'' @ [CHR 0x0A] @
      ''closing connection: '' @ dotted [10, 0, 0, 1] @ [CHR 0x0A])"
proof -
  have "reads_ok example_peer" "reads_ok example_os"
    by (simp_all add: example_peer_def example_os_def reads_ok_def)
  from single_first_address_lost [OF this, of "[31, 144]" "[31, 145]" "[192, 168, 0, 7]" "[10, 0, 0, 1]" "\<lambda>_. []" 4 4]
  show ?thesis by fastforce
qed

end
