(* ===== verification/ChatMain.thy ===== *)
theory ChatMain
  imports PollServerProps TcpProps
begin

text \<open>
  The whole chat server, \<open>main\<close> of \<open>tcp/polling/main.c\<close>: its argument, the listening socket of
  \<open>utils.c\<close> and \<open>poll_server_impl\<close>. The promise on \<open>accept\<close>, which \<open>PollServerProps\<close> makes
  state by state, is here what is documented of \<open>accept\<close>: \<open>kernel_honest\<close> follows the
  descriptors that are open along a run, and asks that none of them is returned. Every descriptor that
  the server watches or has registered is open (\<open>held\<close>), because it gives up a descriptor where it
  closes it; so a descriptor that has been closed may be given out again.
\<close>

section \<open>The model\<close>

text \<open>What is left of the process: a run with the descriptors that were closed at its end, or
  standard output and the server that waits for the next events.\<close>

datatype chat_process = ChatEnded run "int list" | ChatServing "byte list" server

definition chat_main ::
    "string list \<Rightarrow> net_setup \<Rightarrow> os \<Rightarrow> MessageQueue.conns \<Rightarrow> (int \<times> os) option list \<Rightarrow> poll_result list \<Rightarrow>
       chat_process option" where
  "chat_main argv n h net acc polls =
     (case chat_port argv of
        Inl ds \<Rightarrow> Some (ChatEnded \<lparr>out = [], diags = ds, status = 1\<rparr> [])
      | Inr portno \<Rightarrow>
          (case snd (utils_server_socket n) of
             Inl ds \<Rightarrow> Some (ChatEnded \<lparr>out = [], diags = ds, status = 1\<rparr> [])
           | Inr server_fd \<Rightarrow>
               (let greeting = bytes_of (''Chat server started on port '' @ decimal (nat portno) @ [CHR 0x0A]) in
                do {
                  r \<leftarrow> poll_server_impl server_fd h net acc polls;
                  (case r of
                     Waiting st \<Rightarrow> Some (ChatServing greeting st)
                   | Died ds \<Rightarrow> Some (ChatEnded \<lparr>out = greeting, diags = ds, status = 1\<rparr> [])
                   | Finished ec ds h1 \<Rightarrow>
                       Some (ChatEnded \<lparr>out = greeting, diags = ds, status = ec\<rparr> [server_fd]))
                })))"

section \<open>Descriptors in use\<close>

definition registered :: "server \<Rightarrow> int list" where
  "registered st = (case mqueue st of None \<Rightarrow> [] | Some mq \<Rightarrow> map client_fd (MessageQueue.clients mq))"

text \<open>The descriptors that the server watches or has registered are open, but for the -1 of a failed
  \<open>accept\<close>, and none of them is registered twice.\<close>

definition held :: "int set \<Rightarrow> server \<Rightarrow> bool" where
  "held opened st \<longleftrightarrow>
     set (watched (fdstate st)) \<union> set (registered st) \<subseteq> insert (- 1) {fd \<in> opened. 0 \<le> fd} \<and>
     distinct (filter (\<lambda>fd. 0 \<le> fd) (registered st))"

text \<open>The descriptors of these answers of \<open>accept\<close>.\<close>

definition accepted :: "(int \<times> os) option list \<Rightarrow> int set" where
  "accepted new = {fd. \<exists>c. Some (fd, c) \<in> set new}"

text \<open>A step that accepts nothing and may close descriptors, which it then uses no more.\<close>

definition shuts :: "server \<Rightarrow> server \<Rightarrow> bool" where
  "shuts st st' \<longleftrightarrow>
     accepts st' = accepts st \<and>
     (\<exists>gone. closed st' = closed st @ gone \<and> (\<forall>opened. held opened st \<longrightarrow> held (opened - set gone) st'))"

lemma shuts_trans: "shuts a b \<Longrightarrow> shuts b c \<Longrightarrow> shuts a c"
proof -
  assume "shuts a b" "shuts b c"
  then obtain g1 g2 where "accepts b = accepts a" "closed b = closed a @ g1"
    "\<forall>opened. held opened a \<longrightarrow> held (opened - set g1) b"
    "accepts c = accepts b" "closed c = closed b @ g2"
    "\<forall>opened. held opened b \<longrightarrow> held (opened - set g2) c"
    unfolding shuts_def by blast
  then show ?thesis
    unfolding shuts_def by (intro conjI exI [of _ "g1 @ g2"]) (auto simp: Diff_eq Int_assoc)
qed

lemma held_less:
  assumes "set (watched (fdstate st')) \<subseteq> set (watched (fdstate st))" and "subseq (registered st') (registered st)"
    and "held opened st"
  shows "held opened st'"
  using assms client_subseq [OF assms(2), of "\<lambda>fd. 0 \<le> fd" "\<lambda>fd. fd"] by (auto simp: held_def)

lemma shuts_less:
  "accepts st' = accepts st \<Longrightarrow> closed st' = closed st \<Longrightarrow>
     set (watched (fdstate st')) \<subseteq> set (watched (fdstate st)) \<Longrightarrow>
     subseq (registered st') (registered st) \<Longrightarrow> shuts st st'"
  unfolding shuts_def using held_less [of st' st] by (intro conjI exI [of _ "[]"]) auto

lemma shuts_refl: "shuts st st"
  by (rule shuts_less) simp_all

lemma registered_frame: "mqueue st' = mqueue st \<Longrightarrow> registered st' = registered st"
  by (simp add: registered_def)

lemma say_shuts: "shuts st (say d st)"
  by (rule shuts_less) (simp_all add: say_def registered_def)

lemma map_remove_first: "map f (remove_first (\<lambda>x. f x = a) xs) = remove1 a (map f xs)"
  by (induction xs) auto

lemma drop_client_shuts:
  assumes inv: "server_inv sfd st" and fd: "fd \<noteq> sfd" and run: "drop_client fd st = Some st'"
  shows "shuts st st'"
proof -
  have d: "set (watched (fdstate st')) = set (watched (fdstate st)) - {fd}" "closed st' = closed st @ [fd]"
    "\<forall>mq. mqueue st = Some mq \<longrightarrow> mqueue st' =
       Some (mq\<lparr>MessageQueue.clients := remove_first (\<lambda>c. client_fd c = fd) (MessageQueue.clients mq)\<rparr>)"
    using drop_client_ok [OF inv fd] run by auto
  have acc: "accepts st' = accepts st" and none: "mqueue st = None \<Longrightarrow> mqueue st' = None"
    using run by (auto simp: drop_client_def split: bind_splits prod.splits)
  have reg: "registered st' = remove1 fd (registered st)"
    using d(3) none by (cases "mqueue st") (simp_all add: registered_def map_remove_first)
  have "held (opened - {fd}) st'" if h: "held opened st" for opened
  proof -
    let ?pos = "filter (\<lambda>fd. 0 \<le> fd)"
    have dist: "distinct (?pos (registered st))" using h by (simp add: held_def)
    have "?pos (remove1 fd (registered st)) = (if 0 \<le> fd then remove1 fd (?pos (registered st)) else ?pos (registered st))"
      by (induction "registered st") (simp_all add: filter_remove1)
    then have "distinct (?pos (registered st'))" "0 \<le> fd \<Longrightarrow> fd \<notin> set (?pos (registered st'))"
      using dist by (simp_all add: reg)
    moreover have "set (registered st') \<subseteq> set (registered st)" by (simp add: reg set_remove1_subset)
    ultimately show ?thesis using h d(1) by (auto simp: held_def)
  qed
  then show ?thesis using acc d(2) unfolding shuts_def by (intro conjI exI [of _ "[fd]"]) simp_all
qed

lemma enqueue_shuts:
  assumes inv: "server_inv sfd st" and bs: "length bs \<le> MAX_MESSAGE_LENGTH"
    and run: "enqueue bs st = Some (r, st')"
  shows "shuts st st'"
proof -
  obtain q h where st': "st' = st\<lparr>mqueue := q, heap := h\<rparr>"
    "case mqueue st of None \<Rightarrow> q = None
     | Some mq \<Rightarrow> \<exists>mq'. q = Some mq' \<and> MessageQueue.clients mq' = MessageQueue.clients mq"
    using enqueue_ok [OF inv bs] run by (fastforce split: option.splits if_splits)
  then have "registered st' = registered st" by (auto simp: registered_def split: option.splits)
  then show ?thesis using st'(1) by (intro shuts_less) simp_all
qed

lemma drop_slow_shuts:
  assumes "server_inv sfd st"
  shows "shuts st (drop_slow st)"
proof -
  obtain q h where d: "drop_slow st = st\<lparr>mqueue := q, heap := h\<rparr>"
    "case mqueue st of None \<Rightarrow> q = None
     | Some mq \<Rightarrow> \<exists>cs. q = Some (mq\<lparr>MessageQueue.clients := cs\<rparr>) \<and> subseq cs (MessageQueue.clients mq)"
    using drop_slow_ok [OF assms] by blast
  then have "subseq (registered (drop_slow st)) (registered st)"
    by (auto simp: registered_def subseq_map split: option.splits)
  then show ?thesis using d(1) by (intro shuts_less) simp_all
qed

lemma after_q_shuts:
  assumes inv: "server_inv sfd st" and bs: "length bs \<le> MAX_MESSAGE_LENGTH"
    and run: "after_q bs r st = Some (Returned rv st')"
  shows "shuts st st'"
proof -
  have inv2: "server_inv sfd (drop_slow st)" using drop_slow_ok [OF inv] by (auto simp: step_ok_def)
  have "shuts st st1" if "enqueue bs (drop_slow st) = Some (r1, st1)" for r1 st1
    using shuts_trans [OF drop_slow_shuts [OF inv] enqueue_shuts [OF inv2 bs that]] .
  then show ?thesis
    using run say_shuts shuts_refl shuts_trans
    unfolding after_q_def by (auto split: if_splits bind_splits)
qed

lemma handle_client_event_shuts:
  assumes inv: "server_inv sfd st" and ev: "pfd ev \<noteq> sfd"
    and run: "handle_client_event ev st = Some (Returned rv st')"
  shows "shuts st st'"
proof -
  obtain r c where rd: "sys_read MAX_MESSAGE_LENGTH (conn st (pfd ev)) = (r, c)" by fastforce
  let ?st1 = "st\<lparr>conn := (conn st)(pfd ev := c)\<rparr>"
  have inv1: "server_inv sfd ?st1" using inv server_inv_frame [of ?st1 st sfd] by simp
  have o1: "shuts st ?st1" by (rule shuts_less) (simp_all add: registered_def)
  have drop: "shuts st st2" if "drop_client (pfd ev) ?st1 = Some st2" for st2
    using shuts_trans [OF o1 drop_client_shuts [OF inv1 ev that]] .
  have put: "shuts st st2" if "enqueue bs ?st1 = Some (e, st1)" "after_q bs e st1 = Some (Returned rv st2)"
    "r = Inr bs" for bs e st1 st2
  proof -
    have len: "length bs \<le> MAX_MESSAGE_LENGTH" using rd that(3) inp.read_bound by blast
    have "server_inv sfd st1" using enqueue_ok [OF inv1 len] that(1) by (auto simp: step_ok_def)
    from after_q_shuts [OF this len that(2)] show ?thesis
      using shuts_trans [OF o1] shuts_trans [OF enqueue_shuts [OF inv1 len that(1)]] by blast
  qed
  show ?thesis
    using run rd drop put drop_client_shuts [OF inv ev] shuts_refl
    unfolding handle_client_event_def
    by (auto simp: Let_def split: if_splits bind_splits sum.splits prod.splits)
qed

lemma client_loop_shuts:
  "server_inv sfd st \<Longrightarrow> 0 < i \<Longrightarrow> client_loop i st = Some (Inr st') \<Longrightarrow> shuts st st'"
proof (induction "fds_length (fdstate st) - i" arbitrary: i st rule: less_induct)
  case less
  show ?case
  proof (cases "i < fds_length (fdstate st)")
    case False
    then show ?thesis using less.prems by (simp add: client_loop.simps [of i st] shuts_refl)
  next
    case True
    obtain ev where ev: "fds_at st i = Some ev" "pfd ev \<noteq> sfd"
      using watched_entry [OF less.prems(1) True] less.prems(2) by auto
    obtain rv st1 where h: "handle_client_event ev st = Some (Returned rv st1)" "step_ok sfd st st1"
      "fds_length (fdstate st1) \<le> fds_length (fdstate st)"
      using handle_client_event_ok [OF less.prems(1) ev(2)] by blast
    have inv1: "server_inv sfd st1" using h(2) by (simp add: step_ok_def)
    have "client_loop (i + 1) st1 = Some (Inr st')"
      using less.prems(3) True ev(1) h(1) by (simp add: client_loop.simps [of i st])
    moreover have "fds_length (fdstate st1) - (i + 1) < fds_length (fdstate st) - i" using h(3) True by simp
    ultimately have "shuts st1 st'" using less.hyps inv1 by simp
    then show ?thesis
      using shuts_trans handle_client_event_shuts [OF less.prems(1) ev(2) h(1)] by blast
  qed
qed

lemma flush_shuts:
  assumes "message_queue__flush (mqueue st) fd (conn st) = Some (rv, q, net)"
  shows "shuts st (st\<lparr>mqueue := q, conn := net\<rparr>)"
proof -
  have fds: "map client_fd (update_first p (\<lambda>c. c\<lparr>roff := k\<rparr>) cs) = map client_fd cs" for p k cs
    by (rule map_update_first) simp
  have "q = mqueue st \<or> (\<exists>mq p k. mqueue st = Some mq \<and>
      q = Some (mq\<lparr>MessageQueue.clients := update_first p (\<lambda>c. c\<lparr>roff := k\<rparr>) (MessageQueue.clients mq)\<rparr>))"
    using assms by (cases "mqueue st") (auto split: if_splits option.splits bind_splits)
  then have "registered (st\<lparr>mqueue := q, conn := net\<rparr>) = registered st"
    unfolding registered_def by (elim disjE exE conjE) (simp_all add: fds)
  then show ?thesis by (intro shuts_less) simp_all
qed

lemma flush_clients_shuts:
  "server_inv sfd st \<Longrightarrow> flush_clients i st = Some st' \<Longrightarrow> shuts st st'"
proof (induction "fds_length (fdstate st) - i" arbitrary: i st rule: less_induct)
  case less
  show ?case
  proof (cases "i < fds_length (fdstate st)")
    case False
    then show ?thesis using less.prems by (simp add: flush_clients.simps [of i st] shuts_refl)
  next
    case True
    obtain ev where ev: "fds_at st i = Some ev" using watched_entry [OF less.prems(1) True] by blast
    obtain rv q net where f: "message_queue__flush (mqueue st) (pfd ev) (conn st) = Some (rv, q, net)"
      "step_ok sfd st (st\<lparr>mqueue := q, conn := net\<rparr>)"
      using flush_client_ok [OF less.prems(1), of "pfd ev"] by blast
    let ?st1 = "st\<lparr>mqueue := q, conn := net\<rparr>"
    have "flush_clients (i + 1) ?st1 = Some st'"
      using less.prems(2) True ev f(1) by (simp add: flush_clients.simps [of i st])
    moreover have "fds_length (fdstate ?st1) - (i + 1) < fds_length (fdstate st) - i" using True by simp
    moreover have "server_inv sfd ?st1" using f(2) by (simp add: step_ok_def)
    ultimately have "shuts ?st1 st'" using less.hyps by blast
    then show ?thesis using shuts_trans flush_shuts [OF f(1)] by blast
  qed
qed

lemma round_clients_shuts:
  assumes inv: "server_inv sfd st" and run: "round_clients st = Some (Continue st')"
  shows "shuts st st'"
proof -
  obtain st1 where st1: "client_loop 1 st = Some (Inr st1)" "server_inv sfd st1"
    using client_loop_ok [OF inv, of 1] by (auto simp: step_ok_def)
  then have "flush_clients 1 st1 = Some st'"
    using run by (auto simp: round_clients_def split: bind_splits)
  then show ?thesis
    using shuts_trans [OF client_loop_shuts [OF inv _ st1(1)] flush_clients_shuts [OF st1(2)]] by simp
qed

text \<open>A step that may take an answer of \<open>accept\<close>, and closes nothing.\<close>

definition seats :: "server \<Rightarrow> server \<Rightarrow> bool" where
  "seats st st' \<longleftrightarrow>
     closed st' = closed st \<and>
     (\<exists>new. accepts st = new @ accepts st' \<and> length new \<le> 1 \<and>
        (\<forall>opened. held opened st \<and> (\<forall>fd \<in> accepted new. 0 \<le> fd \<and> fd \<notin> opened) \<longrightarrow>
           held (opened \<union> accepted new) st'))"

lemma accept_client_seats:
  assumes inv: "server_inv sfd st" and run: "accept_client st = Some (rv, st')"
  shows "seats st st'"
proof -
  obtain fd acc net new where a: "sys_accept st = (fd, st\<lparr>accepts := acc, conn := net\<rparr>)"
    "accepts st = new @ acc" "length new \<le> 1" "fd = - 1 \<or> fd \<in> accepted new"
  proof (cases "accepts st")
    case Nil
    then show ?thesis using that [of "- 1" "conn st" "[]" "[]"] by (cases st) (simp add: sys_accept_def)
  next
    case (Cons x rest)
    then show ?thesis
      using that [of "- 1" "conn st" rest "[x]"] that [of "fst (the x)" _ rest "[x]"]
      by (cases x; cases st) (auto simp: sys_accept_def accepted_def)
  qed
  have fi: "fds_inv (fdstate st)" using inv by (simp add: server_inv_def)
  obtain wr fs where w: "fd_state__watch (fdstate st) fd = Some (wr, fs)"
    "set (watched fs) \<subseteq> insert fd (set (watched (fdstate st)))"
    using watch_cases [OF fi, of fd] by (fastforce split: if_splits)
  have eff: "closed st' = closed st" "accepts st' = acc" "fdstate st' = fs"
    "registered st' = registered st \<or> registered st' = fd # registered st"
    using run a(1) w(1)
    by (auto simp: accept_client_def registered_def Let_def split: if_splits option.splits prod.splits bool.splits)
  have "held (opened \<union> accepted new) st'"
    if h: "held opened st" "\<forall>fd \<in> accepted new. 0 \<le> fd \<and> fd \<notin> opened" for opened
    using eff(3,4) w(2) a(4) h by (auto simp: held_def)
  then show ?thesis using a(2,3) eff(1,2) unfolding seats_def by blast
qed

lemma shuts_say: "shuts a b \<Longrightarrow> shuts a (say d b)"
  using say_shuts shuts_trans by blast

lemma seats_say: "seats a b \<Longrightarrow> seats a (say d b)"
  by (auto simp: seats_def held_def registered_def say_def)

lemma handle_server_event_seats:
  assumes inv: "server_inv sfd st" and run: "handle_server_event ev st = Some (rv, st')" and rv: "rv \<noteq> - 1"
    and poll: "revents ev AND POLLIN \<noteq> 0"
  shows "seats st st'"
  using run rv poll accept_client_seats [OF inv]
  unfolding handle_server_event_def
  by (auto simp: Let_def split: if_splits bind_splits intro!: seats_say)

text \<open>Without \<open>POLLIN\<close> the server only says things.\<close>

lemma handle_server_event_quiet:
  assumes inv: "server_inv sfd st" and run: "handle_server_event ev st = Some (rv, st')" and rv: "rv \<noteq> - 1"
    and poll: "revents ev AND POLLIN = 0"
  shows "shuts st st'" and "step_ok sfd st st'"
proof -
  note said = step_ok_refl [OF inv] step_ok_said [OF step_ok_refl [OF inv]]
    step_ok_said [OF step_ok_said [OF step_ok_refl [OF inv]]]
  show "shuts st st'"
    using run rv poll shuts_refl unfolding handle_server_event_def
    by (auto simp: Let_def split: if_splits intro!: shuts_say)
  show "step_ok sfd st st'"
    using run rv poll said unfolding handle_server_event_def
    by (auto simp: Let_def split: if_splits)
qed

section \<open>A round, and what the kernel promises in it\<close>

definition polls_in :: "poll_result \<Rightarrow> bool" where
  "polls_in p = (case p of PollReady (r # rs) \<Rightarrow> r AND POLLIN \<noteq> 0 | _ \<Rightarrow> False)"

lemma polled_event:
  fixes p
  assumes inv: "server_inv sfd st"
  defines "st0 \<equiv> (case p of PollReady rs \<Rightarrow> deliver_events rs st
                      | _ \<Rightarrow> say (Barf ''...'') (deliver_events [] st))"
  shows "shuts st st0" and "closed st0 = closed st" and "\<exists>ev. fds_at st0 0 = Some ev \<and> (revents ev AND POLLIN \<noteq> 0 \<longleftrightarrow> polls_in p)"
proof -
  have del: "shuts st (deliver_events rs st)" for rs
    using deliver_events_ok(2) [OF inv, of rs]
    by (intro shuts_less) (simp_all add: registered_def, simp_all add: deliver_events_def Let_def)
  then show "shuts st st0" by (cases p) (simp_all add: st0_def shuts_say)
  show "closed st0 = closed st" by (cases p) (simp_all add: st0_def say_def deliver_events_def Let_def)
  have fi: "fds_inv (fdstate st)" "watched (fdstate st) \<noteq> []" using inv by (simp_all add: server_inv_def)
  then have "0 < length (watched (fdstate st))" "fds_length (fdstate st) \<le> length (fds (fdstate st))"
    by (simp_all add: fds_inv_def)
  then have "0 < fds_length (fdstate st)" "fds_length (fdstate st) \<le> length (fds (fdstate st))"
    using watched_length [OF fi(1)] by simp_all
  then obtain x xs where x: "take (fds_length (fdstate st)) (fds (fdstate st)) = x # xs"
    by (cases "take (fds_length (fdstate st)) (fds (fdstate st))") auto
  have "fds_at (deliver_events rs st) 0 = Some (x\<lparr>revents := case rs of [] \<Rightarrow> 0 | r # _ \<Rightarrow> r\<rparr>)" for rs
    using x by (cases rs) (simp_all add: fds_at_def deliver_events_def Let_def)
  moreover have "fds_at (say d s) i = fds_at s i" for d s i by (simp add: fds_at_def say_def)
  ultimately show "\<exists>ev. fds_at st0 0 = Some ev \<and> (revents ev AND POLLIN \<noteq> 0 \<longleftrightarrow> polls_in p)"
    by (cases p) (auto simp: st0_def polls_in_def split: list.splits)
qed

text \<open>The parts of a round that goes on: the answer of \<open>ppoll\<close>, the event of the listening socket, and
  the clients.\<close>

lemma poll_round_parts:
  assumes inv: "server_inv sfd st" and run: "poll_round p st = Some (Continue st')"
  shows "\<exists>st0 st1 st2.
    shuts st st0 \<and> closed st0 = closed st \<and> step_ok sfd st st0 \<and>
    (if polls_in p then seats st0 st1 else shuts st0 st1 \<and> step_ok sfd st0 st1) \<and>
    shuts st1 st2 \<and> step_ok sfd st1 st2 \<and> round_clients st2 = Some (Continue st')"
proof -
  define st0 where "st0 = (case p of PollReady rs \<Rightarrow> deliver_events rs st
                      | _ \<Rightarrow> say (Barf ''...'') (deliver_events [] st))"
  note ev = polled_event [OF inv, of p, folded st0_def]
  have ok0: "step_ok sfd st st0" using polled_ok(1) [OF inv, of p] by (simp add: st0_def)
  then have inv0: "server_inv sfd st0" by (simp add: step_ok_def)
  obtain event where e: "fds_at st0 0 = Some event" "revents event AND POLLIN \<noteq> 0 \<longleftrightarrow> polls_in p"
    using ev(3) by blast
  obtain rv st1 where h: "handle_server_event event st0 = Some (rv, st1)"
    using handle_server_event_ok [OF inv0, of event] by blast
  let ?st2 = "if rv = - 2 then say (Barf ''failed to add client to watch list'') st1
        else if rv = - 3 then say (Barf ''failed to add client to message queue watcher'') st1 else st1"
  have "(if rv = - 1 then Some (Break (say (Barf ''adios amigos, closing server connection'') st1))
      else round_clients ?st2) = Some (Continue st')"
    using run e(1) h unfolding poll_round_def st0_def [symmetric]
    by (cases p) (auto simp: Let_def split: if_splits simp flip: st0_def)
  then have rv: "rv \<noteq> - 1" and st': "round_clients ?st2 = Some (Continue st')" by (auto split: if_splits)
  have inv1: "server_inv sfd st1" using handle_server_event_ok [OF inv0, of event] h by (auto simp: server_step_def)
  have "if polls_in p then seats st0 st1 else shuts st0 st1 \<and> step_ok sfd st0 st1"
    using handle_server_event_seats [OF inv0 h rv] handle_server_event_quiet [OF inv0 h rv] e(2) by auto
  moreover have "shuts st1 ?st2" "step_ok sfd st1 ?st2"
    using shuts_refl say_shuts step_ok_refl [OF inv1] step_ok_say [OF inv1] by auto
  ultimately show ?thesis using ev(1,2) ok0 st' by blast
qed

text \<open>\<open>accept\<close> returns a descriptor that is not open at the time, for a connection on which nothing
  has been sent and whose writes take messages.\<close>

definition accept_honest :: "int set \<Rightarrow> server \<Rightarrow> bool" where
  "accept_honest opened st \<longleftrightarrow>
     (case accepts st of
        Some (fd, c) # rest \<Rightarrow> 0 \<le> fd \<and> fd \<notin> opened \<and> sink c = [] \<and> list_all takes_message (writes c)
      | _ \<Rightarrow> True)"

lemma accept_honest_fresh: "held opened st \<Longrightarrow> accept_honest opened st \<Longrightarrow> accept_fresh st"
  by (auto simp: accept_honest_def accept_fresh_def held_def registered_def split: list.splits option.splits)

text \<open>What is open after a round: also what \<open>accept\<close> has returned in it, but not what was closed.\<close>

definition open_after :: "int set \<Rightarrow> server \<Rightarrow> server \<Rightarrow> int set" where
  "open_after opened st st' =
     (opened \<union> accepted (take (length (accepts st) - length (accepts st')) (accepts st))) -
       set (drop (length (closed st)) (closed st'))"

lemma poll_round_held:
  assumes inv: "server_inv sfd st" and run: "poll_round p st = Some (Continue st')"
    and held: "held opened st" and honest: "polls_in p \<longrightarrow> accept_honest opened st"
  shows "held (open_after opened st st') st'"
proof -
  obtain st0 st1 st2 where r: "shuts st st0" "closed st0 = closed st"
    "if polls_in p then seats st0 st1 else shuts st0 st1 \<and> step_ok sfd st0 st1"
    "shuts st1 st2" "step_ok sfd st1 st2" "round_clients st2 = Some (Continue st')"
    using poll_round_parts [OF inv run] by blast
  have "server_inv sfd st2" using r(5) by (simp add: step_ok_def)
  then have last: "shuts st1 st'" using shuts_trans [OF r(4)] round_clients_shuts r(6) by blast
  have s0: "accepts st0 = accepts st" "held opened st0" using r(1,2) held by (auto simp: shuts_def)
  obtain new g1 where s1: "accepts st0 = new @ accepts st1" "closed st1 = closed st0 @ g1"
    "held (opened \<union> accepted new - set g1) st1"
  proof (cases "polls_in p")
    case True
    obtain new where n: "accepts st0 = new @ accepts st1" "length new \<le> 1" "closed st1 = closed st0"
      "\<forall>opened. held opened st0 \<and> (\<forall>fd \<in> accepted new. 0 \<le> fd \<and> fd \<notin> opened) \<longrightarrow>
         held (opened \<union> accepted new) st1"
      using r(3) True unfolding seats_def by auto
    have "\<forall>fd \<in> accepted new. 0 \<le> fd \<and> fd \<notin> opened"
      using honest True n(1,2) s0(1)
      by (cases new) (auto simp: accept_honest_def accepted_def split: option.splits)
    then show ?thesis using that [of new "[]"] n s0(2) by simp
  next
    case False
    then obtain g1 where "accepts st1 = accepts st0" "closed st1 = closed st0 @ g1" "held (opened - set g1) st1"
      using r(3) s0(2) unfolding shuts_def by auto
    then show ?thesis using that [of "[]" g1] by (simp add: accepted_def)
  qed
  obtain g2 where s2: "accepts st' = accepts st1" "closed st' = closed st1 @ g2"
    "held (opened \<union> accepted new - set g1 - set g2) st'"
    using last s1(3) unfolding shuts_def by blast
  have "accepts st = new @ accepts st'" "closed st' = closed st @ g1 @ g2"
    using s0(1) s1(1,2) s2(1,2) r(2) by simp_all
  then have "open_after opened st st' = opened \<union> accepted new - set g1 - set g2"
    by (auto simp: open_after_def)
  then show ?thesis using s2(3) by simp
qed

text \<open>A round without an \<open>accept\<close> needs no promise.\<close>

lemma quiet_round:
  assumes inv: "server_inv sfd st" and run: "poll_round p st = Some (Continue st')" and quiet: "\<not> polls_in p"
  shows "step_ok sfd st st'" and "delivered st \<longrightarrow> all_caught_up st'"
proof -
  obtain st0 st1 st2 where r: "step_ok sfd st st0" "step_ok sfd st0 st1" "step_ok sfd st1 st2"
    "round_clients st2 = Some (Continue st')"
    using poll_round_parts [OF inv run] quiet by auto
  have s2: "step_ok sfd st st2" by (rule step_ok_trans [OF step_ok_trans [OF r(1,2)] r(3)])
  then have "step_ok sfd st2 st' \<and> (delivered st2 \<longrightarrow> all_caught_up st')"
    using round_clients_ok [of sfd st2] r(4) by (auto simp: step_ok_def all_caught_up_def)
  then show "step_ok sfd st st'" "delivered st \<longrightarrow> all_caught_up st'"
    using step_ok_trans [OF s2] s2 by (auto simp: step_ok_def)
qed

section \<open>Runs in which no open descriptor is given out\<close>

text \<open>The promise on \<open>accept\<close> in every round that calls it; \<open>opened\<close> are the descriptors that are open
  before the round. A descriptor that has been closed may be given out again.\<close>

fun kernel_honest :: "int set \<Rightarrow> poll_result list \<Rightarrow> server \<Rightarrow> bool" where
  "kernel_honest opened [] st = True"
| "kernel_honest opened (p # ps) st =
     ((polls_in p \<longrightarrow> accept_honest opened st) \<and>
      (case poll_round p st of
         Some (Continue st') \<Rightarrow> kernel_honest (open_after opened st st') ps st'
       | _ \<Rightarrow> True))"

definition kernel_honest_from ::
    "int \<Rightarrow> os \<Rightarrow> MessageQueue.conns \<Rightarrow> (int \<times> os) option list \<Rightarrow> poll_result list \<Rightarrow> bool" where
  "kernel_honest_from server_fd h net acc polls =
     (case poll_server_start server_fd h net acc of
        Some (Inr (Inr st)) \<Rightarrow> kernel_honest {server_fd} polls st
      | _ \<Rightarrow> True)"

definition chat_state :: "int \<Rightarrow> int set \<Rightarrow> server \<Rightarrow> bool" where
  "chat_state server_fd opened st \<longleftrightarrow>
     server_inv server_fd st \<and> delivered st \<and> all_caught_up st \<and> held opened st"

lemma chat_round_state:
  assumes st: "chat_state sfd opened st" and run: "poll_round p st = Some (Continue st')"
    and honest: "polls_in p \<longrightarrow> accept_honest opened st"
  shows "chat_state sfd (open_after opened st st') st'"
proof -
  have s: "server_inv sfd st" "delivered st" "held opened st" using st by (simp_all add: chat_state_def)
  have "server_inv sfd st' \<and> delivered st' \<and> all_caught_up st'"
  proof (cases "polls_in p")
    case True
    then have "accept_fresh st" using accept_honest_fresh [OF s(3)] honest by simp
    then show ?thesis
      using poll_round_ok [OF s(1), of p] run s(2) by (auto simp: round_post_def server_step_def)
  next
    case False
    then show ?thesis using quiet_round [OF s(1) run] s(2) by (simp add: step_ok_def)
  qed
  then show ?thesis using poll_round_held [OF s(1) run s(3) honest] by (simp add: chat_state_def)
qed

lemma serve_state:
  "chat_state sfd opened st \<Longrightarrow> kernel_honest opened ps st \<Longrightarrow> serve ps st = Some (Continue st') \<Longrightarrow>
     \<exists>opened'. chat_state sfd opened' st'"
proof (induction ps arbitrary: opened st)
  case Nil
  then show ?case by auto
next
  case (Cons p ps)
  then show ?case
    by (auto split: bind_splits round.splits dest: chat_round_state)
qed

lemma start_state:
  assumes "poll_server_start sfd h net acc = Some (Inr (Inr st))" and "0 \<le> sfd"
  shows "chat_state sfd {sfd} st"
  using start_ok [of sfd h net acc] assms
  by (auto simp: chat_state_def held_def registered_def split: option.splits)

section \<open>Four rounds of a server\<close>

definition example_peer_os :: os where
  "example_peer_os = example_os\<lparr>pending := [104, 105]\<rparr>"

lemma fds_capacity_Suc: "\<exists>n. DEFAULT_FDS_CAPACITY = Suc (Suc n)"
  by (rule exI [of _ "DEFAULT_FDS_CAPACITY - 2"]) (simp add: DEFAULT_FDS_CAPACITY_def)

lemma clients_max_Suc: "\<exists>m. unat MAX_NUM_OF_CLIENTS = Suc (Suc m) \<and> unat (8 * MAX_NUM_OF_CLIENTS) div 8 = Suc (Suc m)"
  by (rule exI [of _ "unat MAX_NUM_OF_CLIENTS - 2"]) (simp add: MAX_NUM_OF_CLIENTS_def)

lemma chat_args: "chat_port [''chat'', ''4000''] = Inr 4000" "snd (utils_server_socket example_net) = Inr 3"
  by code_simp+

text \<open>The state after the first round, in which a peer has connected, and after the second, in which
  it has sent two bytes; \<open>n\<close> and \<open>m\<close> count the entries still free in the two arrays.\<close>

definition seated :: "nat \<Rightarrow> nat \<Rightarrow> (int \<times> os) option list \<Rightarrow> server" where
  "seated n m acc =
     \<lparr>fdstate = \<lparr>fds_capacity = Suc (Suc n), fds_length = 2,
        fds = \<lparr>pfd = 3, events = 8193, revents = 1\<rparr> # \<lparr>pfd = 7, events = 8193, revents = 0\<rparr> #
          replicate n \<lparr>pfd = 0, events = 0, revents = 0\<rparr>\<rparr>,
      mqueue = Some \<lparr>capacity = Suc (Suc m), messages = replicate (Suc (Suc m)) None, start_idx = MQ_EMPTY_SENTINEL,
        end_idx = 0, MessageQueue.clients = [\<lparr>client_fd = 7, roff = 0\<rparr>]\<rparr>,
      heap = example_os\<lparr>live := 5\<rparr>, conn = (\<lambda>_. example_os) (7 := example_peer_os), accepts = acc, closed = [], log = []\<rparr>"

lemmas poll_bits = POLLIN_def POLLOUT_def POLLERR_def POLLNVAL_def POLLHUP_def POLLRDHUP_def

lemma first_round:
  assumes n: "DEFAULT_FDS_CAPACITY = Suc (Suc n)"
    and m: "unat MAX_NUM_OF_CLIENTS = Suc (Suc m)" "unat (8 * MAX_NUM_OF_CLIENTS) div 8 = Suc (Suc m)"
  shows "\<exists>st. poll_server_start 3 example_os (\<lambda>_. example_os) (Some (7, example_peer_os) # acc) = Some (Inr (Inr st)) \<and>
    poll_round (PollReady [POLLIN]) st = Some (Continue (seated n m acc)) \<and>
    accepts st = Some (7, example_peer_os) # acc \<and> closed st = []"
proof -
  have z: "MAX_NUM_OF_CLIENTS \<noteq> 0" by (simp add: MAX_NUM_OF_CLIENTS_def)
  show ?thesis
    by (simp add: poll_server_start_def message_queue__init_def alloc_object_def example_os_def fds_state__init_def
     fd_state__watch_def mem_load_def mem_store_def n m z,
     simp add: poll_round_def deliver_events_def fds_at_def handle_server_event_def accept_client_def
      sys_accept_def poll_bits mem_load_def mem_store_def fd_state__watch_def alloc_object_def,
     simp add: round_clients_def client_loop.simps flush_clients.simps fds_at_def handle_client_event_def
       get_length_def seated_def example_os_def)
qed

definition hi :: sds where
  "hi = \<lparr>type_of_sds = SDS_TYPE_5, hdr_len = 2, hdr_alloc = 2, sds_buf = [104, 105, 0]\<rparr>"

lemma stored:
  "\<exists>h. sdsnewlen (InitBytes (readbuf [104, 105])) 2 (example_os\<lparr>live := 5\<rparr>) = Some (Some hi, h) \<and> mallocs h = []"
proof -
  have "(case sdsnewlen (InitBytes (readbuf [104, 105])) 2 (example_os\<lparr>live := 5\<rparr>) of
     Some (Some x, s) \<Rightarrow> x = hi \<and> mallocs s = [] | _ \<Rightarrow> False)" by code_simp
  then show ?thesis by (auto split: option.splits)
qed

definition told :: "nat \<Rightarrow> nat \<Rightarrow> (int \<times> os) option list \<Rightarrow> os \<Rightarrow> server" where
  "told n m acc h = (seated n m acc)\<lparr>
      fdstate := (fdstate (seated n m acc))\<lparr>fds :=
        \<lparr>pfd = 3, events = 8193, revents = 0\<rparr> # \<lparr>pfd = 7, events = 8193, revents = 1\<rparr> #
          replicate n \<lparr>pfd = 0, events = 0, revents = 0\<rparr>\<rparr>,
      mqueue := Some \<lparr>capacity = Suc (Suc m), messages = Some hi # replicate (Suc m) None, start_idx = 0,
        end_idx = 1, MessageQueue.clients = [\<lparr>client_fd = 7, roff = 1\<rparr>]\<rparr>,
      heap := h, conn := (conn (seated n m acc)) (7 := example_peer_os\<lparr>pending := [], sink := [104, 105]\<rparr>)\<rparr>"

lemma second_round:
  "\<exists>h. poll_round (PollReady [0, POLLIN]) (seated n m acc) = Some (Continue (told n m acc h)) \<and> mallocs h = []"
proof -
  obtain h where h: "sdsnewlen (InitBytes (readbuf [104, 105])) 2 (example_os\<lparr>live := 5\<rparr>) = Some (Some hi, h)"
    "mallocs h = []"
    using stored by blast
  have "poll_round (PollReady [0, POLLIN]) (seated n m acc) = Some (Continue (told n m acc h))"
    by (simp add: poll_round_def deliver_events_def fds_at_def handle_server_event_def seated_def poll_bits,
     simp add: round_clients_def client_loop.simps flush_clients.simps fds_at_def handle_client_event_def
       get_length_def poll_bits sys_read_def example_peer_os_def example_os_def deliver_def
       MAX_MESSAGE_LENGTH_def enqueue_def MQ_EMPTY_SENTINEL_def,
     simp add: h(1) [unfolded example_os_def, simplified] set_slot_def after_q_def mq_codes,
     simp add: round_clients_def client_loop.simps flush_clients.simps fds_at_def handle_client_event_def
       get_length_def flush_loop.simps slot_def hi_def sdslen_def mem_load_def MQ_EMPTY_SENTINEL_def
       sds_content_def poll_bits sys_write_def,
     simp add: told_def seated_def hi_def example_peer_os_def example_os_def)
  then show ?thesis using h(2) by blast
qed

text \<open>The peer leaves, and its descriptor is closed. The entry behind the end of the watch list
  keeps what it held.\<close>

definition parted :: "nat \<Rightarrow> nat \<Rightarrow> (int \<times> os) option list \<Rightarrow> os \<Rightarrow> server" where
  "parted n m acc h = (told n m acc h)\<lparr>
      fdstate := (fdstate (told n m acc h))\<lparr>fds_length := 1\<rparr>,
      mqueue := map_option (\<lambda>mq. mq\<lparr>MessageQueue.clients := []\<rparr>) (mqueue (told n m acc h)),
      heap := c_free (Some ()) h, closed := [7]\<rparr>"

lemma third_round:
  "poll_round (PollReady [0, POLLIN]) (told n m acc h) = Some (Continue (parted n m acc h))"
  by (simp add: poll_round_def deliver_events_def fds_at_def handle_server_event_def told_def seated_def poll_bits,
   simp add: round_clients_def client_loop.simps flush_clients.simps fds_at_def handle_client_event_def
     poll_bits sys_read_def example_peer_os_def example_os_def deliver_def MAX_MESSAGE_LENGTH_def,
   simp add: drop_client_def fd_state__unwatch_def mem_load_def mem_store_def client_loop.simps flush_clients.simps,
   simp add: parted_def told_def seated_def example_peer_os_def example_os_def)

text \<open>Another peer gets the same descriptor, and what was said before.\<close>

definition seated_again :: "nat \<Rightarrow> nat \<Rightarrow> os \<Rightarrow> server" where
  "seated_again n m h = (parted n m [] h)\<lparr>
      fdstate := (fdstate (seated n m [])),
      mqueue := mqueue (told n m [] h), heap := h, conn := (\<lambda>_. example_os) (7 := example_os\<lparr>sink := [104, 105]\<rparr>)\<rparr>"

lemma fourth_round:
  assumes "mallocs h = []"
  shows "poll_round (PollReady [POLLIN]) (parted n m [Some (7, example_os)] h) = Some (Continue (seated_again n m h))"
  using assms
  by (simp add: poll_round_def deliver_events_def fds_at_def handle_server_event_def accept_client_def
      sys_accept_def parted_def told_def seated_def poll_bits mem_load_def mem_store_def fd_state__watch_def
      alloc_object_def c_free_def MQ_EMPTY_SENTINEL_def,
    simp add: round_clients_def client_loop.simps flush_clients.simps fds_at_def handle_client_event_def,
    simp add: get_length_def flush_loop.simps slot_def hi_def sdslen_def mem_load_def MQ_EMPTY_SENTINEL_def
      sds_content_def example_os_def sys_write_def,
    simp add: seated_again_def parted_def told_def seated_def hi_def example_os_def)

lemma told_facts:
  "mqueue (told n m acc h) = Some \<lparr>capacity = Suc (Suc m), messages = Some hi # replicate (Suc m) None, start_idx = 0,
        end_idx = 1, MessageQueue.clients = [\<lparr>client_fd = 7, roff = 1\<rparr>]\<rparr>"
  by (simp add: told_def)

section \<open>Properties\<close>

definition greeting :: "int \<Rightarrow> byte list" where
  "greeting portno = bytes_of (''Chat server started on port '' @ decimal (nat portno) @ [CHR 0x0A])"

text \<open>
  C8. The whole server, for every argument, resolver, kernel and heap, has a defined result. When
  its argument or the socket is refused it ends with status 1, a message, nothing on standard
  output and nothing to close; otherwise it greets, and then it either still serves, in a
  state in which the invariant holds, or it has ended: with status 0 and the socket closed, or
  with status 1, which happens only for want of memory at its start.
\<close>

theorem chat_main_total:
  "case (chat_port argv, snd (utils_server_socket n)) of
     (Inl ds, _) \<Rightarrow> ds \<noteq> [] \<and>
       chat_main argv n h net acc polls = Some (ChatEnded \<lparr>out = [], diags = ds, status = 1\<rparr> [])
   | (Inr portno, Inl ds) \<Rightarrow> ds \<noteq> [] \<and>
       chat_main argv n h net acc polls = Some (ChatEnded \<lparr>out = [], diags = ds, status = 1\<rparr> [])
   | (Inr portno, Inr server_fd) \<Rightarrow> 0 < server_fd \<and>
       (\<exists>r. chat_main argv n h net acc polls = Some r \<and>
          (case r of
             ChatServing text st \<Rightarrow> text = greeting portno \<and> server_inv server_fd st
           | ChatEnded run shut \<Rightarrow> out run = greeting portno \<and>
               (status run = 0 \<and> shut = [server_fd] \<or>
                status run = 1 \<and> shut = [] \<and> \<not> mallocs_ok h)))"
proof (cases "chat_port argv")
  case (Inl ds)
  then show ?thesis
    by (auto simp: chat_main_def chat_port_def Let_def split: if_splits prod.splits)
next
  case port: (Inr portno)
  show ?thesis
  proof (cases "snd (utils_server_socket n)")
    case (Inl ds)
    moreover from Inl have "ds \<noteq> []"
      by (auto simp: utils_server_socket_def Let_def split: if_splits prod.splits)
    ultimately show ?thesis using port by (simp add: chat_main_def)
  next
    case (Inr fd)
    have pos: "0 < fd"
      using Inr first_socket_positive [of "sockets n" "- 1" fd]
      by (auto simp: utils_server_socket_def Let_def split: if_splits prod.splits)
    obtain r where r: "poll_server_start fd h net acc = Some r"
      "case r of Inl d \<Rightarrow> \<not> mallocs_ok h | Inr (Inl rv) \<Rightarrow> False | Inr (Inr st) \<Rightarrow> server_inv fd st"
      using start_ok [of fd h net acc] by (force split: sum.splits)
    show ?thesis
    proof (cases "\<exists>st. r = Inr (Inr st)")
      case False
      then obtain d where "r = Inl d" "\<not> mallocs_ok h" using r(2) by (auto split: sum.splits)
      then show ?thesis
        using port Inr r(1) pos by (simp add: chat_main_def poll_server_impl_def greeting_def Let_def)
    next
      case True
      then obtain st where st: "r = Inr (Inr st)" "server_inv fd st" using r(2) by auto
      obtain q where "serve polls st = Some q"
        "case q of Continue st' \<Rightarrow> server_inv fd st' | Break st' \<Rightarrow> True | ProcessExit d \<Rightarrow> False"
        using serve_ok [OF st(2), of polls] by (force split: round.splits)
      then show ?thesis
        using port Inr r(1) st(1) pos
        by (cases q) (simp_all add: chat_main_def poll_server_impl_def poll_server_end_def greeting_def Let_def)
    qed
  qed
qed

text \<open>
  C5. From \<open>main\<close> to the peers: when \<open>accept\<close> never returns a descriptor that is open at the time
  (one that was closed may come again), nothing has been sent on a new connection and writes take
  whole messages, then in every state in which the server waits for events, whatever has
  happened before, each registered peer has received a prefix of the sequence of all messages
  since the start as long as the ring has not filled up, and a watched one the whole sequence.
\<close>

theorem chat_end_to_end:
  assumes "snd (utils_server_socket n) = Inr server_fd" and "kernel_honest_from server_fd h net acc polls"
    and "chat_main argv n h net acc polls = Some (ChatServing text st)"
    and "mqueue st = Some mq" and "get_length mq < capacity mq"
    and "c \<in> set (MessageQueue.clients mq)" and "0 \<le> client_fd c"
  shows "(\<exists>k. sink (conn st (client_fd c)) = concat (take k (mq_items mq))) \<and>
    (client_fd c \<in> set (tl (watched (fdstate st))) \<longrightarrow>
       sink (conn st (client_fd c)) = concat (mq_items mq))"
proof -
  obtain st0 where st0: "poll_server_start server_fd h net acc = Some (Inr (Inr st0))"
    "serve polls st0 = Some (Continue st)"
    using assms(1,3) unfolding chat_main_def poll_server_impl_def
    by (auto simp: Let_def split: sum.splits bind_splits progress.splits round.splits prod.splits)
  have "0 < server_fd"
    using assms(1) first_socket_positive [of "sockets n" "- 1" server_fd]
    by (auto simp: utils_server_socket_def Let_def split: if_splits prod.splits)
  then have "chat_state server_fd {server_fd} st0" using start_state [OF st0(1)] by simp
  moreover have "kernel_honest {server_fd} polls st0" using assms(2) st0(1) by (simp add: kernel_honest_from_def)
  ultimately obtain opened where st: "chat_state server_fd opened st" using serve_state st0(2) by blast
  then have co: "client_ok (conn st) mq c" and wf: "mq_wf mq"
    using assms(4-6) by (simp_all add: chat_state_def delivered_def server_inv_def ring_inv_def mq_inv_def)
  have "roff c = int (get_length mq)" if "client_fd c \<in> set (tl (watched (fdstate st)))"
    using st that assms(4-7) by (simp add: chat_state_def all_caught_up_def caught_up_def)
  then show ?thesis using co assms(7) items_length [OF wf] by (auto simp: client_ok_def)
qed

text \<open>A run in which descriptor 7 is given out, closed and given out again: the second peer on it
  receives what the first had said.\<close>

lemma chat_end_to_end_witness:
  "\<exists>st. chat_main [''chat'', ''4000''] example_net example_os (\<lambda>_. example_os)
         [Some (7, example_peer_os), Some (7, example_os)]
         [PollReady [POLLIN], PollReady [0, POLLIN], PollReady [0, POLLIN], PollReady [POLLIN]] =
           Some (ChatServing (greeting 4000) st) \<and>
      closed st = [7] \<and> watched (fdstate st) = [3, 7] \<and> map_option mq_items (mqueue st) = Some [[104, 105]] \<and>
      sink (conn st 7) = [104, 105]"
proof -
  let ?acc = "[Some (7, example_peer_os), Some (7, example_os)]"
  let ?polls = "[PollReady [POLLIN], PollReady [0, POLLIN], PollReady [0, POLLIN], PollReady [POLLIN]]"
  obtain n where n: "DEFAULT_FDS_CAPACITY = Suc (Suc n)" using fds_capacity_Suc by blast
  obtain m where m: "unat MAX_NUM_OF_CLIENTS = Suc (Suc m)" "unat (8 * MAX_NUM_OF_CLIENTS) div 8 = Suc (Suc m)"
    using clients_max_Suc by blast
  let ?seated = "seated n m [Some (7, example_os)]"
  obtain st0 where st0: "poll_server_start 3 example_os (\<lambda>_. example_os) ?acc = Some (Inr (Inr st0))"
      "poll_round (PollReady [POLLIN]) st0 = Some (Continue ?seated)" "accepts st0 = ?acc" "closed st0 = []"
    using first_round [OF n m] by blast
  obtain h where h: "poll_round (PollReady [0, POLLIN]) ?seated = Some (Continue (told n m [Some (7, example_os)] h))"
    "mallocs h = []"
    using second_round by blast
  let ?st = "seated_again n m h"
  let ?mq = "the (mqueue ?st)"
  note rounds = st0(1,2) h(1) third_round fourth_round [OF h(2)]
  have run: "chat_main [''chat'', ''4000''] example_net example_os (\<lambda>_. example_os) ?acc ?polls =
      Some (ChatServing (greeting 4000) ?st)"
    by (simp add: chat_main_def chat_args poll_server_impl_def rounds greeting_def Let_def)
  have opened: "open_after {3} st0 ?seated = {3, 7}"
    "open_after {3, 7} ?seated (told n m [Some (7, example_os)] h) = {3, 7}"
    "open_after {3, 7} (told n m [Some (7, example_os)] h) (parted n m [Some (7, example_os)] h) = {3}"
    using st0(3,4) by (auto simp: open_after_def accepted_def seated_def told_def parted_def)
  have fresh: "accept_honest {3} st0" "accept_honest {3} (parted n m [Some (7, example_os)] h)"
    using st0(3) by (simp_all add: accept_honest_def parted_def told_def seated_def example_peer_os_def example_os_def)
  have honest: "kernel_honest_from 3 example_os (\<lambda>_. example_os) ?acc ?polls"
    by (simp add: kernel_honest_from_def polls_in_def rounds opened fresh)
  have q: "mqueue ?st = Some ?mq" "get_length ?mq < capacity ?mq" "\<lparr>client_fd = 7, roff = 1\<rparr> \<in> set (MessageQueue.clients ?mq)"
    "mq_items ?mq = [[104, 105]]" "watched (fdstate ?st) = [3, 7]" "closed ?st = [7]"
    by (simp_all add: seated_again_def parted_def told_facts seated_def watched_def get_length_def MQ_EMPTY_SENTINEL_def mq_items_def
        mq_strs_def slot_def sds_content_def hi_def sdslen_def)
  have "sink (conn ?st 7) = concat [[104, 105]]"
    using chat_end_to_end [OF chat_args(2) honest run q(1-3)] by (simp add: q(4,5))
  then show ?thesis using run q by (auto simp del: q)
qed

end
