(* ===== verification/BufferTests.thy ===== *)
theory BufferTests
  imports Grep
begin

text \<open>
  The test programs of the two buffer libraries, run on the model:
  \<open>commons/src/readbuffer/tests/test_readbuffer.c\<close> and
  \<open>commons/src/linestream/tests/test_linestream.c\<close>. A failed \<open>assert\<close> ends the program and is
  the value \<open>None\<close>. The first program is shown to pass exactly when the heap grants its
  fourteen requests; the second prints its file, with a newline at the end.
\<close>

section \<open>The read buffer program\<close>

definition assert_that :: "bool \<Rightarrow> unit option" where
  "assert_that b = (if b then Some () else None)"

definition assert_ok :: "ReadBufferResult \<Rightarrow> unit option" where
  "assert_ok result = assert_that (ok result)"

text \<open>\<open>memcmp(view.cursor, bytes, n) == 0\<close>, and \<open>memcpy\<close> to the write cursor, which is
  \<open>rb_store\<close>.\<close>

definition view_is :: "ReadBuffer option \<Rightarrow> RbString \<Rightarrow> byte list \<Rightarrow> bool option" where
  "view_is rb view bs =
     do { b \<leftarrow> rb; p \<leftarrow> cursor view; c \<leftarrow> mem_load (rb_block b) p (length bs); Some (c = bs) }"

definition test_initial_state :: "os \<Rightarrow> os option" where
  "test_initial_state h =
     do {
       let (rb, h) = readbuffer__init 4 h;
       _ \<leftarrow> assert_that (rb \<noteq> None);
       _ \<leftarrow> assert_that (readbuffer__capacity rb = 4);
       _ \<leftarrow> assert_that (readbuffer__get_write_cursor_limit rb = 4);
       let view = readbuffer__get_read_view rb;
       _ \<leftarrow> assert_that (size view = 0);
       _ \<leftarrow> assert_that (cursor view \<noteq> None);
       Some (readbuffer__destroy rb h)
     }"

definition test_write_and_read_view :: "os \<Rightarrow> os option" where
  "test_write_and_read_view h =
     do {
       let (rb, h) = readbuffer__init 8 h;
       _ \<leftarrow> assert_that (rb \<noteq> None);
       rb \<leftarrow> rb_store rb (bytes_of ''hello'');
       let (result, rb) = readbuffer__commit_write rb 5;
       _ \<leftarrow> assert_ok result;
       let view = readbuffer__get_read_view rb;
       _ \<leftarrow> assert_that (size view = 5);
       same \<leftarrow> view_is rb view (bytes_of ''hello'');
       _ \<leftarrow> assert_that same;
       _ \<leftarrow> assert_that (readbuffer__get_write_cursor_limit rb = 3);
       Some (readbuffer__destroy rb h)
     }"

definition test_compaction :: "os \<Rightarrow> os option" where
  "test_compaction h =
     do {
       let (rb, h) = readbuffer__init 8 h;
       _ \<leftarrow> assert_that (rb \<noteq> None);
       rb \<leftarrow> rb_store rb (bytes_of ''abcdef'');
       let (result, rb) = readbuffer__commit_write rb 6;
       _ \<leftarrow> assert_ok result;
       let (result, rb) = readbuffer__consume rb 4;
       _ \<leftarrow> assert_ok result;
       _ \<leftarrow> assert_that (readbuffer__get_write_cursor_limit rb = 2);
       (result, rb, h) \<leftarrow> readbuffer__assure rb 5 h;
       _ \<leftarrow> assert_ok result;
       _ \<leftarrow> assert_that (readbuffer__capacity rb = 8);
       _ \<leftarrow> assert_that (readbuffer__get_write_cursor_limit rb = 6);
       let view = readbuffer__get_read_view rb;
       _ \<leftarrow> assert_that (size view = 2);
       same \<leftarrow> view_is rb view (bytes_of ''ef'');
       _ \<leftarrow> assert_that same;
       rb \<leftarrow> rb_store rb (bytes_of ''ghijk'');
       let (result, rb) = readbuffer__commit_write rb 5;
       _ \<leftarrow> assert_ok result;
       let view = readbuffer__get_read_view rb;
       _ \<leftarrow> assert_that (size view = 7);
       same \<leftarrow> view_is rb view (bytes_of ''efghijk'');
       _ \<leftarrow> assert_that same;
       Some (readbuffer__destroy rb h)
     }"

definition test_power_of_two_growth :: "os \<Rightarrow> os option" where
  "test_power_of_two_growth h =
     do {
       let (rb, h) = readbuffer__init 4 h;
       _ \<leftarrow> assert_that (rb \<noteq> None);
       (result, rb, h) \<leftarrow> readbuffer__assure rb 90 h;
       _ \<leftarrow> assert_ok result;
       _ \<leftarrow> assert_that (readbuffer__capacity rb = 128);
       _ \<leftarrow> assert_that (readbuffer__get_write_cursor_limit rb = 128);
       Some (readbuffer__destroy rb h)
     }"

definition test_growth_preserves_data :: "os \<Rightarrow> os option" where
  "test_growth_preserves_data h =
     do {
       let (rb, h) = readbuffer__init 4 h;
       _ \<leftarrow> assert_that (rb \<noteq> None);
       rb \<leftarrow> rb_store rb (bytes_of ''abcd'');
       let (result, rb) = readbuffer__commit_write rb 4;
       _ \<leftarrow> assert_ok result;
       let (result, rb) = readbuffer__consume rb 1;
       _ \<leftarrow> assert_ok result;
       (result, rb, h) \<leftarrow> readbuffer__assure rb 6 h;
       _ \<leftarrow> assert_ok result;
       _ \<leftarrow> assert_that (readbuffer__capacity rb = 16);
       let view = readbuffer__get_read_view rb;
       _ \<leftarrow> assert_that (size view = 3);
       same \<leftarrow> view_is rb view (bytes_of ''bcd'');
       _ \<leftarrow> assert_that same;
       _ \<leftarrow> assert_that (readbuffer__get_write_cursor_limit rb \<ge> 6);
       Some (readbuffer__destroy rb h)
     }"

definition test_zero_capacity_and_bounds :: "os \<Rightarrow> os option" where
  "test_zero_capacity_and_bounds h =
     do {
       let (rb, h) = readbuffer__init 0 h;
       _ \<leftarrow> assert_that (rb \<noteq> None);
       _ \<leftarrow> assert_that (readbuffer__get_write_cursor rb = None);
       (result, rb, h) \<leftarrow> readbuffer__assure rb 1 h;
       _ \<leftarrow> assert_ok result;
       _ \<leftarrow> assert_that (readbuffer__capacity rb = 1);
       let (result, rb) = readbuffer__commit_write rb 2;
       _ \<leftarrow> assert_that (\<not> ok result);
       _ \<leftarrow> assert_that (error_code result = READBUFFER_ERROR_OUT_OF_RANGE);
       let (result, rb) = readbuffer__consume rb 1;
       _ \<leftarrow> assert_that (\<not> ok result);
       _ \<leftarrow> assert_that (error_code result = READBUFFER_ERROR_OUT_OF_RANGE);
       (result, rb, h) \<leftarrow> readbuffer__assure rb SIZE_MAX h;
       _ \<leftarrow> assert_that (\<not> ok result);
       _ \<leftarrow> assert_that (error_code result = READBUFFER_ERROR_OVERFLOW);
       Some (readbuffer__destroy rb h)
     }"

definition readbuffer_tests_main :: "os \<Rightarrow> (run \<times> os) option" where
  "readbuffer_tests_main h =
     do {
       h \<leftarrow> test_initial_state h;
       h \<leftarrow> test_write_and_read_view h;
       h \<leftarrow> test_compaction h;
       h \<leftarrow> test_power_of_two_growth h;
       h \<leftarrow> test_growth_preserves_data h;
       h \<leftarrow> test_zero_capacity_and_bounds h;
       Some (\<lparr>out = bytes_of ''readbuffer tests passed'' @ [NL], diags = [], status = 0\<rparr>, h)
     }"

section \<open>What the heap must grant\<close>

text \<open>The next \<open>n\<close> allocations succeed, and the heap after they have been asked for.\<close>

definition granted :: "nat \<Rightarrow> os \<Rightarrow> bool" where
  "granted n h \<longleftrightarrow> list_all (\<lambda>c. c) (take n (mallocs h))"

definition drawn :: "nat \<Rightarrow> os \<Rightarrow> os" where
  "drawn n h = h\<lparr>mallocs := drop n (mallocs h)\<rparr>"

lemma granted_add: "granted (m + n) h \<longleftrightarrow> granted m h \<and> granted n (drawn m h)"
  by (simp add: granted_def drawn_def take_add)

lemma drawn_drawn: "drawn n (drawn m h) = drawn (m + n) h"
  by (simp add: drawn_def add.commute)

lemma drawn_frame [simp]:
  "live (drawn n h) = live h" "junk (drawn n h) = junk h"
  "granted n (h\<lparr>live := l\<rparr>) = granted n h" "drawn n (h\<lparr>live := l\<rparr>) = (drawn n h)\<lparr>live := l\<rparr>"
  by (simp_all add: drawn_def granted_def)

lemma live_self [simp]: "(h :: os)\<lparr>live := live h\<rparr> = h" "(drawn n h)\<lparr>live := live h\<rparr> = drawn n h"
  by (simp_all add: drawn_def)

lemma alloc_object_granted:
  "alloc_object h =
     (granted 1 h, (drawn 1 h)\<lparr>live := if granted 1 h then live h + 1 else live h\<rparr>)"
  by (cases h; cases "mallocs h")
    (auto simp: alloc_object_def granted_def drawn_def split: list.splits)

lemma malloc_granted:
  "granted 1 h \<Longrightarrow>
     malloc n h = (Some (map (junk h) [0..<unat n]), (drawn 1 h)\<lparr>live := live h + 1\<rparr>)"
  "\<not> granted 1 h \<Longrightarrow> malloc n h = (None, drawn 1 h)"
  by (simp_all add: malloc_def alloc_object_granted)


lemma granted_two: "granted 2 h \<longleftrightarrow> granted 1 h \<and> granted 1 (drawn 1 h)"
  and granted_three: "granted 3 h \<longleftrightarrow> granted 2 h \<and> granted 1 (drawn 2 h)"
  using granted_add [of 1 1 h] granted_add [of 2 1 h] by (simp_all add: numeral_2_eq_2 numeral_3_eq_3)

definition fresh_buffer :: "size_t \<Rightarrow> os \<Rightarrow> ReadBuffer" where
  "fresh_buffer n h =
     \<lparr>rb_data = Some (map (junk h) [0..<unat n]), rb_capacity = n, rb_length = 0, rb_offset = 0\<rparr>"

lemma init_granted:
  assumes "n \<noteq> 0"
  shows "granted 2 h \<Longrightarrow>
      readbuffer__init n h = (Some (fresh_buffer n h), (drawn 2 h)\<lparr>live := live h + 2\<rparr>)"
    and "\<not> granted 2 h \<Longrightarrow> \<exists>h'. readbuffer__init n h = (None, h')"
  using assms
  by (auto simp: readbuffer__init_def alloc_object_granted granted_two malloc_granted fresh_buffer_def
      drawn_drawn simp del: One_nat_def)

lemma pow2_step:
  "c < v \<Longrightarrow> c \<le> 9223372036854775807 \<Longrightarrow> pow2_loop v c = pow2_loop v (c * 2)"
  by (rule pow2_loop_next) (simp_all add: size_le half_SIZE_MAX)

lemmas pow2_eval = next_power_of_two_def pow2_step pow2_loop_stop

lemma powers_found:
  "next_power_of_two 90 = Some (Some 128)" "next_power_of_two 9 = Some (Some 16)"
  "next_power_of_two 1 = Some (Some 1)"
  by (simp_all add: pow2_eval)

lemma SIZE_MAX_value: "SIZE_MAX = 18446744073709551615"
  by (simp add: word_unat_eq_iff unat_SIZE_MAX)

lemma no_power: "next_power_of_two 18446744073709551615 = Some None"
  using next_power_of_two_too_big [of SIZE_MAX] by (simp add: SIZE_MAX_value)

lemma above_one: "\<not> 6 \<le> (1 :: size_t)" "\<not> 18446744073709551615 \<le> (1 :: size_t)"
  by (simp_all add: size_le)

lemma drop_one: "drop 1 (x # xs) = xs"
  by simp

lemmas run_simps = assert_that_def assert_ok_def view_is_def rb_store_def rb_block_def mem_load_def
  mem_store_def mem_move_def READBUFFER_SUCCESS_def READBUFFER_FAILURE_def fresh_buffer_def
  bytes_of_def c_free_def Let_def
  SIZE_MAX_value drop_one above_one

lemma test_initial_state_result:
  "test_initial_state h = (if granted 2 h then Some (drawn 2 h) else None)"
  using init_granted [of 4 h] by (cases "granted 2 h") (auto simp: test_initial_state_def run_simps)

lemma test_write_result:
  "test_write_and_read_view h = (if granted 2 h then Some (drawn 2 h) else None)"
  using init_granted [of 8 h] by (cases "granted 2 h") (auto simp: test_write_and_read_view_def run_simps)

lemma test_compaction_result:
  "test_compaction h = (if granted 2 h then Some (drawn 2 h) else None)"
  using init_granted [of 8 h]
  by (cases "granted 2 h") (auto simp: test_compaction_def run_simps readbuffer__assure.simps)

lemma test_growth_result:
  "test_power_of_two_growth h = (if granted 3 h then Some (drawn 3 h) else None)"
  using init_granted [of 4 h]
  by (cases "granted 2 h"; cases "granted 1 (drawn 2 h)")
    (auto simp: test_power_of_two_growth_def run_simps readbuffer__assure.simps powers_found
      granted_three malloc_granted drawn_drawn simp del: One_nat_def)

lemma test_growth_data_result:
  "test_growth_preserves_data h = (if granted 3 h then Some (drawn 3 h) else None)"
  using init_granted [of 4 h]
  by (cases "granted 2 h"; cases "granted 1 (drawn 2 h)")
    (auto simp: test_growth_preserves_data_def run_simps readbuffer__assure.simps powers_found
      granted_three malloc_granted drawn_drawn simp del: One_nat_def)

lemma test_zero_result:
  "test_zero_capacity_and_bounds h = (if granted 2 h then Some (drawn 2 h) else None)"
  by (cases "granted 1 h"; cases "granted 1 (drawn 1 h)")
    (auto simp: test_zero_capacity_and_bounds_def run_simps readbuffer__assure.simps powers_found
      granted_two malloc_granted drawn_drawn readbuffer__init_def alloc_object_granted no_power
      simp del: One_nat_def)

text \<open>
  C17. The read buffer's test program passes exactly when the heap grants each of its fourteen
  requests: then no assertion fails and no step is undefined, it prints its message, ends with
  status 0 and has given everything back. Otherwise an assertion stops it.
\<close>

theorem readbuffer_tests_pass:
  "readbuffer_tests_main h =
     (if granted 14 h
      then Some (\<lparr>out = bytes_of ''readbuffer tests passed'' @ [NL], diags = [], status = 0\<rparr>, drawn 14 h)
      else None)"
proof -
  have "granted 14 h \<longleftrightarrow> granted 2 h \<and> granted 2 (drawn 2 h) \<and> granted 2 (drawn 4 h) \<and>
      granted 3 (drawn 6 h) \<and> granted 3 (drawn 9 h) \<and> granted 2 (drawn 12 h)"
    using granted_add [of 2 12 h] granted_add [of 2 10 "drawn 2 h"] granted_add [of 2 8 "drawn 4 h"]
      granted_add [of 3 5 "drawn 6 h"] granted_add [of 3 2 "drawn 9 h"]
    by (simp add: drawn_drawn)
  then show ?thesis
    by (simp add: readbuffer_tests_main_def test_initial_state_result test_write_result
        test_compaction_result test_growth_result test_growth_data_result test_zero_result drawn_drawn)
qed

section \<open>The line stream program\<close>

text \<open>The loop that writes each line and a newline; nobody looks at what \<open>write\<close> returns.\<close>

partial_function (option) happy_lines ::
    "LineStream option \<Rightarrow> os \<Rightarrow> (LSError \<times> LineStream option \<times> os) option" where
  "happy_lines p s =
     do {
       (rs, p1, s1) \<leftarrow> linestream__next p s;
       (case rs of
          StrErr e \<Rightarrow> Some (e, p1, s1)
        | StrOk str \<Rightarrow>
            do {
              ls1 \<leftarrow> p1;
              line \<leftarrow> ls_bytes ls1 str;
              let s2 = snd (sys_write line s1);
              let s3 = snd (sys_write [NL] s2);
              happy_lines p1 s3
            })
     }"

definition happy_diags :: "(errno \<Rightarrow> string) \<Rightarrow> LSError \<Rightarrow> diag list option" where
  "happy_diags strerror e =
     (if ls_code e \<noteq> LS_ERR_EOF then
        do {
          m \<leftarrow> message_text strerror (ls_message e);
          Some [Barf (''SOMETHING WENT WRONG WHILE READING.. DEETS below'' @ [CHR 0x0A]),
                Barf (''code = '' @ decimal (code_number (ls_code e)) @ '', message = '' @ m)]
        }
      else Some [])"

text \<open>\<open>open_file\<close> is \<open>open(2)\<close> for reading.\<close>

definition test_happy_path ::
    "(errno \<Rightarrow> string) \<Rightarrow> (byte list \<Rightarrow> int) \<Rightarrow> size_t \<Rightarrow> byte list \<Rightarrow> os \<Rightarrow> (diag list \<times> os) option"
  where
  "test_happy_path strerror open_file page_size filepath s =
     do {
       let fd = open_file filepath;
       _ \<leftarrow> assert_that (fd > 0);
       (case linestream__create fd page_size s of
          (StreamErr e, s1) \<Rightarrow> None
        | (StreamOk ls, s1) \<Rightarrow>
            do {
              (e, p, s2) \<leftarrow> happy_lines (Some ls) s1;
              ds \<leftarrow> happy_diags strerror e;
              Some (ds, linestream__destroy p s2)
            })
     }"

definition linestream_test_main ::
    "(errno \<Rightarrow> string) \<Rightarrow> (byte list \<Rightarrow> int) \<Rightarrow> size_t \<Rightarrow> byte list list \<Rightarrow> os \<Rightarrow>
       (diag list \<times> int \<times> os) option" where
  "linestream_test_main strerror open_file page_size argv s =
     do {
       _ \<leftarrow> assert_that (length argv > 1);
       (ds, s1) \<leftarrow> test_happy_path strerror open_file page_size (argv ! 1) s;
       Some (ds, 0, s1)
     }"

lemma write_whole: "writes s = [] \<Longrightarrow> snd (sys_write bs s) = s\<lparr>sink := sink s @ bs\<rparr>"
  by (simp add: sys_write_def)

lemma sink_frame [simp]:
  "ls_content ls (s\<lparr>sink := x\<rparr>) = ls_content ls s" "mallocs_ok (s\<lparr>sink := x\<rparr>) = mallocs_ok s"
  "reads_ok (s\<lparr>sink := x\<rparr>) = reads_ok s"
  by (simp_all add: ls_content_def mallocs_ok_def reads_ok_def)

lemma create_output:
  "linestream__create fd pg s = (r, s') \<Longrightarrow> sink s' = sink s \<and> writes s' = writes s"
  by (auto simp: linestream__create_def readbuffer__init_def split: prod.splits bool.splits option.splits if_splits
      dest!: alloc_object_frame malloc_frame)

lemma destroy_frame:
  "pending (linestream__destroy p s) = pending s" "sink (linestream__destroy p s) = sink s"
proof -
  have "pending (readbuffer__destroy b t) = pending t \<and> sink (readbuffer__destroy b t) = sink t" for b t
    by (cases b) simp_all
  then show "pending (linestream__destroy p s) = pending s" "sink (linestream__destroy p s) = sink s"
    by (cases p; simp)+
qed

lemma happy_lines_outcome:
  assumes "ls_inv ls" and "ls_no_faults ls s" and "writes s = []"
  shows "\<exists>e ls' s'. happy_lines (Some ls) s = Some (e, Some ls', s') \<and> ls_code e = LS_ERR_EOF \<and>
    ls_content ls' s' = [] \<and> live s' - ls_owned ls' = live s - ls_owned ls \<and>
    sink s' = sink s @ concat (map (\<lambda>l. l @ [NL]) (lines_of (ls_content ls s)))"
  using assms
proof (induction "length (ls_content ls s)" arbitrary: ls s rule: less_induct)
  case less
  obtain r ls1 s1 where n: "linestream__next (Some ls) s = Some (r, Some ls1, s1)" "ls_inv ls1"
    "ls_next_post (ls_content ls s) r ls1 s1" "live s1 - ls_owned ls1 = live s - ls_owned ls"
    "sink s1 = sink s" "writes s1 = []" "mallocs_ok s1" "reads_ok s1"
    "\<forall>e. r = StrErr e \<longrightarrow> ls_code e = LS_ERR_EOF"
    using next_outcome [OF less.prems(1), of s] less.prems(2,3) by (auto simp: ls_no_faults_def)
  show ?case
  proof (cases r)
    case (StrErr e)
    with n show ?thesis by (auto simp: happy_lines.simps [of "Some ls" s] ls_next_post_def)
  next
    case (StrOk str)
    let ?c = "ls_content ls s"
    let ?line = "takeWhile (\<lambda>b. b \<noteq> NL) ?c"
    define s3 where "s3 = s1\<lparr>sink := sink s @ ?line @ [NL]\<rparr>"
    have line: "?c \<noteq> []" "ls_bytes ls1 str = Some ?line" "ls_content ls1 s3 = drop (length ?line + 1) ?c"
      using n(3) StrOk by (simp_all add: ls_next_post_def s3_def)
    have run: "happy_lines (Some ls) s = happy_lines (Some ls1) s3"
      using n(1,5,6) StrOk line(2)
      by (simp add: happy_lines.simps [of "Some ls" s] write_whole s3_def)
    have "length (ls_content ls1 s3) < length ?c"
      using line(1,3) by (cases ?c) auto
    moreover have "ls_no_faults ls1 s3"
      using less.prems(2) n(7,8) line(3) by (auto simp: s3_def ls_no_faults_def)
    ultimately show ?thesis
      using less.hyps [of ls1 s3] n(2,4,6) line unfolding run
      by (fastforce simp: s3_def lines_of_step)
  qed
qed

text \<open>
  C18. The line stream's test program copies its file to standard output and ends the last line
  with a newline if it had none, reads everything, returns all memory and reports nothing.
\<close>

theorem linestream_test_prints_lines:
  assumes "length argv > 1" and "open_file (argv ! 1) > 0"
    and "mallocs_ok s" and "reads_ok s" and "writes s = []"
    and "length (pending s) + 4194304 \<le> 2 ^ 63"
  shows "\<exists>s'. linestream_test_main strerror open_file page_size argv s = Some ([], 0, s') \<and>
    pending s' = [] \<and> live s' = live s \<and>
    sink s' = sink s @ pending s @ (if pending s = [] \<or> last (pending s) = NL then [] else [NL])"
proof -
  obtain r s1 where c: "linestream__create (open_file (argv ! 1)) page_size s = (r, s1)" by fastforce
  then obtain ls where ls: "r = StreamOk ls" "ls_inv ls" "ls_content ls s1 = pending s"
    "live s1 - ls_owned ls = live s" "ls_no_faults ls s1" "sink s1 = sink s" "writes s1 = []"
    using create_outcome [OF c] create_output [OF c] assms(3-) unfolding ls_content_def ls_no_faults_def
    by (cases r) (auto simp: reads_ok_def unat_READ_BUFFERING_SIZE)
  from happy_lines_outcome [OF ls(2,5,7)] show ?thesis
    using assms(1,2) c ls
    by (auto simp: linestream_test_main_def test_happy_path_def assert_that_def happy_diags_def
        lines_of_concat linestream_destroy_live destroy_frame ls_content_def
        simp del: linestream__destroy.simps)
qed

theorem linestream_test_prints_lines_witness:
  "\<exists>s'. linestream_test_main (\<lambda>_. []) (\<lambda>_. 3) 4096 [[116], [102]] example_in = Some ([], 0, s') \<and>
     sink s' = [99, 10, 10, 100, 10] \<and> live s' = 0"
proof -
  have "length [[116], [102 :: byte]] > 1" "(\<lambda>_. 3) ([[116], [102 :: byte]] ! 1) > (0 :: int)"
    "mallocs_ok example_in" "reads_ok example_in" "writes example_in = []"
    "length (pending example_in) + 4194304 \<le> 2 ^ 63"
    by (simp_all add: example_in_def example_os_def mallocs_ok_def reads_ok_def)
  from linestream_test_prints_lines [OF this, of "\<lambda>_. []" 4096] show ?thesis
    unfolding example_in_def example_os_def by auto
qed

end
