(* ===== verification/FgrepScript.thy ===== *)
theory FgrepScript
  imports Grep
begin

text \<open>
  The script \<open>fixed_grep/fgrep.py\<close>, which searches the same files as \<open>fgrep.c\<close>, and what the
  C program prints against it. The script defines \<open>main\<close> twice; the second definition, with
  \<open>sliding_window\<close>, is the one that runs. A text has one character per byte here, as under
  a one-byte encoding.
\<close>

section \<open>The script\<close>

text \<open>Reading a text file: line ends become newlines, and a line keeps its own.\<close>

fun universal_newlines :: "byte list \<Rightarrow> byte list" where
  "universal_newlines [] = []"
| "universal_newlines (c # cs) =
     (if c = 13
      then NL # (case cs of [] \<Rightarrow> [] | d # ds \<Rightarrow> universal_newlines (if d = NL then ds else cs))
      else c # universal_newlines cs)"

fun text_lines :: "byte list \<Rightarrow> byte list list" where
  "text_lines [] = []"
| "text_lines (c # cs) =
     (if c = NL then [c] # text_lines cs
      else case text_lines cs of [] \<Rightarrow> [[c]] | l # ls \<Rightarrow> (c # l) # ls)"

text \<open>Columns line by line, with the number of their line, and what \<open>print\<close> makes of them.\<close>

definition numbered :: "nat list list \<Rightarrow> (nat \<times> nat) list" where
  "numbered css = concat (map (\<lambda>(lineno, cs). map (Pair lineno) cs) (List.enumerate 1 css))"

definition print_script_match :: "byte list \<Rightarrow> nat \<times> nat \<Rightarrow> byte list" where
  "print_script_match pat m =
     bytes_of (decimal (fst m) @ '':'' @ decimal (snd m) @ '' '') @ pat @ [NL]"

text \<open>The first \<open>main\<close>: its inner loop with \<open>str.index\<close>, and the loop over the lines.\<close>

partial_function (option) index_loop :: "byte list \<Rightarrow> byte list \<Rightarrow> nat \<Rightarrow> nat list option" where
  "index_loop pat line search_start =
     (if search_start < length line then
        (case memmem pat (drop search_start line) of
           None \<Rightarrow> Some []
         | Some got_index \<Rightarrow>
             do {
               rest \<leftarrow> index_loop pat line (search_start + got_index + length pat);
               Some ((search_start + got_index) # rest)
             })
      else Some [])"

definition first_main :: "byte list \<Rightarrow> byte list \<Rightarrow> byte list option" where
  "first_main pat text =
     do {
       css \<leftarrow> those (map (\<lambda>line. index_loop pat line 0) (text_lines text));
       Some (concat (map (print_script_match pat) (numbered css)))
     }"

text \<open>The second \<open>main\<close>.\<close>

definition sliding_window :: "'a list \<Rightarrow> nat \<Rightarrow> (nat \<times> 'a list) list" where
  "sliding_window line window_len =
     map (\<lambda>i. (i, take window_len (drop i line))) [0..<length line + 1 - window_len]"

definition script_columns :: "byte list \<Rightarrow> byte list \<Rightarrow> nat list" where
  "script_columns pat line =
     map fst (filter (\<lambda>(colno, chunk). chunk = pat) (sliding_window line (length pat)))"

definition script_main :: "byte list \<Rightarrow> byte list \<Rightarrow> byte list" where
  "script_main pat text =
     concat (map (print_script_match pat) (numbered (map (script_columns pat) (text_lines text))))"

text \<open>The command line: an exception ends the script.\<close>

datatype py_error = IndexError | OSError

definition fgrep_script ::
    "(byte list \<Rightarrow> byte list option) \<Rightarrow> byte list list \<Rightarrow> py_error + byte list" where
  "fgrep_script open_file argv =
     (if length argv < 3 then Inl IndexError
      else case open_file (argv ! 2) of
        None \<Rightarrow> Inl OSError
      | Some file \<Rightarrow> Inr (script_main (argv ! 1) (universal_newlines file)))"

section \<open>Columns\<close>

text \<open>The columns that do not overlap the ones kept before them, from \<open>from\<close> on.\<close>

fun non_overlapping :: "nat \<Rightarrow> nat \<Rightarrow> nat list \<Rightarrow> nat list" where
  "non_overlapping k start [] = []"
| "non_overlapping k start (i # is) =
     (if i < start then non_overlapping k start is else i # non_overlapping k (i + k) is)"

lemma script_columns_occur:
  "script_columns pat line = filter (occurs_at pat line) [0..<length line + 1 - length pat]"
proof -
  have f: "filter (\<lambda>(colno, chunk). chunk = pat) (map (\<lambda>i. (i, take (length pat) (drop i line))) is) =
      map (\<lambda>i. (i, pat)) (filter (occurs_at pat line) is)"
    if "\<forall>i \<in> set is. i + length pat \<le> length line" for "is"
    using that by (induction "is") (auto simp: occurs_at_def)
  show ?thesis
    unfolding script_columns_def sliding_window_def
    by (subst f) (auto simp: o_def)
qed

lemma non_overlapping_skip:
  "\<forall>i \<in> set is. i < start \<Longrightarrow> non_overlapping k start (is @ js) = non_overlapping k start js"
  by (induction "is") auto

lemma upt_split: "i \<le> j \<Longrightarrow> j \<le> k \<Longrightarrow> [i..<k] = [i..<j] @ [j..<k]"
  using upt_add_eq_append [of i j "k - j"] by simp

text \<open>The columns before \<open>start\<close> may as well not be there.\<close>

lemma non_overlapping_from:
  assumes "m \<le> start"
  shows "non_overlapping k start (filter p [m..<n]) = non_overlapping k start (filter p [start..<n])"
proof (cases "start \<le> n")
  case True
  then show ?thesis using assms by (simp add: upt_split [of m start n] non_overlapping_skip)
next
  case False
  then have "\<forall>i \<in> set (filter p [m..<n]). i < start" by auto
  then show ?thesis using non_overlapping_skip [of _ start k "[]"] False by simp
qed

text \<open>A step of the greedy search over a column without and with a match.\<close>

lemma greedy_miss:
  assumes "\<not> occurs_at pat hay m" and "m < length hay"
  shows "all_matches pat (drop m hay) = map Suc (all_matches pat (drop (Suc m) hay))"
proof -
  have "all_matches pat (drop m hay) = map ((+) 1) (all_matches pat (drop 1 (drop m hay)))"
    using assms mm.occurs_drop [of m hay pat 0] by (intro all_matches_skip) auto
  then show ?thesis by simp
qed

lemma greedy_hit:
  assumes "pat \<noteq> []" and "occurs_at pat hay m"
  shows "all_matches pat (drop m hay) =
    0 # map ((+) (length pat)) (all_matches pat (drop (m + length pat) hay))"
proof -
  have "m \<le> length hay" using assms(2) by (simp add: occurs_at_def)
  then have "occurs_at pat (drop m hay) 0" using assms(2) mm.occurs_drop [of m hay pat 0] by simp
  then have "memmem pat (drop m hay) = Some 0" by (simp add: memmem_Some)
  then show ?thesis using assms(1) by (simp add: all_matches_Some add.commute)
qed

lemma greedy_columns:
  assumes "pat \<noteq> []"
  shows "non_overlapping (length pat) m (filter (occurs_at pat hay) [m..<length hay + 1 - length pat]) =
    map ((+) m) (all_matches pat (drop m hay))"
proof (induction "length hay - m" arbitrary: m rule: less_induct)
  case less
  let ?N = "length hay + 1 - length pat" and ?occ = "occurs_at pat hay"
  have pat: "0 < length pat" using assms by simp
  show ?case
  proof (cases "m < ?N")
    case False
    then have "length (drop m hay) < length pat" using pat unfolding length_drop by linarith
    with False assms show ?thesis by (simp add: no_match_short)
  next
    case True
    have m: "m < length hay" using True pat by linarith
    have up: "[m..<?N] = m # [Suc m..<?N]" using True by (simp add: upt_conv_Cons)
    have IH: "non_overlapping (length pat) e (filter ?occ [e..<?N]) = map ((+) e) (all_matches pat (drop e hay))"
      if "m < e" for e
      using less [of e] that m by linarith
    show ?thesis
    proof (cases "?occ m")
      case False
      have "non_overlapping (length pat) m js = non_overlapping (length pat) (Suc m) js"
        if "\<forall>j \<in> set js. m < j" for js
        using that by (cases js) auto
      then have "non_overlapping (length pat) m (filter ?occ [Suc m..<?N]) =
          non_overlapping (length pat) (Suc m) (filter ?occ [Suc m..<?N])"
        by simp
      then show ?thesis
        using IH [of "Suc m"] False greedy_miss [OF False m] unfolding up by (simp add: o_def)
    next
      case True
      then show ?thesis
        using IH [of "m + length pat"] non_overlapping_from [of "Suc m" "m + length pat"] pat
          greedy_hit [OF assms True] unfolding up by (simp add: o_def add.assoc)
    qed
  qed
qed

lemma script_columns_greedy:
  "pat \<noteq> [] \<Longrightarrow> non_overlapping (length pat) 0 (script_columns pat line) = all_matches pat line"
  using greedy_columns [of pat 0 line] by (simp add: script_columns_occur map_idI)

lemma script_columns_empty: "script_columns pat line = [] \<longleftrightarrow> memmem pat line = None"
  by (auto simp: script_columns_occur filter_empty_conv memmem_None occurs_at_def)

text \<open>A pattern without newline does not see the newline at the end of a line.\<close>

lemma occurs_before_newline:
  assumes "pat \<noteq> []" and "c \<notin> set pat"
  shows "occurs_at pat (xs @ [c]) i \<longleftrightarrow> occurs_at pat xs i"
proof
  assume occ: "occurs_at pat (xs @ [c]) i"
  have "i + length pat \<le> length xs"
  proof (rule ccontr)
    assume "\<not> i + length pat \<le> length xs"
    then have "i + length pat = length (xs @ [c])" using occ by (simp add: occurs_at_def)
    then have "drop i (xs @ [c]) = pat" using occ by (simp add: occurs_at_def)
    moreover have "i \<le> length xs" using \<open>i + length pat = length (xs @ [c])\<close> assms(1) by (cases pat) auto
    ultimately show False using assms(2) by auto
  qed
  with occ show "occurs_at pat xs i" by (rule mm.occurs_append_inside)
qed (rule mm.occurs_append)

lemma columns_before_newline:
  assumes "pat \<noteq> []" and "c \<notin> set pat"
  shows "script_columns pat (xs @ [c]) = script_columns pat xs"
proof -
  have "filter (occurs_at pat xs) [0..<length xs + 2 - length pat] =
      filter (occurs_at pat xs) [0..<length xs + 1 - length pat]"
  proof (cases "length pat \<le> length xs + 1")
    case True
    then have "[0..<length xs + 2 - length pat] =
        [0..<length xs + 1 - length pat] @ [length xs + 1 - length pat]"
      by (simp add: Suc_diff_le)
    moreover have "\<not> occurs_at pat xs (length xs + 1 - length pat)"
      using True by (simp add: occurs_at_def)
    ultimately show ?thesis by simp
  qed simp
  moreover have "occurs_at pat (xs @ [c]) = occurs_at pat xs"
    using occurs_before_newline [OF assms] by blast
  ultimately show ?thesis by (simp add: script_columns_occur)
qed

lemma index_loop_greedy:
  assumes "pat \<noteq> []"
  shows "index_loop pat line start = Some (map ((+) start) (all_matches pat (drop start line)))"
proof (induction "length line - start" arbitrary: start rule: less_induct)
  case less
  show ?case
  proof (cases "start < length line \<and> memmem pat (drop start line) \<noteq> None")
    case False
    then show ?thesis
      using assms no_match_short [OF assms, of "drop start line"]
      by (auto simp: index_loop.simps [of pat line start] all_matches_None)
  next
    case True
    then obtain i where i: "memmem pat (drop start line) = Some i" by auto
    have "length line - (start + i + length pat) < length line - start"
      using True assms by (cases pat) auto
    from less [OF this] show ?thesis
      using True i assms
      by (simp add: index_loop.simps [of pat line start] all_matches_Some o_def ac_simps)
  qed
qed

text \<open>The lines of the two programs.\<close>

definition same_line :: "byte list \<Rightarrow> byte list \<Rightarrow> bool" where
  "same_line l t \<longleftrightarrow> t = l \<or> t = l @ [NL]"

lemma lines_of_Cons:
  "lines_of (c # cs) =
     (if c = NL then [] # lines_of cs
      else case lines_of cs of [] \<Rightarrow> [[c]] | l # ls \<Rightarrow> (c # l) # ls)"
  by (cases "cs = []")
    (simp_all add: lines_of_step [of "c # cs"] lines_of_step [of cs] lines_of_step [of "[NL]"]
      lines_of_step [of "[c]"])

lemma text_lines_same: "list_all2 same_line (lines_of doc) (text_lines doc)"
proof (induction doc)
  case Nil
  then show ?case by simp
next
  case (Cons c cs)
  then show ?case
    by (auto simp: lines_of_Cons same_line_def split: list.splits)
qed

lemma newlines_kept: "13 \<notin> set doc \<Longrightarrow> universal_newlines doc = doc"
  by (induction doc rule: universal_newlines.induct) auto

text \<open>What the C program reports for a line against what the script prints for it.\<close>

definition reports_agree :: "byte list \<Rightarrow> byte list \<Rightarrow> nat list \<Rightarrow> nat list \<Rightarrow> bool" where
  "reports_agree pat line hs cs \<longleftrightarrow>
     filter (\<lambda>i. i + length pat \<le> length line) hs = non_overlapping (length pat) 0 cs \<and>
     (hs = [] \<longleftrightarrow> cs = []) \<and> length hs \<le> length (non_overlapping (length pat) 0 cs) + 1"

lemma line_reports_agree:
  assumes "pat \<noteq> []" and "NL \<notin> set pat" and "same_line l t" and "line_hits pat l hs"
  shows "reports_agree pat l hs (script_columns pat t)"
proof -
  have cols: "script_columns pat t = script_columns pat l"
    using assms(3) columns_before_newline [OF assms(1,2)] by (auto simp: same_line_def)
  let ?ms = "all_matches pat l"
  obtain extra where hs: "hs = ?ms @ extra" "length extra \<le> 1" "?ms = [] \<longrightarrow> extra = []"
    "list_all (\<lambda>i. length l < i + length pat) extra"
    using assms(4) append_take_drop_id [of "length ?ms" hs] unfolding line_hits_def Let_def by metis
  have "filter (\<lambda>i. i + length pat \<le> length l) ?ms = ?ms"
    using all_matches_occur [of _ pat l] by (auto simp: filter_id_conv occurs_at_def)
  moreover have "filter (\<lambda>i. i + length pat \<le> length l) extra = []"
    using hs(4) by (auto simp: filter_empty_conv list_all_iff)
  ultimately show ?thesis
    using hs(1-3) script_columns_greedy [OF assms(1), of l] script_columns_empty [of pat l]
      all_matches_empty_iff [OF assms(1), of l]
    by (auto simp: reports_agree_def cols)
qed

lemma those_all: "\<forall>x \<in> set xs. f x = Some (g x) \<Longrightarrow> those (map f xs) = Some (map g xs)"
  by (induction xs) simp_all

text \<open>The first \<open>main\<close> would leave out the overlapping matches, as the C program does; with an
  empty pattern its loop does not end, as that of the C program.\<close>

lemma first_main_non_overlapping:
  assumes "pat \<noteq> []"
  shows "first_main pat doc = Some (concat (map (print_script_match pat)
    (numbered (map (\<lambda>line. non_overlapping (length pat) 0 (script_columns pat line)) (text_lines doc)))))"
proof -
  have "index_loop pat line 0 = Some (non_overlapping (length pat) 0 (script_columns pat line))" for line
    using index_loop_greedy [OF assms, of line 0] script_columns_greedy [OF assms, of line]
    by (simp add: map_idI)
  then show ?thesis
    using those_all [of "text_lines doc" "\<lambda>line. index_loop pat line 0"
        "\<lambda>line. non_overlapping (length pat) 0 (script_columns pat line)"]
    by (simp add: first_main_def)
qed

lemma index_loop_empty_pattern: "0 < length line \<Longrightarrow> index_loop [] line 0 = None"
proof -
  have "pat = [] \<longrightarrow> start = 0 \<longrightarrow> line = []" if "index_loop pat line start = Some y" for pat line start y
    using that
    by (rule index_loop.raw_induct [where P = "\<lambda>pat line start y. pat = [] \<longrightarrow> start = 0 \<longrightarrow> line = []", rotated])
      (fastforce split: if_splits bind_splits simp: memmem.simps)
  then show "0 < length line \<Longrightarrow> index_loop [] line 0 = None"
    by (cases "index_loop [] line 0") auto
qed

text \<open>
  C15. The C program against the script on the same file, without carriage returns and of at
  most 2 MiB, for a pattern of 1 to 1023 bytes without newline: for every line, the hits that
  lie in the line are the columns the script prints, without those that overlap one before,
  but numbered from 1 instead of 0; a line is reported by both or by none; and the C program has
  at most one hit too many.
\<close>

theorem fgrep_agrees_with_script:
  assumes "3 \<le> length argv" and "argv ! 1 = pat" and "pat \<noteq> []" and "NL \<notin> set pat"
    and "length pat \<le> 1023" and "mallocs_ok s" and "reads_ok s"
    and "length (pending s) \<le> 2 * 1024 * 1024" and "13 \<notin> set (pending s)"
    and "text_file (argv ! 2) = Some (pending s)"
  shows "\<exists>hss css s'.
    fgrep_main strerror open_file page_size argv s =
      Some (\<lparr>out = concat (map print_hit (number_hits pat 1 hss)), diags = [], status = 0\<rparr>, s') \<and>
    fgrep_script text_file argv = Inr (concat (map (print_script_match pat) (numbered css))) \<and>
    length hss = length (lines_of (pending s)) \<and> length css = length (lines_of (pending s)) \<and>
    (\<forall>n < length (lines_of (pending s)).
       reports_agree pat (lines_of (pending s) ! n) (hss ! n) (css ! n))"
proof -
  define css where "css = map (script_columns pat) (text_lines (pending s))"
  obtain hss s' where c: "fgrep_main strerror open_file page_size argv s =
      Some (\<lparr>out = concat (map print_hit (number_hits pat 1 hss)), diags = [], status = 0\<rparr>, s')"
    "list_all2 (line_hits pat) (lines_of (pending s)) hss"
    using fgrep_outcome [OF assms(1-3,5-8)] by blast
  have "fgrep_script text_file argv = Inr (concat (map (print_script_match pat) (numbered css)))"
    using assms(1,2,9,10) by (simp add: fgrep_script_def script_main_def css_def newlines_kept)
  moreover have "reports_agree pat (lines_of (pending s) ! n) (hss ! n) (css ! n)"
    if "n < length (lines_of (pending s))" for n
    using that c(2) text_lines_same [of "pending s"] line_reports_agree [OF assms(3,4)]
    by (simp add: list_all2_conv_all_nth css_def)
  moreover have "length hss = length (lines_of (pending s))" "length css = length (lines_of (pending s))"
    using c(2) text_lines_same [of "pending s"] unfolding css_def
    by (metis list_all2_lengthD, metis length_map list_all2_lengthD)
  ultimately show ?thesis using c(1) by blast
qed

theorem fgrep_agrees_with_script_witness:
  "\<exists>hss css s'.
    fgrep_main (\<lambda>e. []) (\<lambda>path. 3) 4096 [[], [98, 98], [102]]
        (example_os\<lparr>pending := [97, 98, 98, 98, 10], reads := [Short 1, Short 3]\<rparr>) =
      Some (\<lparr>out = concat (map print_hit (number_hits [98, 98] 1 hss)), diags = [], status = 0\<rparr>, s') \<and>
    fgrep_script (\<lambda>path. Some [97, 98, 98, 98, 10]) [[], [98, 98], [102]] =
      Inr (concat (map (print_script_match [98, 98]) (numbered css))) \<and>
    length hss = 1 \<and> length css = 1 \<and> reports_agree [98, 98] [97, 98, 98, 98] (hss ! 0) (css ! 0)"
proof -
  let ?s = "example_os\<lparr>pending := [97, 98, 98, 98, 10], reads := [Short 1, Short 3]\<rparr>"
  have l: "lines_of (pending ?s) = [[97, 98, 98, 98]]"
    by (simp add: lines_of.simps Let_def)
  have ok: "mallocs_ok ?s" "reads_ok ?s"
    by (simp_all add: example_os_def mallocs_ok_def reads_ok_def)
  show ?thesis
    using fgrep_agrees_with_script [of "[[], [98, 98], [102]]" "[98, 98]" ?s
        "\<lambda>path. Some [97, 98, 98, 98, 10]" "\<lambda>e. []" "\<lambda>path. 3" 4096] ok
    unfolding l by simp
qed

end
