(* ===== verification/Spec2Isabelle.thy ===== *)
theory Spec2Isabelle
  imports LineStream ByteSearch Grep Cat Tail Fds SdsProps SdsLayout SdsSelfTest PollServerProps TcpProps
    ChatMain BufferTests FgrepScript
begin

text \<open>
  A verification of a collection of small system programs in C: \<open>cat\<close>, a fixed-string \<open>fgrep\<close>,
  \<open>tail -f\<close>, three TCP servers, and the libraries they are built from (a read buffer, a line
  stream over it, the dynamic strings of \<open>sds.c\<close>, a ring of messages, a list of watched
  descriptors). Paths below are those of the sources under \<open>src/\<close>.

  \<^bold>\<open>How C is modelled.\<close> A computation without a defined outcome (a read or write outside an
  object, a use of NULL, a loop that does not end) is \<open>None\<close>; a theorem that an operation is
  \<open>Some r\<close> says that it is memory safe and returns. An object is the list of its cells,
  \<open>size_t\<close> is \<open>64 word\<close>, and sums and products wrap around as in C. \<open>Posix.os\<close> is one input, one
  output and the heap; the freedom of the kernel and the allocator (failures, short reads and
  writes) is a schedule in the state that the calls use up, and theorems quantify over it. The
  field \<open>live\<close> counts the objects on the heap, so leaks are differences of \<open>live\<close>.

  \<^bold>\<open>Theories and sources.\<close>
  \<^item> \<open>Prelude\<close>: memory of an object, \<open>size_t\<close> arithmetic. \<open>Posix\<close>: heap, \<open>read\<close>, \<open>write\<close>, and the
    locales \<open>byte_source\<close> and \<open>byte_sink\<close>, interpreted on \<open>sys_read\<close> and \<open>sys_write\<close>. \<open>CText\<close>:
    messages, decimal numbers, \<open>strtol\<close>. \<open>ByteSearch\<close>: \<open>memmem\<close> behind the locale
    \<open>leftmost_search\<close>, and the greedy matches.
  \<^item> \<open>ReadBuffer\<close>: \<open>commons/src/readbuffer/src/readbuffer.c\<close>, its invariant, the refinement to a
    list of unread bytes, and sessions as reachable states.
  \<^item> \<open>LineStream\<close>: \<open>commons/src/linestream/src/linestream.c\<close> on top of it; the lines it delivers
    are those of the input for every schedule of reads. \<open>BufferTests\<close>: the test programs of these
    two libraries, run on the model with any heap and any reads.
  \<^item> \<open>Grep\<close>: \<open>fixed_grep/fgrep.c\<close>, the line search that \<open>main\<close> runs and the two whole-file
    searches, which agree with each other. \<open>FgrepScript\<close>: the Python script \<open>fixed_grep/fgrep.py\<close>
    beside it, and what the two print against each other. \<open>Cat\<close>: \<open>cat/cat.c\<close>. \<open>Tail\<close>: \<open>tail/tail.c\<close>.
  \<^item> \<open>Fds\<close>: \<open>tcp/polling/fds_state.c\<close> as a set of descriptors. \<open>MessageQueue\<close>,
    \<open>MessageQueueProps\<close>: \<open>tcp/polling/message_q.c\<close> as a queue of byte strings with readers at
    offsets. \<open>PollServer\<close>, \<open>PollServerProps\<close>: \<open>tcp/polling/poll_server_impl.c\<close>, which puts the two
    together; its event handlers keep the invariant of the whole server in every run. The ring is
    compared with a bounded list and the watch list with a bounded set, call by call and result by
    result.
  \<^item> \<open>Sds\<close> (objects, growing), \<open>SdsOps\<close> (in place), \<open>SdsNumbers\<close>, \<open>SdsFmt\<close> (\<open>sdscatfmt\<close>), \<open>SdsText\<close>
    (joining, splitting, quoting, arguments), \<open>SdsCalls\<close> (any sequence of calls), \<open>SdsTextProps\<close>
    and \<open>SdsProps\<close>: \<open>commons/src/sds/sds.c\<close> and \<open>commons/include/sds.h\<close>. The locale
    \<open>byte_builder\<close> is what the functions that append piece by piece need of \<open>sdscatlen\<close>. Where the
    code counts strings with an \<open>int\<close>, a counter that would pass \<open>INT_MAX\<close> has no defined outcome;
    arguments are compared with a reference parser (\<open>arguments\<close>). They work
    on a record of the header; \<open>SdsLayout\<close> has the five packed headers as bytes in memory, and
    shows that the inline functions of \<open>sds.h\<close> on the bytes are those on the record.
    \<open>SdsSelfTest\<close> runs the file's own test, \<open>sdsTest\<close>, on the model.
  \<^item> \<open>TcpServers\<close>, \<open>TcpProps\<close>: \<open>tcp/pthreads/tcp_pthread.c\<close> and
    \<open>tcp/single_connection/single_connection_server.c\<close>, both from \<open>main\<close> to what each peer
    receives. The threads are modelled twice: as a step relation that is interrupted between any
    two calls (\<open>thread_step\<close>), on which the ownership of descriptors and argument blocks is
    proved, and with the whole run of a thread as one event (\<open>tcp_event\<close>), for what a peer receives
    on its own connection; every run of the second kind is one of the first
    (\<open>TcpProps.whole_threads_interleave\<close>). Also here: the socket of the chat server,
    \<open>tcp/polling/utils.c\<close>. \<open>ChatMain\<close>: \<open>main\<close> of \<open>tcp/polling/main.c\<close>, which composes the socket and
    \<open>PollServer\<close>; delivery is proved from \<open>main\<close> to the peers, when \<open>accept\<close> returns no descriptor
    that is open at the time, nothing has been sent on a new connection, and its writes take whole
    messages.

  \<^bold>\<open>How the parts call each other.\<close> \<open>fgrep\<close> reads lines from a \<open>LineStream\<close>, which keeps its
  bytes in a \<open>ReadBuffer\<close>; the models are composed the same way. \<open>MessageQueue\<close> stores its
  messages with \<open>sdsnewlen\<close> and copies them with \<open>sdsdup\<close> of \<open>Sds\<close>. A round of \<open>PollServer\<close> hands
  the events that \<open>ppoll\<close> answers to the handlers, which call \<open>Fds\<close> and \<open>MessageQueue\<close>, and then
  flushes the ring to every watched client.

  \<^bold>\<open>Bounds and loops.\<close> No fuel is used. Loops over finite data are functions with a termination
  proof (the unread input, the rest of a format, the distance between two indices); loops that
  the code does not bound are \<open>partial_function (option)\<close>, and their theorems include that they
  return. Size hypotheses such as \<open>2 ^ 62\<close> keep sums of lengths inside \<open>size_t\<close>; they are far
  above what an address space holds. What happens when such a sum wraps around is stated where
  the code claims to catch it (\<open>SdsProps.sds_make_room_overflow\<close>).

  \<^bold>\<open>Not modelled.\<close> Signals (a \<open>send\<close> to a closed peer is an error value, not \<open>SIGPIPE\<close>); the
  preemption of a thread inside a call; source bytes that alias the destination in \<open>sdscatlen\<close>,
  \<open>sdscatsds\<close> and \<open>sdscpylen\<close>, which are passed by value; \<open>(size_t)(cap * 0.4)\<close> for capacities that a
  \<open>double\<close> does not hold (it is computed exactly); bytes from 128 on as arguments of \<open>isprint\<close>,
  \<open>isspace\<close>, \<open>tolower\<close> and \<open>toupper\<close>, which are taken to answer as glibc's do in the C locale;
  \<open>vsnprintf\<close>, \<open>getaddrinfo\<close>, \<open>inet_ntop\<close> for IPv6 and \<open>ppoll\<close>, whose answers are arguments; the
  decoding of text in \<open>fgrep.py\<close>, which is read with one character per byte; the macros of the
  missing header \<open>testhelp.h\<close>. Nothing else of the sources is left out but constants and types
  that no function uses.
\<close>

end
